theory Spec2Isabelle
  imports Main "HOL-Library.Word"
begin

unbundle bit_operations_syntax

section \<open>Shared definitions of the poller (src/aio/poller.c)\<close>

text \<open>
  The file \<^verbatim>\<open>poller.c\<close> holds three mutually exclusive implementations of one
  interface, selected by \<^verbatim>\<open>NN_USE_EPOLL\<close>, \<^verbatim>\<open>NN_USE_KQUEUE\<close> and \<^verbatim>\<open>NN_USE_POLL\<close>.
  Each C function is embedded once per backend, with the backend as a suffix of its
  name. The header \<^verbatim>\<open>poller.h\<close> is not part of the sources at hand; the layout of the
  structures is read off the field accesses of \<^verbatim>\<open>poller.c\<close>.

  A handle (\<^verbatim>\<open>struct nn_poller_hndl *\<close>) is owned by the caller and only referenced by
  the poller. It is modelled as an address; the handle memory is an explicit store
  from addresses to handle contents, carried in the state of each backend.
\<close>

type_synonym hptr = nat

text \<open>The three event kinds \<^verbatim>\<open>NN_POLLER_IN\<close>, \<^verbatim>\<open>NN_POLLER_OUT\<close>, \<^verbatim>\<open>NN_POLLER_ERR\<close>.\<close>

datatype kind = NN_POLLER_IN | NN_POLLER_OUT | NN_POLLER_ERR

text \<open>The values of \<^verbatim>\<open>errno\<close> the code distinguishes, and every other one.\<close>

datatype errno = EINTR | EMFILE | ENFILE | EAGAIN | EBADF | EOTHER nat

text \<open>
  What a function of the poller returns: \<^verbatim>\<open>0\<close>, or \<^verbatim>\<open>-E\<close> for an error number \<open>E\<close>.
\<close>

datatype retcode = RC0 | RCneg errno

text \<open>
  The answer of the operating system to one call: success with a value, or failure
  (\<^verbatim>\<open>-1\<close>) with \<^verbatim>\<open>errno\<close> set.
\<close>

datatype 'a kres = KOk 'a | KErr errno

text \<open>
  How a call of the poller can fail to return: a failed \<^verbatim>\<open>errno_assert\<close>,
  \<^verbatim>\<open>alloc_assert\<close> or \<^verbatim>\<open>nn_assert\<close> aborts the process; an array access outside the
  array is undefined behaviour in C; and a wait that is retried for as long as the
  operating system has answers does not return.
\<close>

datatype fault = Abort | OutOfBounds | Blocked

text \<open>
  The requests the poller sends to the operating system and to the allocator, in the
  order in which they are issued. The log is the observable effect of the
  \<^verbatim>\<open>void\<close> functions.
\<close>

datatype kcall =
    EpollCreate1
  | EpollCreate
  | Fcntl int
  | EpollCtlAdd int "32 word" hptr
  | EpollCtlDel int
  | EpollCtlMod int "32 word" hptr
  | EpollWait int int
  | Closefd int
  | Kqueue
  | KeventAdd int int hptr
  | KeventDelete int int
  | KeventWait int "(int \<times> int) option"
  | Poll int int
  | NnAllocPollset int
  | NnAllocHndls int
  | NnReallocPollset int
  | NnReallocHndls int
  | NnFreePollset
  | NnFreeHndls

text \<open>\<^verbatim>\<open>NN_POLLER_MAX_EVENTS\<close>, the length of the event array of the two queue backends.

  Modelled from the spec: the constant is defined in \<^verbatim>\<open>poller.h\<close>; the specification
  calls it a fixed maximum batch length. The value is the one of the original header.\<close>

definition NN_POLLER_MAX_EVENTS :: int where
  "NN_POLLER_MAX_EVENTS = 32"

text \<open>
  Running a drain function \<open>n\<close> times in a row and collecting what each call gives
  (\<open>None\<close> for \<^verbatim>\<open>-EAGAIN\<close>).
\<close>

fun drains :: "('s \<Rightarrow> fault + ('r option \<times> 's)) \<Rightarrow> nat \<Rightarrow> 's \<Rightarrow> fault + ('r option list \<times> 's)" where
  "drains ev 0 s = Inr ([], s)"
| "drains ev (Suc n) s =
     (case ev s of
        Inl f \<Rightarrow> Inl f
      | Inr (r, s') \<Rightarrow>
          (case drains ev n s' of
             Inl f \<Rightarrow> Inl f
           | Inr (rs, s'') \<Rightarrow> Inr (r # rs, s'')))"

section \<open>The epoll backend\<close>

text \<open>The bits \<^verbatim>\<open>EPOLLIN\<close> and \<^verbatim>\<open>EPOLLOUT\<close> of \<^verbatim>\<open><sys/epoll.h>\<close> on Linux.\<close>

definition EPOLLIN :: "32 word" where
  "EPOLLIN = 0x001"

definition EPOLLOUT :: "32 word" where
  "EPOLLOUT = 0x004"

text \<open>\<^verbatim>\<open>struct epoll_event\<close>: the readiness mask and the user data, here always the
  handle given at registration.\<close>

record epoll_event =
  ee_events :: "32 word"
  ee_ptr :: hptr

text \<open>\<^verbatim>\<open>struct nn_poller_hndl\<close> of the epoll backend.\<close>

record ep_hndl =
  eh_fd :: int
  eh_events :: "32 word"

text \<open>\<^verbatim>\<open>struct nn_poller\<close> of the epoll backend, the handle memory and the log.\<close>

record ep_poller =
  ep :: int
  ep_nevents :: int
  ep_index :: int
  ep_events :: "epoll_event list"
  ep_hmem :: "hptr \<Rightarrow> ep_hndl"
  ep_klog :: "kcall list"

text \<open>
  \<^verbatim>\<open>nn_poller_init\<close>. The flag says whether \<^verbatim>\<open>EPOLL_CLOEXEC\<close> is defined at build
  time. \<open>created\<close> is the answer to \<^verbatim>\<open>epoll_create1\<close> (resp. \<^verbatim>\<open>epoll_create\<close>),
  \<open>fcntl_ans\<close> the answer to \<^verbatim>\<open>fcntl\<close> on the legacy path. A failed call stores
  \<^verbatim>\<open>-1\<close> and sets \<^verbatim>\<open>errno\<close>; a successful call leaves \<^verbatim>\<open>errno\<close> as it was.
\<close>

definition kres_value :: "int kres \<Rightarrow> int" where
  "kres_value r = (case r of KOk v \<Rightarrow> v | KErr e \<Rightarrow> - 1)"

definition kres_errno :: "'a kres \<Rightarrow> errno option \<Rightarrow> errno option" where
  "kres_errno r old = (case r of KOk v \<Rightarrow> old | KErr e \<Rightarrow> Some e)"

definition nn_poller_init_epoll ::
  "bool \<Rightarrow> int kres \<Rightarrow> int kres \<Rightarrow> ep_poller \<Rightarrow> fault + (retcode \<times> ep_poller)" where
  "nn_poller_init_epoll have_cloexec created fcntl_ans self =
     (if have_cloexec then
        (let self1 = self\<lparr>ep := kres_value created, ep_klog := ep_klog self @ [EpollCreate1]\<rparr>;
             errno1 = kres_errno created None
         in if ep self1 = - 1 then
              (if errno1 = Some ENFILE \<or> errno1 = Some EMFILE then Inr (RCneg EMFILE, self1)
               else Inl Abort)
            else Inr (RC0, self1\<lparr>ep_nevents := 0, ep_index := 0\<rparr>))
      else
        (let self1 = self\<lparr>ep := kres_value created, ep_klog := ep_klog self @ [EpollCreate]\<rparr>;
             errno1 = kres_errno created None;
             rc = kres_value fcntl_ans;
             self2 = self1\<lparr>ep_klog := ep_klog self1 @ [Fcntl (ep self1)]\<rparr>;
             errno2 = kres_errno fcntl_ans errno1
         in if rc = - 1 then Inl Abort
            else if ep self2 = - 1 then
              (if errno2 = Some ENFILE \<or> errno2 = Some EMFILE then Inr (RCneg EMFILE, self2)
               else Inl Abort)
            else Inr (RC0, self2\<lparr>ep_nevents := 0, ep_index := 0\<rparr>)))"


text \<open>\<^verbatim>\<open>nn_poller_add\<close>: the handle is initialised and registered with an empty mask.\<close>

definition nn_poller_add_epoll :: "ep_poller \<Rightarrow> int \<Rightarrow> hptr \<Rightarrow> ep_poller" where
  "nn_poller_add_epoll self fd hndl =
     self\<lparr>ep_hmem := (ep_hmem self)(hndl := \<lparr>eh_fd = fd, eh_events = 0\<rparr>),
          ep_klog := ep_klog self @ [EpollCtlAdd fd 0 hndl]\<rparr>"

text \<open>
  The loop \<^verbatim>\<open>for (i = self->index; i != self->nevents; ++i) if (self->events [i].data.ptr == hndl) ...\<close>
  shared by \<^verbatim>\<open>nn_poller_rm\<close>, \<^verbatim>\<open>nn_poller_reset_in\<close> and \<^verbatim>\<open>nn_poller_reset_out\<close>;
  \<open>f\<close> is what the body does to the mask of a matching record.
\<close>

function ep_invalidate ::
  "(32 word \<Rightarrow> 32 word) \<Rightarrow> hptr \<Rightarrow> int \<Rightarrow> int \<Rightarrow> epoll_event list \<Rightarrow> fault + epoll_event list" where
  "ep_invalidate f hndl i n evs =
     (if i = n then Inr evs
      else if i < 0 \<or> int (length evs) \<le> i then Inl OutOfBounds
      else ep_invalidate f hndl (i + 1) n
             (if ee_ptr (evs ! nat i) = hndl
              then evs[nat i := (evs ! nat i)\<lparr>ee_events := f (ee_events (evs ! nat i))\<rparr>]
              else evs))"
  by pat_completeness auto
termination
  by (relation "measure (\<lambda>(f, hndl, i, n, evs). nat (int (length evs) - i))") auto

definition nn_poller_rm_epoll :: "ep_poller \<Rightarrow> hptr \<Rightarrow> fault + ep_poller" where
  "nn_poller_rm_epoll self hndl =
     (let self1 = self\<lparr>ep_klog := ep_klog self @ [EpollCtlDel (eh_fd (ep_hmem self hndl))]\<rparr>
      in case ep_invalidate (\<lambda>m. 0) hndl (ep_index self1) (ep_nevents self1) (ep_events self1) of
           Inl f \<Rightarrow> Inl f
         | Inr evs \<Rightarrow> Inr (self1\<lparr>ep_events := evs\<rparr>))"

definition nn_poller_set_in_epoll :: "ep_poller \<Rightarrow> hptr \<Rightarrow> ep_poller" where
  "nn_poller_set_in_epoll self hndl =
     (let h = ep_hmem self hndl
      in if eh_events h AND EPOLLIN \<noteq> 0 then self
         else
           (let h1 = h\<lparr>eh_events := eh_events h OR EPOLLIN\<rparr>
            in self\<lparr>ep_hmem := (ep_hmem self)(hndl := h1),
                    ep_klog := ep_klog self @ [EpollCtlMod (eh_fd h1) (eh_events h1) hndl]\<rparr>))"

definition nn_poller_reset_in_epoll :: "ep_poller \<Rightarrow> hptr \<Rightarrow> fault + ep_poller" where
  "nn_poller_reset_in_epoll self hndl =
     (let h = ep_hmem self hndl
      in if \<not> (eh_events h AND EPOLLIN \<noteq> 0) then Inr self
         else
           (let h1 = h\<lparr>eh_events := eh_events h AND NOT EPOLLIN\<rparr>;
                self1 = self\<lparr>ep_hmem := (ep_hmem self)(hndl := h1),
                    ep_klog := ep_klog self @ [EpollCtlMod (eh_fd h1) (eh_events h1) hndl]\<rparr>
            in case ep_invalidate (\<lambda>m. m AND NOT EPOLLIN) hndl
                      (ep_index self1) (ep_nevents self1) (ep_events self1) of
                 Inl f \<Rightarrow> Inl f
               | Inr evs \<Rightarrow> Inr (self1\<lparr>ep_events := evs\<rparr>)))"

definition nn_poller_set_out_epoll :: "ep_poller \<Rightarrow> hptr \<Rightarrow> ep_poller" where
  "nn_poller_set_out_epoll self hndl =
     (let h = ep_hmem self hndl; fd = eh_fd h
      in if eh_events h AND EPOLLOUT \<noteq> 0 then self
         else
           (let h1 = h\<lparr>eh_events := eh_events h OR EPOLLOUT\<rparr>
            in self\<lparr>ep_hmem := (ep_hmem self)(hndl := h1),
                    ep_klog := ep_klog self @ [EpollCtlMod fd (eh_events h1) hndl]\<rparr>))"

definition nn_poller_reset_out_epoll :: "ep_poller \<Rightarrow> hptr \<Rightarrow> fault + ep_poller" where
  "nn_poller_reset_out_epoll self hndl =
     (let h = ep_hmem self hndl
      in if \<not> (eh_events h AND EPOLLOUT \<noteq> 0) then Inr self
         else
           (let h1 = h\<lparr>eh_events := eh_events h AND NOT EPOLLOUT\<rparr>;
                self1 = self\<lparr>ep_hmem := (ep_hmem self)(hndl := h1),
                    ep_klog := ep_klog self @ [EpollCtlMod (eh_fd h1) (eh_events h1) hndl]\<rparr>
            in case ep_invalidate (\<lambda>m. m AND NOT EPOLLOUT) hndl
                      (ep_index self1) (ep_nevents self1) (ep_events self1) of
                 Inl f \<Rightarrow> Inl f
               | Inr evs \<Rightarrow> Inr (self1\<lparr>ep_events := evs\<rparr>)))"

text \<open>
  \<^verbatim>\<open>nn_poller_wait\<close>. The operating system is given as the list of its answers to the
  successive \<^verbatim>\<open>epoll_wait\<close> calls: a batch of at most \<^verbatim>\<open>NN_POLLER_MAX_EVENTS\<close> records,
  written to the front of the array, or an error. The loop retries on \<^verbatim>\<open>EINTR\<close>,
  whatever \<^verbatim>\<open>NN_IGNORE_EINTR\<close> says. The assertion after the loop reads
  \<^verbatim>\<open>self->nevents\<close>, which is zero at that point, not the local \<^verbatim>\<open>nevents\<close>.
\<close>

fun ep_wait_loop ::
  "ep_poller \<Rightarrow> int \<Rightarrow> epoll_event list kres list \<Rightarrow> fault + (retcode \<times> ep_poller)" where
  "ep_wait_loop self timeout [] = Inl Blocked"
| "ep_wait_loop self timeout (a # answers) =
     (let self1 = self\<lparr>ep_klog := ep_klog self @ [EpollWait NN_POLLER_MAX_EVENTS timeout]\<rparr>
      in case a of
           KErr e \<Rightarrow>
             if e = EINTR then ep_wait_loop self1 timeout answers
             else if ep_nevents self1 = - 1 then Inl Abort
             else Inr (RC0, self1\<lparr>ep_nevents := - 1\<rparr>)
         | KOk batch \<Rightarrow>
             (let b = take (nat NN_POLLER_MAX_EVENTS) batch;
                  self2 = self1\<lparr>ep_events := b @ drop (length b) (ep_events self1)\<rparr>
              in if ep_nevents self2 = - 1 then Inl Abort
                 else Inr (RC0, self2\<lparr>ep_nevents := int (length b)\<rparr>)))"

definition nn_poller_wait_epoll ::
  "ep_poller \<Rightarrow> int \<Rightarrow> epoll_event list kres list \<Rightarrow> fault + (retcode \<times> ep_poller)" where
  "nn_poller_wait_epoll self timeout answers =
     ep_wait_loop (self\<lparr>ep_nevents := 0, ep_index := 0\<rparr>) timeout answers"

text \<open>The loop of \<^verbatim>\<open>nn_poller_event\<close> that skips the empty records.\<close>

function ep_skip :: "epoll_event list \<Rightarrow> int \<Rightarrow> int \<Rightarrow> fault + int" where
  "ep_skip evs i n =
     (if i < n then
        (if i < 0 \<or> int (length evs) \<le> i then Inl OutOfBounds
         else if ee_events (evs ! nat i) \<noteq> 0 then Inr i
         else ep_skip evs (i + 1) n)
      else Inr i)"
  by pat_completeness auto
termination
  by (relation "measure (\<lambda>(evs, i, n). nat (n - i))") auto

definition nn_poller_event_epoll :: "ep_poller \<Rightarrow> fault + ((kind \<times> hptr) option \<times> ep_poller)" where
  "nn_poller_event_epoll self =
     (case ep_skip (ep_events self) (ep_index self) (ep_nevents self) of
        Inl f \<Rightarrow> Inl f
      | Inr i \<Rightarrow>
          (let self1 = self\<lparr>ep_index := i\<rparr>
           in if ep_nevents self1 \<le> i then Inr (None, self1)
              else
                (let e = ep_events self1 ! nat i; hndl = ee_ptr e
                 in if ee_events e AND EPOLLIN \<noteq> 0 then
                      Inr (Some (NN_POLLER_IN, hndl),
                           self1\<lparr>ep_events := (ep_events self1)
                              [nat i := e\<lparr>ee_events := ee_events e AND NOT EPOLLIN\<rparr>]\<rparr>)
                    else if ee_events e AND EPOLLOUT \<noteq> 0 then
                      Inr (Some (NN_POLLER_OUT, hndl),
                           self1\<lparr>ep_events := (ep_events self1)
                              [nat i := e\<lparr>ee_events := ee_events e AND NOT EPOLLOUT\<rparr>]\<rparr>)
                    else Inr (Some (NN_POLLER_ERR, hndl), self1\<lparr>ep_index := i + 1\<rparr>))))"

section \<open>The kqueue backend\<close>

text \<open>The filters and the flag of \<^verbatim>\<open><sys/event.h>\<close> that the code names.\<close>

definition EVFILT_READ :: int where
  "EVFILT_READ = - 1"

definition EVFILT_WRITE :: int where
  "EVFILT_WRITE = - 2"

definition EV_EOF :: "16 word" where
  "EV_EOF = 0x8000"

text \<open>The interest bits \<^verbatim>\<open>NN_POLLER_EVENT_IN\<close> and \<^verbatim>\<open>NN_POLLER_EVENT_OUT\<close> of a handle.

  Modelled from the spec: the two constants are defined in \<^verbatim>\<open>poller.h\<close>; the
  specification describes the interest of a handle as a subset of IN and OUT, so
  they are two distinct bits. The values are the ones of the original header.\<close>

definition NN_POLLER_EVENT_IN :: "32 word" where
  "NN_POLLER_EVENT_IN = 1"

definition NN_POLLER_EVENT_OUT :: "32 word" where
  "NN_POLLER_EVENT_OUT = 2"

text \<open>\<^verbatim>\<open>struct kevent\<close>: the fields the code reads. \<open>ke_udata\<close> is a pointer that the
  code sets to \<^verbatim>\<open>NULL\<close> to invalidate a record.\<close>

record kevent =
  ke_ident :: nat
  ke_filter :: int
  ke_flags :: "16 word"
  ke_udata :: "hptr option"

record kq_hndl =
  kh_fd :: int
  kh_events :: "32 word"

record kq_poller =
  kq :: int
  kq_nevents :: int
  kq_index :: int
  kq_events :: "kevent list"
  kq_hmem :: "hptr \<Rightarrow> kq_hndl"
  kq_klog :: "kcall list"

text \<open>The cast \<^verbatim>\<open>(unsigned) hndl->fd\<close> of a 32-bit \<^verbatim>\<open>int\<close>.\<close>

definition unsigned_of :: "int \<Rightarrow> nat" where
  "unsigned_of fd = nat (fd mod 2 ^ 32)"

text \<open>Division and remainder of C, which truncate towards zero.\<close>

definition c_div :: "int \<Rightarrow> int \<Rightarrow> int" where
  "c_div a b = sgn a * sgn b * (\<bar>a\<bar> div \<bar>b\<bar>)"

definition c_mod :: "int \<Rightarrow> int \<Rightarrow> int" where
  "c_mod a b = a - b * c_div a b"

definition nn_poller_init_kqueue ::
  "int kres \<Rightarrow> kq_poller \<Rightarrow> fault + (retcode \<times> kq_poller)" where
  "nn_poller_init_kqueue created self =
     (let self1 = self\<lparr>kq := kres_value created, kq_klog := kq_klog self @ [Kqueue]\<rparr>;
          errno1 = kres_errno created None
      in if kq self1 = - 1 then
           (if errno1 = Some ENFILE \<or> errno1 = Some EMFILE then Inr (RCneg EMFILE, self1)
            else Inl Abort)
         else Inr (RC0, self1\<lparr>kq_nevents := 0, kq_index := 0\<rparr>))"


definition nn_poller_add_kqueue :: "kq_poller \<Rightarrow> int \<Rightarrow> hptr \<Rightarrow> kq_poller" where
  "nn_poller_add_kqueue self fd hndl =
     self\<lparr>kq_hmem := (kq_hmem self)(hndl := \<lparr>kh_fd = fd, kh_events = 0\<rparr>)\<rparr>"

text \<open>
  The loop \<^verbatim>\<open>for (i = self->index; i != self->nevents; ++i) if (...) self->events [i].udata = NULL\<close>;
  \<open>P\<close> is the condition on the record.
\<close>

function kq_invalidate ::
  "(kevent \<Rightarrow> bool) \<Rightarrow> int \<Rightarrow> int \<Rightarrow> kevent list \<Rightarrow> fault + kevent list" where
  "kq_invalidate P i n evs =
     (if i = n then Inr evs
      else if i < 0 \<or> int (length evs) \<le> i then Inl OutOfBounds
      else kq_invalidate P (i + 1) n
             (if P (evs ! nat i)
              then evs[nat i := (evs ! nat i)\<lparr>ke_udata := None\<rparr>]
              else evs))"
  by pat_completeness auto
termination
  by (relation "measure (\<lambda>(P, i, n, evs). nat (int (length evs) - i))") auto

definition nn_poller_rm_kqueue :: "kq_poller \<Rightarrow> hptr \<Rightarrow> fault + kq_poller" where
  "nn_poller_rm_kqueue self hndl =
     (let h = kq_hmem self hndl;
          self1 = (if kh_events h AND NN_POLLER_EVENT_IN \<noteq> 0
                   then self\<lparr>kq_klog := kq_klog self @ [KeventDelete (kh_fd h) EVFILT_READ]\<rparr>
                   else self);
          self2 = (if kh_events h AND NN_POLLER_EVENT_OUT \<noteq> 0
                   then self1\<lparr>kq_klog := kq_klog self1 @ [KeventDelete (kh_fd h) EVFILT_WRITE]\<rparr>
                   else self1)
      in case kq_invalidate (\<lambda>e. ke_ident e = unsigned_of (kh_fd h))
                (kq_index self2) (kq_nevents self2) (kq_events self2) of
           Inl f \<Rightarrow> Inl f
         | Inr evs \<Rightarrow> Inr (self2\<lparr>kq_events := evs\<rparr>))"

text \<open>\<^verbatim>\<open>nn_poller_set_in\<close>: \<open>ans\<close> is the answer of \<^verbatim>\<open>kevent\<close> to the registration, read
  only when the call is made. The interest bit is set only when the call succeeded.\<close>

definition nn_poller_set_in_kqueue :: "kq_poller \<Rightarrow> hptr \<Rightarrow> int kres \<Rightarrow> kq_poller" where
  "nn_poller_set_in_kqueue self hndl ans =
     (let h = kq_hmem self hndl
      in if \<not> (kh_events h AND NN_POLLER_EVENT_IN \<noteq> 0) then
           (let self1 = self\<lparr>kq_klog := kq_klog self @ [KeventAdd (kh_fd h) EVFILT_READ hndl]\<rparr>;
                rc = kres_value ans
            in if rc \<noteq> - 1
               then self1\<lparr>kq_hmem := (kq_hmem self1)
                      (hndl := h\<lparr>kh_events := kh_events h OR NN_POLLER_EVENT_IN\<rparr>)\<rparr>
               else self1)
         else self)"

text \<open>\<^verbatim>\<open>nn_poller_reset_in\<close>: the result of \<^verbatim>\<open>kevent\<close> is stored and never read; the bit
  is cleared whatever it was. The scan of the buffer is outside the \<^verbatim>\<open>if\<close>.\<close>

definition nn_poller_reset_in_kqueue :: "kq_poller \<Rightarrow> hptr \<Rightarrow> fault + kq_poller" where
  "nn_poller_reset_in_kqueue self hndl =
     (let h = kq_hmem self hndl;
          self1 = (if kh_events h AND NN_POLLER_EVENT_IN \<noteq> 0
                   then self\<lparr>kq_klog := kq_klog self @ [KeventDelete (kh_fd h) EVFILT_READ],
                          kq_hmem := (kq_hmem self)
                            (hndl := h\<lparr>kh_events := kh_events h AND NOT NN_POLLER_EVENT_IN\<rparr>)\<rparr>
                   else self)
      in case kq_invalidate
                (\<lambda>e. ke_ident e = unsigned_of (kh_fd (kq_hmem self1 hndl)) \<and>
                      ke_filter e = EVFILT_READ)
                (kq_index self1) (kq_nevents self1) (kq_events self1) of
           Inl f \<Rightarrow> Inl f
         | Inr evs \<Rightarrow> Inr (self1\<lparr>kq_events := evs\<rparr>))"

definition nn_poller_set_out_kqueue :: "kq_poller \<Rightarrow> hptr \<Rightarrow> int kres \<Rightarrow> kq_poller" where
  "nn_poller_set_out_kqueue self hndl ans =
     (let h = kq_hmem self hndl; fd = kh_fd h
      in if \<not> (kh_events h AND NN_POLLER_EVENT_OUT \<noteq> 0) then
           (let self1 = self\<lparr>kq_klog := kq_klog self @ [KeventAdd fd EVFILT_WRITE hndl]\<rparr>;
                rc = kres_value ans
            in if rc \<noteq> - 1
               then self1\<lparr>kq_hmem := (kq_hmem self1)
                      (hndl := h\<lparr>kh_events := kh_events h OR NN_POLLER_EVENT_OUT\<rparr>)\<rparr>
               else self1)
         else self)"

text \<open>\<^verbatim>\<open>nn_poller_reset_out\<close>: unlike \<^verbatim>\<open>nn_poller_reset_in\<close>, the bit is cleared only when
  \<^verbatim>\<open>kevent\<close> succeeded.\<close>

definition nn_poller_reset_out_kqueue :: "kq_poller \<Rightarrow> hptr \<Rightarrow> int kres \<Rightarrow> fault + kq_poller" where
  "nn_poller_reset_out_kqueue self hndl ans =
     (let h = kq_hmem self hndl; fd = kh_fd h;
          self1 = (if kh_events h AND NN_POLLER_EVENT_OUT \<noteq> 0
                   then
                     (let self0 = self\<lparr>kq_klog := kq_klog self @ [KeventDelete fd EVFILT_WRITE]\<rparr>;
                          rc = kres_value ans
                      in if rc \<noteq> - 1
                         then self0\<lparr>kq_hmem := (kq_hmem self0)
                                (hndl := h\<lparr>kh_events := kh_events h AND NOT NN_POLLER_EVENT_OUT\<rparr>)\<rparr>
                         else self0)
                   else self)
      in case kq_invalidate
                (\<lambda>e. ke_ident e = unsigned_of (kh_fd (kq_hmem self1 hndl)) \<and>
                      ke_filter e = EVFILT_WRITE)
                (kq_index self1) (kq_nevents self1) (kq_events self1) of
           Inl f \<Rightarrow> Inl f
         | Inr evs \<Rightarrow> Inr (self1\<lparr>kq_events := evs\<rparr>))"

text \<open>
  \<^verbatim>\<open>nn_poller_wait\<close>. \<open>ignore_eintr\<close> says whether \<^verbatim>\<open>NN_IGNORE_EINTR\<close> is defined at
  build time. The operating system is the list of its answers to the successive
  \<^verbatim>\<open>kevent\<close> calls. The log records the time limit handed over: \<open>None\<close> is the
  \<^verbatim>\<open>NULL\<close> pointer, \<open>Some (s, ns)\<close> the \<^verbatim>\<open>timespec\<close>.
\<close>

fun kq_wait_loop ::
  "bool \<Rightarrow> kq_poller \<Rightarrow> int \<Rightarrow> kevent list kres list \<Rightarrow> fault + (retcode \<times> kq_poller)" where
  "kq_wait_loop ignore_eintr self timeout [] = Inl Blocked"
| "kq_wait_loop ignore_eintr self timeout (a # answers) =
     (let ts = (c_div timeout 1000, c_mod timeout 1000 * 1000000);
          self1 = self\<lparr>kq_klog := kq_klog self @
                    [KeventWait NN_POLLER_MAX_EVENTS (if 0 \<le> timeout then Some ts else None)]\<rparr>
      in case a of
           KErr e \<Rightarrow>
             if e = EINTR then
               (if ignore_eintr then kq_wait_loop ignore_eintr self1 timeout answers
                else Inr (RCneg EINTR, self1))
             else Inl Abort
         | KOk batch \<Rightarrow>
             (let b = take (nat NN_POLLER_MAX_EVENTS) batch
              in Inr (RC0, self1\<lparr>kq_events := b @ drop (length b) (kq_events self1),
                                kq_nevents := int (length b)\<rparr>)))"

definition nn_poller_wait_kqueue ::
  "bool \<Rightarrow> kq_poller \<Rightarrow> int \<Rightarrow> kevent list kres list \<Rightarrow> fault + (retcode \<times> kq_poller)" where
  "nn_poller_wait_kqueue ignore_eintr self timeout answers =
     kq_wait_loop ignore_eintr (self\<lparr>kq_nevents := 0, kq_index := 0\<rparr>) timeout answers"

function kq_skip :: "kevent list \<Rightarrow> int \<Rightarrow> int \<Rightarrow> fault + int" where
  "kq_skip evs i n =
     (if i < n then
        (if i < 0 \<or> int (length evs) \<le> i then Inl OutOfBounds
         else if ke_udata (evs ! nat i) \<noteq> None then Inr i
         else kq_skip evs (i + 1) n)
      else Inr i)"
  by pat_completeness auto
termination
  by (relation "measure (\<lambda>(evs, i, n). nat (n - i))") auto

text \<open>\<^verbatim>\<open>nn_poller_event\<close>: the handle given back is the \<^verbatim>\<open>udata\<close> pointer of the record.\<close>

definition nn_poller_event_kqueue ::
  "kq_poller \<Rightarrow> fault + ((kind \<times> hptr option) option \<times> kq_poller)" where
  "nn_poller_event_kqueue self =
     (case kq_skip (kq_events self) (kq_index self) (kq_nevents self) of
        Inl f \<Rightarrow> Inl f
      | Inr i \<Rightarrow>
          (let self1 = self\<lparr>kq_index := i\<rparr>
           in if kq_nevents self1 \<le> i then Inr (None, self1)
              else
                (let e = kq_events self1 ! nat i; hndl = ke_udata e
                 in if ke_flags e AND EV_EOF \<noteq> 0 then
                      Inr (Some (NN_POLLER_ERR, hndl), self1\<lparr>kq_index := i + 1\<rparr>)
                    else if ke_filter e = EVFILT_WRITE then
                      Inr (Some (NN_POLLER_OUT, hndl), self1\<lparr>kq_index := i + 1\<rparr>)
                    else if ke_filter e = EVFILT_READ then
                      Inr (Some (NN_POLLER_IN, hndl), self1\<lparr>kq_index := i + 1\<rparr>)
                    else Inl Abort)))"

section \<open>The poll backend\<close>

text \<open>The bits \<^verbatim>\<open>POLLIN\<close> and \<^verbatim>\<open>POLLOUT\<close> of \<^verbatim>\<open><poll.h>\<close>.\<close>

definition POLLIN :: "16 word" where
  "POLLIN = 0x001"

definition POLLOUT :: "16 word" where
  "POLLOUT = 0x004"

definition NN_POLLER_GRANULARITY :: int where
  "NN_POLLER_GRANULARITY = 16"

text \<open>\<^verbatim>\<open>struct pollfd\<close>.\<close>

record pollfd =
  pf_fd :: int
  pf_events :: "16 word"
  pf_revents :: "16 word"

text \<open>\<^verbatim>\<open>struct nn_hndls_item\<close>: the handle of a slot (\<^verbatim>\<open>NULL\<close> once removed) and the links
  of the list of removed slots.\<close>

record nn_hndls_item =
  hi_hndl :: "hptr option"
  hi_prev :: int
  hi_next :: int

text \<open>
  \<^verbatim>\<open>struct nn_poller\<close> of the poll backend. A handle of this backend has the single
  field \<^verbatim>\<open>index\<close>; \<open>pl_hmem\<close> maps the address of a handle to that field. The two
  arrays are lists, as long as the memory allocated for them.
\<close>

record pl_poller =
  pl_size :: int
  pl_index :: int
  pl_capacity :: int
  pl_pollset :: "pollfd list"
  pl_hndls :: "nn_hndls_item list"
  pl_removed :: int
  pl_hmem :: "hptr \<Rightarrow> int"
  pl_klog :: "kcall list"

text \<open>Whether an index is inside an array.\<close>

definition inb :: "'a list \<Rightarrow> int \<Rightarrow> bool" where
  "inb xs i \<longleftrightarrow> 0 \<le> i \<and> i < int (length xs)"

text \<open>
  \<^verbatim>\<open>nn_poller_init\<close>. The two arguments are the answers of \<^verbatim>\<open>nn_alloc\<close>: \<open>None\<close> for
  \<^verbatim>\<open>NULL\<close>, or the fresh memory with whatever it holds.
\<close>

definition nn_poller_init_poll ::
  "pollfd list option \<Rightarrow> nn_hndls_item list option \<Rightarrow> pl_poller \<Rightarrow> fault + (retcode \<times> pl_poller)" where
  "nn_poller_init_poll mem1 mem2 self =
     (let self1 = self\<lparr>pl_size := 0, pl_index := 0, pl_capacity := NN_POLLER_GRANULARITY,
                    pl_klog := pl_klog self @ [NnAllocPollset NN_POLLER_GRANULARITY]\<rparr>
      in case mem1 of
           None \<Rightarrow> Inl Abort
         | Some ps \<Rightarrow>
             (let self2 = self1\<lparr>pl_pollset := ps,
                            pl_klog := pl_klog self1 @ [NnAllocHndls NN_POLLER_GRANULARITY]\<rparr>
              in case mem2 of
                   None \<Rightarrow> Inl Abort
                 | Some hs \<Rightarrow> Inr (RC0, self2\<lparr>pl_hndls := hs, pl_removed := - 1\<rparr>)))"


text \<open>
  \<^verbatim>\<open>nn_poller_add\<close>. The two last arguments are the answers of \<^verbatim>\<open>nn_realloc\<close>, read only
  when the arrays grow: \<open>None\<close> for \<^verbatim>\<open>NULL\<close>, or the memory added behind the old
  contents.
\<close>

definition nn_poller_add_poll ::
  "pl_poller \<Rightarrow> int \<Rightarrow> hptr \<Rightarrow> pollfd list option \<Rightarrow> nn_hndls_item list option \<Rightarrow> fault + pl_poller" where
  "nn_poller_add_poll self fd hndl mem1 mem2 =
     (case
        (if pl_capacity self \<le> pl_size self then
           (let self1 = self\<lparr>pl_capacity := pl_capacity self * 2\<rparr>;
                self2 = self1\<lparr>pl_klog := pl_klog self1 @ [NnReallocPollset (pl_capacity self1)]\<rparr>
            in case mem1 of
                 None \<Rightarrow> Inl Abort
               | Some ps \<Rightarrow>
                   (let self3 = self2\<lparr>pl_pollset := pl_pollset self2 @ ps,
                                  pl_klog := pl_klog self2 @ [NnReallocHndls (pl_capacity self2)]\<rparr>
                    in case mem2 of
                         None \<Rightarrow> Inl Abort
                       | Some hs \<Rightarrow> Inr (self3\<lparr>pl_hndls := pl_hndls self3 @ hs\<rparr>)))
         else Inr self) of
        Inl f \<Rightarrow> Inl f
      | Inr s \<Rightarrow>
          (let n = pl_size s
           in if \<not> inb (pl_pollset s) n \<or> \<not> inb (pl_hndls s) n then Inl OutOfBounds
              else Inr (s\<lparr>pl_pollset := (pl_pollset s)
                             [nat n := \<lparr>pf_fd = fd, pf_events = 0, pf_revents = 0\<rparr>],
                          pl_hmem := (pl_hmem s)(hndl := n),
                          pl_hndls := (pl_hndls s)
                             [nat n := (pl_hndls s ! nat n)\<lparr>hi_hndl := Some hndl\<rparr>],
                          pl_size := n + 1\<rparr>)))"

definition nn_poller_rm_poll :: "pl_poller \<Rightarrow> hptr \<Rightarrow> fault + pl_poller" where
  "nn_poller_rm_poll self hndl =
     (let ix = pl_hmem self hndl
      in if \<not> inb (pl_pollset self) ix then Inl OutOfBounds
         else
           (let ps = (pl_pollset self)[nat ix := (pl_pollset self ! nat ix)\<lparr>pf_revents := 0\<rparr>];
                r = pl_removed self
            in if r \<noteq> - 1 \<and> \<not> inb (pl_hndls self) r then Inl OutOfBounds
               else
                 (let hs1 = (if r \<noteq> - 1
                             then (pl_hndls self)[nat r := (pl_hndls self ! nat r)\<lparr>hi_prev := ix\<rparr>]
                             else pl_hndls self)
                  in if \<not> inb hs1 ix then Inl OutOfBounds
                     else
                       Inr (self\<lparr>pl_pollset := ps,
                                 pl_hndls := hs1[nat ix := (hs1 ! nat ix)
                                    \<lparr>hi_hndl := None, hi_prev := - 1, hi_next := r\<rparr>],
                                 pl_removed := ix\<rparr>))))"

definition nn_poller_set_in_poll :: "pl_poller \<Rightarrow> hptr \<Rightarrow> fault + pl_poller" where
  "nn_poller_set_in_poll self hndl =
     (let ix = pl_hmem self hndl
      in if \<not> inb (pl_pollset self) ix then Inl OutOfBounds
         else Inr (self\<lparr>pl_pollset := (pl_pollset self)[nat ix := (pl_pollset self ! nat ix)
                      \<lparr>pf_events := pf_events (pl_pollset self ! nat ix) OR POLLIN\<rparr>]\<rparr>))"

definition nn_poller_reset_in_poll :: "pl_poller \<Rightarrow> hptr \<Rightarrow> fault + pl_poller" where
  "nn_poller_reset_in_poll self hndl =
     (let ix = pl_hmem self hndl
      in if \<not> inb (pl_pollset self) ix then Inl OutOfBounds
         else Inr (self\<lparr>pl_pollset := (pl_pollset self)[nat ix := (pl_pollset self ! nat ix)
                      \<lparr>pf_events := pf_events (pl_pollset self ! nat ix) AND NOT POLLIN,
                       pf_revents := pf_revents (pl_pollset self ! nat ix) AND NOT POLLIN\<rparr>]\<rparr>))"

definition nn_poller_set_out_poll :: "pl_poller \<Rightarrow> hptr \<Rightarrow> fault + pl_poller" where
  "nn_poller_set_out_poll self hndl =
     (let ix = pl_hmem self hndl
      in if \<not> inb (pl_pollset self) ix then Inl OutOfBounds
         else Inr (self\<lparr>pl_pollset := (pl_pollset self)[nat ix := (pl_pollset self ! nat ix)
                      \<lparr>pf_events := pf_events (pl_pollset self ! nat ix) OR POLLOUT\<rparr>]\<rparr>))"

definition nn_poller_reset_out_poll :: "pl_poller \<Rightarrow> hptr \<Rightarrow> fault + pl_poller" where
  "nn_poller_reset_out_poll self hndl =
     (let ix = pl_hmem self hndl
      in if \<not> inb (pl_pollset self) ix then Inl OutOfBounds
         else Inr (self\<lparr>pl_pollset := (pl_pollset self)[nat ix := (pl_pollset self ! nat ix)
                      \<lparr>pf_events := pf_events (pl_pollset self ! nat ix) AND NOT POLLOUT,
                       pf_revents := pf_revents (pl_pollset self ! nat ix) AND NOT POLLOUT\<rparr>]\<rparr>))"

text \<open>
  The body of \<^verbatim>\<open>if (i != self->size)\<close> in the loop of \<^verbatim>\<open>nn_poller_wait\<close>, after
  \<^verbatim>\<open>--self->size\<close>: the last slot is copied over slot \<open>i\<close>.
\<close>

definition pl_move :: "pl_poller \<Rightarrow> int \<Rightarrow> fault + pl_poller" where
  "pl_move self i =
     (let n = pl_size self
      in if \<not> inb (pl_pollset self) n \<or> \<not> inb (pl_pollset self) i \<or> \<not> inb (pl_hndls self) i
         then Inl OutOfBounds
         else
           (let ps = (pl_pollset self)[nat i := pl_pollset self ! nat n];
                nx = hi_next (pl_hndls self ! nat i)
            in if nx \<noteq> - 1 \<and> \<not> inb (pl_hndls self) nx then Inl OutOfBounds
               else
                 (let hs1 = (if nx \<noteq> - 1
                             then (pl_hndls self)[nat nx := (pl_hndls self ! nat nx)\<lparr>hi_prev := - 1\<rparr>]
                             else pl_hndls self)
                  in if \<not> inb hs1 n then Inl OutOfBounds
                     else
                       (let hs2 = hs1[nat i := hs1 ! nat n];
                            hm = (case hi_hndl (hs2 ! nat i) of
                                    None \<Rightarrow> pl_hmem self
                                  | Some g \<Rightarrow> (pl_hmem self)(g := i))
                        in Inr (self\<lparr>pl_pollset := ps, pl_hndls := hs2, pl_hmem := hm\<rparr>)))))"

text \<open>The body of \<^verbatim>\<open>if (nn_slow (!self->hndls [i].hndl))\<close> in the same loop.\<close>

definition pl_fixup :: "pl_poller \<Rightarrow> int \<Rightarrow> fault + pl_poller" where
  "pl_fixup self i =
     (if \<not> inb (pl_hndls self) i then Inl OutOfBounds
      else
        (let pv = hi_prev (pl_hndls self ! nat i)
         in if pv \<noteq> - 1 \<and> \<not> inb (pl_hndls self) pv then Inl OutOfBounds
            else
              (let hs1 = (if pv \<noteq> - 1
                          then (pl_hndls self)[nat pv := (pl_hndls self ! nat pv)\<lparr>hi_next := i\<rparr>]
                          else pl_hndls self);
                   nx = hi_next (hs1 ! nat i)
               in if nx \<noteq> - 1 \<and> \<not> inb hs1 nx then Inl OutOfBounds
                  else
                    (let hs2 = (if nx \<noteq> - 1
                                then hs1[nat nx := (hs1 ! nat nx)\<lparr>hi_prev := i\<rparr>]
                                else hs1)
                     in Inr (self\<lparr>pl_hndls := hs2,
                                  pl_removed := (if pl_removed self = pl_size self then i
                                                 else pl_removed self)\<rparr>)))))"

text \<open>One round of the loop \<^verbatim>\<open>while (self->removed != -1)\<close>.\<close>

definition pl_compact_step :: "pl_poller \<Rightarrow> fault + pl_poller" where
  "pl_compact_step self =
     (let i = pl_removed self
      in if \<not> inb (pl_hndls self) i then Inl OutOfBounds
         else
           (let self1 = self\<lparr>pl_removed := hi_next (pl_hndls self ! nat i)\<rparr>;
                self2 = self1\<lparr>pl_size := pl_size self1 - 1\<rparr>
            in case (if i \<noteq> pl_size self2 then pl_move self2 i else Inr self2) of
                 Inl f \<Rightarrow> Inl f
               | Inr self3 \<Rightarrow>
                   (if \<not> inb (pl_hndls self3) i then Inl OutOfBounds
                    else if hi_hndl (pl_hndls self3 ! nat i) = None then pl_fixup self3 i
                    else Inr self3)))"

lemma pl_move_size: "pl_move s i = Inr s' \<Longrightarrow> pl_size s' = pl_size s \<and> 0 \<le> pl_size s"
  by (auto simp: pl_move_def Let_def inb_def split: if_splits)

lemma pl_fixup_size: "pl_fixup s i = Inr s' \<Longrightarrow> pl_size s' = pl_size s"
  by (auto simp: pl_fixup_def Let_def split: if_splits)

lemma pl_compact_step_size:
  assumes "pl_compact_step s = Inr s'"
  shows "pl_size s' = pl_size s - 1 \<and> 0 \<le> pl_size s'"
proof -
  let ?i = "pl_removed s"
  let ?s2 = "s\<lparr>pl_removed := hi_next (pl_hndls s ! nat ?i), pl_size := pl_size s - 1\<rparr>"
  from assms have ib: "inb (pl_hndls s) ?i"
    by (auto simp: pl_compact_step_def Let_def split: if_splits)
  from assms ib obtain s3 where
    s3: "(if ?i \<noteq> pl_size ?s2 then pl_move ?s2 ?i else Inr ?s2) = Inr s3" and
    s': "(if hi_hndl (pl_hndls s3 ! nat ?i) = None then pl_fixup s3 ?i else Inr s3) = Inr s'"
    by (auto simp: pl_compact_step_def Let_def split: if_splits sum.splits)
  from s3 ib have "pl_size s3 = pl_size s - 1 \<and> 0 \<le> pl_size s3"
    by (auto simp: inb_def dest: pl_move_size split: if_splits)
  moreover from s' have "pl_size s' = pl_size s3"
    by (auto dest: pl_fixup_size split: if_splits)
  ultimately show ?thesis by simp
qed

text \<open>The loop \<^verbatim>\<open>while (self->removed != -1)\<close> at the start of \<^verbatim>\<open>nn_poller_wait\<close>.\<close>

function pl_compact :: "pl_poller \<Rightarrow> fault + pl_poller" where
  "pl_compact self =
     (if pl_removed self = - 1 then Inr self
      else
        (case pl_compact_step self of
           Inl f \<Rightarrow> Inl f
         | Inr s \<Rightarrow> pl_compact s))"
  by pat_completeness auto
termination
proof (relation "measure (\<lambda>s. nat (pl_size s))")
  show "wf (measure (\<lambda>s. nat (pl_size s)))" by simp
next
  fix self :: pl_poller and s
  assume "pl_compact_step self = Inr s"
  from pl_compact_step_size[OF this]
  show "(s, self) \<in> measure (\<lambda>s. nat (pl_size s))" by simp
qed

text \<open>
  What \<^verbatim>\<open>poll\<close> does to the array on success: it stores the reported events of the first
  \<open>n\<close> entries, given as the list \<open>revs\<close>.
\<close>

definition poll_write :: "pollfd list \<Rightarrow> nat \<Rightarrow> 16 word list \<Rightarrow> pollfd list" where
  "poll_write ps n revs =
     map (\<lambda>(p, r). p\<lparr>pf_revents := r\<rparr>) (zip (take n ps) (take n (revs @ replicate n 0)))
     @ drop n ps"

fun pl_poll_loop ::
  "bool \<Rightarrow> pl_poller \<Rightarrow> int \<Rightarrow> 16 word list kres list \<Rightarrow> fault + (retcode \<times> pl_poller)" where
  "pl_poll_loop ignore_eintr self timeout [] = Inl Blocked"
| "pl_poll_loop ignore_eintr self timeout (a # answers) =
     (let self1 = self\<lparr>pl_klog := pl_klog self @ [Poll (pl_size self) timeout]\<rparr>
      in case a of
           KErr e \<Rightarrow>
             if e = EINTR then
               (if ignore_eintr then pl_poll_loop ignore_eintr self1 timeout answers
                else Inr (RCneg EINTR, self1))
             else Inl Abort
         | KOk revs \<Rightarrow>
             Inr (RC0, self1\<lparr>pl_pollset :=
                          poll_write (pl_pollset self1) (nat (pl_size self1)) revs\<rparr>))"

text \<open>\<^verbatim>\<open>nn_poller_wait\<close>: the removed slots are dropped, the cursor is reset, then
  \<^verbatim>\<open>poll\<close> is called.\<close>

definition nn_poller_wait_poll ::
  "bool \<Rightarrow> pl_poller \<Rightarrow> int \<Rightarrow> 16 word list kres list \<Rightarrow> fault + (retcode \<times> pl_poller)" where
  "nn_poller_wait_poll ignore_eintr self timeout answers =
     (case pl_compact self of
        Inl f \<Rightarrow> Inl f
      | Inr s \<Rightarrow> pl_poll_loop ignore_eintr (s\<lparr>pl_index := 0\<rparr>) timeout answers)"

function pl_skip :: "pollfd list \<Rightarrow> int \<Rightarrow> int \<Rightarrow> fault + int" where
  "pl_skip ps i n =
     (if i < n then
        (if i < 0 \<or> int (length ps) \<le> i then Inl OutOfBounds
         else if pf_revents (ps ! nat i) \<noteq> 0 then Inr i
         else pl_skip ps (i + 1) n)
      else Inr i)"
  by pat_completeness auto
termination
  by (relation "measure (\<lambda>(ps, i, n). nat (n - i))") auto

definition nn_poller_event_poll ::
  "pl_poller \<Rightarrow> fault + ((kind \<times> hptr option) option \<times> pl_poller)" where
  "nn_poller_event_poll self =
     (case pl_skip (pl_pollset self) (pl_index self) (pl_size self) of
        Inl f \<Rightarrow> Inl f
      | Inr i \<Rightarrow>
          (let self1 = self\<lparr>pl_index := i\<rparr>
           in if pl_size self1 \<le> i then Inr (None, self1)
              else if \<not> inb (pl_hndls self1) i then Inl OutOfBounds
              else
                (let hndl = hi_hndl (pl_hndls self1 ! nat i); p = pl_pollset self1 ! nat i
                 in if pf_revents p AND POLLIN \<noteq> 0 then
                      Inr (Some (NN_POLLER_IN, hndl),
                           self1\<lparr>pl_pollset := (pl_pollset self1)
                              [nat i := p\<lparr>pf_revents := pf_revents p AND NOT POLLIN\<rparr>]\<rparr>)
                    else if pf_revents p AND POLLOUT \<noteq> 0 then
                      Inr (Some (NN_POLLER_OUT, hndl),
                           self1\<lparr>pl_pollset := (pl_pollset self1)
                              [nat i := p\<lparr>pf_revents := pf_revents p AND NOT POLLOUT\<rparr>]\<rparr>)
                    else Inr (Some (NN_POLLER_ERR, hndl), self1\<lparr>pl_index := i + 1\<rparr>))))"

section \<open>Example states\<close>

text \<open>
  Three small contexts, one per backend, as \<^verbatim>\<open>nn_poller_init\<close> leaves them (descriptor
  \<open>5\<close> for the two queues), with cleared memory.
\<close>

definition ep_ex :: ep_poller where
  "ep_ex = \<lparr>ep = 5, ep_nevents = 0, ep_index = 0,
            ep_events = replicate 32 \<lparr>ee_events = 0, ee_ptr = 0\<rparr>,
            ep_hmem = (\<lambda>h. \<lparr>eh_fd = 0, eh_events = 0\<rparr>), ep_klog = []\<rparr>"

definition kq_ex :: kq_poller where
  "kq_ex = \<lparr>kq = 5, kq_nevents = 0, kq_index = 0,
            kq_events = replicate 32 \<lparr>ke_ident = 0, ke_filter = 0, ke_flags = 0, ke_udata = None\<rparr>,
            kq_hmem = (\<lambda>h. \<lparr>kh_fd = 0, kh_events = 0\<rparr>), kq_klog = []\<rparr>"

definition pl_ex :: pl_poller where
  "pl_ex = \<lparr>pl_size = 0, pl_index = 0, pl_capacity = 16,
            pl_pollset = replicate 16 \<lparr>pf_fd = 0, pf_events = 0, pf_revents = 0\<rparr>,
            pl_hndls = replicate 16 \<lparr>hi_hndl = None, hi_prev = 0, hi_next = 0\<rparr>,
            pl_removed = - 1,
            pl_hmem = (\<lambda>h. 0), pl_klog = []\<rparr>"

section \<open>Creation and destruction\<close>

subsection \<open>\<^verbatim>\<open>nn_poller_init\<close>\<close>

text \<open>
  With \<^verbatim>\<open>EPOLL_CLOEXEC\<close>, and in the kqueue backend, a full descriptor table gives
  \<^verbatim>\<open>-EMFILE\<close>, any other failure aborts, and success leaves an empty buffer.
\<close>

lemma init_epoll_cloexec_cases:
  "nn_poller_init_epoll True created a s =
     (case created of
        KErr e \<Rightarrow> if e = ENFILE \<or> e = EMFILE
                  then Inr (RCneg EMFILE, s\<lparr>ep := - 1, ep_klog := ep_klog s @ [EpollCreate1]\<rparr>)
                  else Inl Abort
      | KOk fd \<Rightarrow> if fd = - 1 then Inl Abort
                  else Inr (RC0, s\<lparr>ep := fd, ep_klog := ep_klog s @ [EpollCreate1],
                                   ep_nevents := 0, ep_index := 0\<rparr>))"
  by (auto simp: nn_poller_init_epoll_def kres_value_def kres_errno_def Let_def split: kres.splits)

lemma init_kqueue_cases:
  "nn_poller_init_kqueue created s =
     (case created of
        KErr e \<Rightarrow> if e = ENFILE \<or> e = EMFILE
                  then Inr (RCneg EMFILE, s\<lparr>kq := - 1, kq_klog := kq_klog s @ [Kqueue]\<rparr>)
                  else Inl Abort
      | KOk fd \<Rightarrow> if fd = - 1 then Inl Abort
                  else Inr (RC0, s\<lparr>kq := fd, kq_klog := kq_klog s @ [Kqueue],
                                   kq_nevents := 0, kq_index := 0\<rparr>))"
  by (auto simp: nn_poller_init_kqueue_def kres_value_def kres_errno_def Let_def split: kres.splits)

text \<open>The poll backend has no descriptor of its own: it returns \<open>0\<close> or aborts.\<close>

lemma init_poll_cases:
  "nn_poller_init_poll m1 m2 s = Inr (rc, s') \<Longrightarrow>
     rc = RC0 \<and> pl_size s' = 0 \<and> pl_index s' = 0 \<and> pl_removed s' = - 1 \<and>
     m1 = Some (pl_pollset s') \<and> m2 = Some (pl_hndls s')"
  by (auto simp: nn_poller_init_poll_def Let_def split: option.splits)

text \<open>
  Claim C5: init returns the resource-exhaustion error exactly when the descriptor
  table is full. On the path compiled without \<^verbatim>\<open>EPOLL_CLOEXEC\<close> the code does not:
  when \<^verbatim>\<open>epoll_create\<close> fails with \<^verbatim>\<open>EMFILE\<close> it stores \<open>-1\<close>, \<^verbatim>\<open>fcntl\<close> on that
  descriptor fails with \<^verbatim>\<open>EBADF\<close>, and \<^verbatim>\<open>errno_assert (rc != -1)\<close> aborts before the
  test of \<^verbatim>\<open>errno\<close> for \<^verbatim>\<open>ENFILE\<close> and \<^verbatim>\<open>EMFILE\<close> is reached.
\<close>

theorem init_epoll_legacy_aborts_on_emfile:
  "nn_poller_init_epoll False (KErr EMFILE) (KErr EBADF) ep_ex = Inl Abort"
  by (simp add: nn_poller_init_epoll_def kres_value_def kres_errno_def Let_def)

subsection \<open>\<^verbatim>\<open>nn_poller_term\<close>\<close>



section \<open>What a buffer still holds\<close>

text \<open>
  The deliveries a buffer still holds are listed record by record, in the order of the
  array: \<open>ep_pending\<close>, \<open>kq_pending\<close> and \<open>pl_pending\<close> below. The lemmas
  \<open>ep_event_spec\<close>, \<open>kq_event_spec\<close> and \<open>pl_event_spec\<close> show that
  \<^verbatim>\<open>nn_poller_event\<close> returns the head of that list and leaves its tail, so that any
  number of calls returns a prefix of it.
\<close>

text \<open>The events that \<open>n\<close> calls return, without the \<^verbatim>\<open>-EAGAIN\<close> answers.\<close>

definition delivered :: "('s \<Rightarrow> fault + ('r option \<times> 's)) \<Rightarrow> nat \<Rightarrow> 's \<Rightarrow> 'r list" where
  "delivered ev n s =
     (case drains ev n s of
        Inl f \<Rightarrow> []
      | Inr (rs, s') \<Rightarrow> concat (map (\<lambda>r. case r of None \<Rightarrow> [] | Some x \<Rightarrow> [x]) rs))"

subsection \<open>The epoll backend\<close>

text \<open>The cursor and the count are within the array.\<close>

definition ep_wf :: "ep_poller \<Rightarrow> bool" where
  "ep_wf s \<longleftrightarrow> 0 \<le> ep_index s \<and> ep_index s \<le> ep_nevents s \<and> ep_nevents s \<le> int (length (ep_events s))"

text \<open>What one record still gives: IN, then OUT, then ERR when any other bit is set.\<close>

definition ep_pend1 :: "epoll_event \<Rightarrow> (kind \<times> hptr) list" where
  "ep_pend1 e =
     (if ee_events e AND EPOLLIN \<noteq> 0 then [(NN_POLLER_IN, ee_ptr e)] else []) @
     (if ee_events e AND EPOLLOUT \<noteq> 0 then [(NN_POLLER_OUT, ee_ptr e)] else []) @
     (if (ee_events e AND NOT EPOLLIN) AND NOT EPOLLOUT \<noteq> 0 then [(NN_POLLER_ERR, ee_ptr e)] else [])"

declare ep_skip.simps [simp del] ep_invalidate.simps [simp del]

text \<open>The records from the cursor to the count.\<close>

definition ep_live :: "ep_poller \<Rightarrow> epoll_event list" where
  "ep_live s = drop (nat (ep_index s)) (take (nat (ep_nevents s)) (ep_events s))"

definition ep_pending :: "ep_poller \<Rightarrow> (kind \<times> hptr) list" where
  "ep_pending s = concat (map ep_pend1 (ep_live s))"

lemma drains_pending:
  assumes step: "\<And>s. I s \<Longrightarrow> \<exists>s'. ev s = Inr (case pend s of [] \<Rightarrow> None | x # _ \<Rightarrow> Some x, s') \<and> I s' \<and> pend s' = tl (pend s)"
  shows "I s \<Longrightarrow> \<exists>s'. drains ev n s = Inr (map Some (take n (pend s)) @ replicate (n - length (pend s)) None, s') \<and> I s' \<and> pend s' = drop n (pend s)"
proof (induction n arbitrary: s)
  case 0
  then show ?case by simp
next
  case (Suc n)
  from step[OF Suc.prems] obtain s1 where
    e: "ev s = Inr (case pend s of [] \<Rightarrow> None | x # _ \<Rightarrow> Some x, s1)" and i1: "I s1" and p1: "pend s1 = tl (pend s)"
    by blast
  from Suc.IH[OF i1] obtain s2 where
    d: "drains ev n s1 = Inr (map Some (take n (pend s1)) @ replicate (n - length (pend s1)) None, s2)"
    and i2: "I s2" and p2: "pend s2 = drop n (pend s1)" by blast
  show ?case
  proof (cases "pend s")
    case Nil
    with e d i2 p1 p2 show ?thesis by (simp add: replicate_app_Cons_same)
  next
    case (Cons x xs)
    with e d i2 p1 p2 show ?thesis by simp
  qed
qed

lemma word_and_not_self: "(x AND NOT m) AND m = (0::32 word)"
  by (simp add: bit_eq_iff bit_simps)

lemma ep_in_out: "(x AND NOT EPOLLIN) AND EPOLLOUT = x AND EPOLLOUT"
  "(x AND NOT EPOLLOUT) AND EPOLLIN = x AND EPOLLIN"
proof -
  have a: "\<And>a b. (x AND NOT a) AND b = x AND (b AND NOT a)" for x :: "32 word"
    by (simp add: ac_simps)
  have c: "EPOLLOUT AND NOT EPOLLIN = EPOLLOUT" "EPOLLIN AND NOT EPOLLOUT = EPOLLIN"
    by (simp_all add: EPOLLIN_def EPOLLOUT_def)
  show "(x AND NOT EPOLLIN) AND EPOLLOUT = x AND EPOLLOUT"
  "(x AND NOT EPOLLOUT) AND EPOLLIN = x AND EPOLLIN"
    by (simp_all only: a c)
qed

lemma word_and_not_idem:
  "((x AND NOT a) AND NOT a) AND NOT b = (x AND NOT a) AND NOT (b :: 32 word)"
  "((x AND NOT b) AND NOT a) AND NOT b = (x AND NOT a) AND NOT (b :: 32 word)"
  by (simp_all add: ac_simps)

lemma word_and_not_id: "x AND a = 0 \<Longrightarrow> x AND NOT a = (x :: 32 word)"
  by (auto simp add: bit_eq_iff bit_simps)

lemma ep_skip_spec:
  "0 \<le> i \<Longrightarrow> i \<le> n \<Longrightarrow> n \<le> int (length evs) \<Longrightarrow>
   \<exists>j. ep_skip evs i n = Inr j \<and> i \<le> j \<and> j \<le> n \<and>
       (\<forall>k. i \<le> k \<and> k < j \<longrightarrow> ee_events (evs ! nat k) = 0) \<and>
       (j < n \<longrightarrow> ee_events (evs ! nat j) \<noteq> 0)"
proof (induction evs i n rule: ep_skip.induct)
  case (1 evs i n)
  show ?case
  proof (cases "i < n")
    case False
    with 1 show ?thesis by (subst ep_skip.simps) auto
  next
    case True
    show ?thesis
    proof (cases "ee_events (evs ! nat i) \<noteq> 0")
      case True
      with \<open>i < n\<close> 1 show ?thesis by (subst ep_skip.simps) auto
    next
      case False
      with \<open>i < n\<close> 1 have "\<exists>j. ep_skip evs (i+1) n = Inr j \<and> i+1 \<le> j \<and> j \<le> n \<and>
       (\<forall>k. i+1 \<le> k \<and> k < j \<longrightarrow> ee_events (evs ! nat k) = 0) \<and>
       (j < n \<longrightarrow> ee_events (evs ! nat j) \<noteq> 0)" by simp
      then obtain j where j: "ep_skip evs (i+1) n = Inr j" "i+1 \<le> j" "j \<le> n"
        "\<forall>k. i+1 \<le> k \<and> k < j \<longrightarrow> ee_events (evs ! nat k) = 0" "j < n \<longrightarrow> ee_events (evs ! nat j) \<noteq> 0" by blast
      have "\<forall>k. i \<le> k \<and> k < j \<longrightarrow> ee_events (evs ! nat k) = 0"
      proof (intro allI impI)
        fix k assume "i \<le> k \<and> k < j"
        then have "k = i \<or> i + 1 \<le> k \<and> k < j" by arith
        with False j(4) show "ee_events (evs ! nat k) = 0" by auto
      qed
      with j False \<open>i < n\<close> 1 show ?thesis by (subst ep_skip.simps) auto
    qed
  qed
qed



lemma ep_pend1_zero: "ee_events e = 0 \<Longrightarrow> ep_pend1 e = []"
  by (simp add: ep_pend1_def)

lemma ep_pend1_in:
  "ee_events e AND EPOLLIN \<noteq> 0 \<Longrightarrow>
   ep_pend1 e = (NN_POLLER_IN, ee_ptr e) # ep_pend1 (e\<lparr>ee_events := ee_events e AND NOT EPOLLIN\<rparr>)"
  by (simp add: ep_pend1_def ep_in_out word_and_not_self word_and_not_idem)

lemma ep_pend1_out:
  "ee_events e AND EPOLLIN = 0 \<Longrightarrow> ee_events e AND EPOLLOUT \<noteq> 0 \<Longrightarrow>
   ep_pend1 e = (NN_POLLER_OUT, ee_ptr e) # ep_pend1 (e\<lparr>ee_events := ee_events e AND NOT EPOLLOUT\<rparr>)"
  by (simp add: ep_pend1_def ep_in_out word_and_not_self word_and_not_idem)

lemma ep_pend1_err:
  "ee_events e AND EPOLLIN = 0 \<Longrightarrow> ee_events e AND EPOLLOUT = 0 \<Longrightarrow> ee_events e \<noteq> 0 \<Longrightarrow>
   ep_pend1 e = [(NN_POLLER_ERR, ee_ptr e)]"
  by (simp add: ep_pend1_def word_and_not_id)

lemma concat_drop_zero:
  "i \<le> j \<Longrightarrow> j \<le> length xs \<Longrightarrow> (\<forall>k. i \<le> k \<and> k < j \<longrightarrow> f (xs ! k) = []) \<Longrightarrow>
   concat (map f (drop i xs)) = concat (map f (drop j xs))"
proof (induction "j - i" arbitrary: i)
  case 0
  then show ?case by simp
next
  case (Suc d)
  then have l: "i < length xs" and z: "f (xs ! i) = []" by auto
  have "concat (map f (drop i xs)) = f (xs ! i) @ concat (map f (drop (Suc i) xs))"
    using l by (simp add: Cons_nth_drop_Suc[symmetric])
  also have "\<dots> = concat (map f (drop (Suc i) xs))" using z by simp
  also have "\<dots> = concat (map f (drop j xs))"
    using Suc by (intro Suc.hyps(1)) auto
  finally show ?case .
qed

lemma ep_event_spec:
  assumes wf: "ep_wf s"
  shows "\<exists>s'. nn_poller_event_epoll s = Inr (case ep_pending s of [] \<Rightarrow> None | x # _ \<Rightarrow> Some x, s')
           \<and> ep_wf s' \<and> ep_pending s' = tl (ep_pending s)
           \<and> ep_hmem s' = ep_hmem s \<and> ep_klog s' = ep_klog s \<and> ep_nevents s' = ep_nevents s
           \<and> ep s' = ep s"
proof -
  let ?i = "ep_index s" and ?n = "ep_nevents s" and ?evs = "ep_events s"
  from wf have b: "0 \<le> ?i" "?i \<le> ?n" "?n \<le> int (length ?evs)" by (auto simp: ep_wf_def)
  from ep_skip_spec[OF b] obtain j where
    j: "ep_skip ?evs ?i ?n = Inr j" "?i \<le> j" "j \<le> ?n"
       "\<forall>k. ?i \<le> k \<and> k < j \<longrightarrow> ee_events (?evs ! nat k) = 0"
       "j < ?n \<longrightarrow> ee_events (?evs ! nat j) \<noteq> 0" by blast
  let ?tk = "take (nat ?n) ?evs"
  have z: "\<forall>k. nat ?i \<le> k \<and> k < nat j \<longrightarrow> ep_pend1 (?tk ! k) = []"
  proof (intro allI impI)
    fix k assume k: "nat ?i \<le> k \<and> k < nat j"
    with j b have "ee_events (?evs ! nat (int k)) = 0" by (intro j(4)[rule_format]) auto
    moreover from k j b have "k < nat ?n" by linarith
    then have "?tk ! k = ?evs ! k" by simp
    ultimately show "ep_pend1 (?tk ! k) = []" by (simp add: ep_pend1_zero)
  qed
  have p: "ep_pending s = concat (map ep_pend1 (drop (nat j) ?tk))"
    unfolding ep_pending_def ep_live_def
    using j b z by (intro concat_drop_zero) auto
  have ev: "nn_poller_event_epoll s =
     (let self1 = s\<lparr>ep_index := j\<rparr>
           in if ep_nevents self1 \<le> j then Inr (None, self1)
              else
                (let e = ep_events self1 ! nat j; hndl = ee_ptr e
                 in if ee_events e AND EPOLLIN \<noteq> 0 then
                      Inr (Some (NN_POLLER_IN, hndl),
                           self1\<lparr>ep_events := (ep_events self1)
                              [nat j := e\<lparr>ee_events := ee_events e AND NOT EPOLLIN\<rparr>]\<rparr>)
                    else if ee_events e AND EPOLLOUT \<noteq> 0 then
                      Inr (Some (NN_POLLER_OUT, hndl),
                           self1\<lparr>ep_events := (ep_events self1)
                              [nat j := e\<lparr>ee_events := ee_events e AND NOT EPOLLOUT\<rparr>]\<rparr>)
                    else Inr (Some (NN_POLLER_ERR, hndl), self1\<lparr>ep_index := j + 1\<rparr>)))"
    by (simp add: nn_poller_event_epoll_def j(1))
  show ?thesis
  proof (cases "j < ?n")
    case False
    with j have jn: "j = ?n" by simp
    let ?s' = "s\<lparr>ep_index := j\<rparr>"
    have pe: "ep_pending s = []" using p jn by simp
    have "nn_poller_event_epoll s = Inr (None, ?s')" using ev jn by simp
    moreover have "ep_pending ?s' = []" using jn by (simp add: ep_pending_def ep_live_def)
    moreover have "ep_wf ?s'" using jn b by (simp add: ep_wf_def)
    ultimately show ?thesis using pe by simp
  next
    case True
    let ?e = "?evs ! nat j"
    from True j b have jl: "nat j < length ?tk" by simp
    have tke: "?tk ! nat j = ?e" using True j b by simp
    have d: "drop (nat j) ?tk = ?e # drop (Suc (nat j)) ?tk"
      using jl tke by (simp add: Cons_nth_drop_Suc[symmetric])
    have sj: "Suc (nat j) = nat (j + 1)" using j b by simp
    from True j have nz: "ee_events ?e \<noteq> 0" by simp
    let ?rest = "concat (map ep_pend1 (drop (Suc (nat j)) ?tk))"
    have pe: "ep_pending s = ep_pend1 ?e @ ?rest" using p d by simp
    have upd: "ep_pending (s\<lparr>ep_index := j, ep_events := ?evs[nat j := e']\<rparr>) = ep_pend1 e' @ ?rest" for e'
    proof -
      have "nat j < length (take (nat ?n) (?evs[nat j := e']))" using jl by simp
      then have "drop (nat j) (take (nat ?n) (?evs[nat j := e'])) =
         (take (nat ?n) (?evs[nat j := e'])) ! nat j # drop (Suc (nat j)) (take (nat ?n) (?evs[nat j := e']))"
        by (simp add: Cons_nth_drop_Suc[symmetric])
      moreover have "(take (nat ?n) (?evs[nat j := e'])) ! nat j = e'" using jl by simp
      moreover have "drop (Suc (nat j)) (take (nat ?n) (?evs[nat j := e'])) = drop (Suc (nat j)) ?tk"
        by (simp add: take_update_swap)
      ultimately show ?thesis by (simp add: ep_pending_def ep_live_def)
    qed
    have wfu: "ep_wf (s\<lparr>ep_index := j, ep_events := ?evs[nat j := e']\<rparr>)" for e'
      using j b by (simp add: ep_wf_def)
    show ?thesis
    proof (cases "ee_events ?e AND EPOLLIN \<noteq> 0")
      case In: True
      let ?e' = "?e\<lparr>ee_events := ee_events ?e AND NOT EPOLLIN\<rparr>"
      let ?s' = "s\<lparr>ep_index := j, ep_events := ?evs[nat j := ?e']\<rparr>"
      have "nn_poller_event_epoll s = Inr (Some (NN_POLLER_IN, ee_ptr ?e), ?s')"
        using ev True In by (simp add: Let_def)
      moreover have "ep_pending s = (NN_POLLER_IN, ee_ptr ?e) # ep_pending ?s'"
        using pe upd[of ?e'] ep_pend1_in[OF In] by simp
      ultimately show ?thesis using wfu[of ?e'] by simp
    next
      case NoIn: False
      show ?thesis
      proof (cases "ee_events ?e AND EPOLLOUT \<noteq> 0")
        case Out: True
        let ?e' = "?e\<lparr>ee_events := ee_events ?e AND NOT EPOLLOUT\<rparr>"
        let ?s' = "s\<lparr>ep_index := j, ep_events := ?evs[nat j := ?e']\<rparr>"
        have "nn_poller_event_epoll s = Inr (Some (NN_POLLER_OUT, ee_ptr ?e), ?s')"
          using ev True NoIn Out by (simp add: Let_def)
        moreover have "ep_pending s = (NN_POLLER_OUT, ee_ptr ?e) # ep_pending ?s'"
          using pe upd[of ?e'] ep_pend1_out[OF _ Out] NoIn by simp
        ultimately show ?thesis using wfu[of ?e'] by simp
      next
        case NoOut: False
        let ?s' = "s\<lparr>ep_index := j + 1\<rparr>"
        have "nn_poller_event_epoll s = Inr (Some (NN_POLLER_ERR, ee_ptr ?e), ?s')"
          using ev True NoIn NoOut by (simp add: Let_def)
        moreover have "ep_pending s = (NN_POLLER_ERR, ee_ptr ?e) # ep_pending ?s'"
          using pe ep_pend1_err[OF _ _ nz] NoIn NoOut sj by (simp add: ep_pending_def ep_live_def)
        moreover have "ep_wf ?s'" using True j b by (simp add: ep_wf_def)
        ultimately show ?thesis by simp
      qed
    qed
  qed
qed


lemma delivered_pending:
  assumes step: "\<And>s. I s \<Longrightarrow> \<exists>s'. ev s = Inr (case pend s of [] \<Rightarrow> None | x # _ \<Rightarrow> Some x, s') \<and> I s' \<and> pend s' = tl (pend s)"
    and "I s"
  shows "(\<exists>rs s'. drains ev n s = Inr (rs, s') \<and> I s') \<and> delivered ev n s = take n (pend s)"
proof -
  from drains_pending[of I ev pend s n, OF step \<open>I s\<close>] obtain s' where
    d: "drains ev n s = Inr (map Some (take n (pend s)) @ replicate (n - length (pend s)) None, s')"
    and i: "I s'" by blast
  have "concat (map (\<lambda>r. case r of None \<Rightarrow> [] | Some x \<Rightarrow> [x]) (map Some xs @ replicate k None)) = xs" for xs :: "'c list" and k
    by (induction xs) (simp_all)
  with d i show ?thesis by (simp add: delivered_def)
qed

text \<open>What the loop of \<open>ep_invalidate\<close> does to one record.\<close>

definition ep_inv1 :: "(32 word \<Rightarrow> 32 word) \<Rightarrow> hptr \<Rightarrow> epoll_event \<Rightarrow> epoll_event" where
  "ep_inv1 f h e = (if ee_ptr e = h then e\<lparr>ee_events := f (ee_events e)\<rparr> else e)"

lemma ep_invalidate_spec:
  "0 \<le> i \<Longrightarrow> i \<le> n \<Longrightarrow> n \<le> int (length evs) \<Longrightarrow>
   ep_invalidate f h i n evs =
     Inr (take (nat i) evs @ map (ep_inv1 f h) (drop (nat i) (take (nat n) evs)) @ drop (nat n) evs)"
proof (induction f h i n evs rule: ep_invalidate.induct)
  case (1 f h i n evs)
  show ?case
  proof (cases "i = n")
    case True
    then show ?thesis by (subst ep_invalidate.simps) simp
  next
    case False
    with 1 have lt: "i < n" "nat i < length evs" "nat i < nat n" by auto
    let ?g = "ep_inv1 f h"
    let ?evs' = "evs[nat i := ?g (evs ! nat i)]"
    have e': "(if ee_ptr (evs ! nat i) = h
              then evs[nat i := (evs ! nat i)\<lparr>ee_events := f (ee_events (evs ! nat i))\<rparr>]
              else evs) = ?evs'"
      by (simp add: ep_inv1_def)
    have sn: "nat (i + 1) = Suc (nat i)" using 1 by simp
    have "ep_invalidate f h i n evs = ep_invalidate f h (i + 1) n ?evs'"
      using lt 1 False by (subst ep_invalidate.simps) (simp only: e', simp)
    also have "\<dots> = Inr (take (nat (i + 1)) ?evs' @ map ?g (drop (nat (i + 1)) (take (nat n) ?evs')) @ drop (nat n) ?evs')"
      using "1.IH"[OF False] lt 1 False unfolding e' by simp
    also have "take (nat (i + 1)) ?evs' = take (nat i) evs @ [?g (evs ! nat i)]"
      using lt by (simp add: sn take_Suc_conv_app_nth)
    also have "drop (nat (i + 1)) (take (nat n) ?evs') = drop (Suc (nat i)) (take (nat n) evs)"
      by (simp add: sn take_update_swap)
    also have "drop (nat n) ?evs' = drop (nat n) evs" using lt by simp
    also have "(take (nat i) evs @ [?g (evs ! nat i)]) @ map ?g (drop (Suc (nat i)) (take (nat n) evs)) @ drop (nat n) evs
       = take (nat i) evs @ map ?g (drop (nat i) (take (nat n) evs)) @ drop (nat n) evs"
    proof -
      have "drop (nat i) (take (nat n) evs) = evs ! nat i # drop (Suc (nat i)) (take (nat n) evs)"
        using lt by (simp add: Cons_nth_drop_Suc[symmetric])
      then show ?thesis by simp
    qed
    finally show ?thesis .
  qed
qed

lemma live_after_invalidate:
  "i \<le> n \<Longrightarrow> n \<le> length evs \<Longrightarrow>
   drop i (take n (take i evs @ map g (drop i (take n evs)) @ drop n evs)) = map g (drop i (take n evs))"
  by (simp add: min_def)

lemma ep_pend1_inv_rm: "ep_pend1 (ep_inv1 (\<lambda>m. 0) h e) = filter (\<lambda>x. snd x \<noteq> h) (ep_pend1 e)"
  by (simp add: ep_pend1_def ep_inv1_def)

lemma ep_pend1_inv_in:
  "ep_pend1 (ep_inv1 (\<lambda>m. m AND NOT EPOLLIN) h e) = filter (\<lambda>x. x \<noteq> (NN_POLLER_IN, h)) (ep_pend1 e)"
  by (simp add: ep_pend1_def ep_inv1_def ep_in_out word_and_not_self word_and_not_idem)

lemma ep_pend1_inv_out:
  "ep_pend1 (ep_inv1 (\<lambda>m. m AND NOT EPOLLOUT) h e) = filter (\<lambda>x. x \<noteq> (NN_POLLER_OUT, h)) (ep_pend1 e)"
  by (simp add: ep_pend1_def ep_inv1_def ep_in_out word_and_not_self word_and_not_idem)

lemma ep_rm_spec:
  assumes "ep_wf s"
  shows "\<exists>s1. nn_poller_rm_epoll s h = Inr s1 \<and> ep_wf s1 \<and>
           ep_pending s1 = filter (\<lambda>x. snd x \<noteq> h) (ep_pending s) \<and>
           ep_live s1 = map (ep_inv1 (\<lambda>m. 0) h) (ep_live s) \<and>
           ep_hmem s1 = ep_hmem s \<and>
           ep_klog s1 = ep_klog s @ [EpollCtlDel (eh_fd (ep_hmem s h))]"
proof -
  from assms have b: "0 \<le> ep_index s" "ep_index s \<le> ep_nevents s" "ep_nevents s \<le> int (length (ep_events s))"
    by (auto simp: ep_wf_def)
  then have b': "nat (ep_index s) \<le> nat (ep_nevents s)" "nat (ep_nevents s) \<le> length (ep_events s)" by auto
  show ?thesis
    using b
    by (simp add: nn_poller_rm_epoll_def Let_def ep_invalidate_spec[OF b] ep_wf_def ep_pending_def ep_live_def
        live_after_invalidate[OF b'] ep_pend1_inv_rm filter_concat comp_def)
qed


text \<open>
  The operating system reports read and write readiness only where it was asked for:
  a record with the IN (OUT) bit names a handle whose mask has that bit.
\<close>

definition ep_honours :: "(hptr \<Rightarrow> ep_hndl) \<Rightarrow> epoll_event list \<Rightarrow> bool" where
  "ep_honours hm evs \<longleftrightarrow>
     (\<forall>e \<in> set evs.
        (ee_events e AND EPOLLIN \<noteq> 0 \<longrightarrow> eh_events (hm (ee_ptr e)) AND EPOLLIN \<noteq> 0) \<and>
        (ee_events e AND EPOLLOUT \<noteq> 0 \<longrightarrow> eh_events (hm (ee_ptr e)) AND EPOLLOUT \<noteq> 0))"

definition ep_consistent :: "ep_poller \<Rightarrow> bool" where
  "ep_consistent s \<longleftrightarrow> ep_honours (ep_hmem s) (ep_live s)"

lemma ep_pending_in:
  "(NN_POLLER_IN, h) \<in> set (ep_pending s) \<longleftrightarrow>
     (\<exists>e \<in> set (ep_live s). ee_ptr e = h \<and> ee_events e AND EPOLLIN \<noteq> 0)"
  by (auto simp: ep_pending_def ep_pend1_def split: if_splits)

lemma ep_pending_out:
  "(NN_POLLER_OUT, h) \<in> set (ep_pending s) \<longleftrightarrow>
     (\<exists>e \<in> set (ep_live s). ee_ptr e = h \<and> ee_events e AND EPOLLOUT \<noteq> 0)"
  by (auto simp: ep_pending_def ep_pend1_def split: if_splits)

lemma ep_consistent_no_in:
  "ep_consistent s \<Longrightarrow> eh_events (ep_hmem s h) AND EPOLLIN = 0 \<Longrightarrow>
   (NN_POLLER_IN, h) \<notin> set (ep_pending s)"
  by (auto simp: ep_pending_in ep_consistent_def ep_honours_def)

lemma ep_consistent_no_out:
  "ep_consistent s \<Longrightarrow> eh_events (ep_hmem s h) AND EPOLLOUT = 0 \<Longrightarrow>
   (NN_POLLER_OUT, h) \<notin> set (ep_pending s)"
  by (auto simp: ep_pending_out ep_consistent_def ep_honours_def)

lemma filter_id_notin: "x \<notin> set xs \<Longrightarrow> filter (\<lambda>y. y \<noteq> x) xs = xs"
  by (induction xs) auto

lemma ep_reset_in_spec:
  assumes "ep_wf s" and "ep_consistent s"
  shows "\<exists>s1. nn_poller_reset_in_epoll s h = Inr s1 \<and> ep_wf s1 \<and>
           ep_pending s1 = filter (\<lambda>x. x \<noteq> (NN_POLLER_IN, h)) (ep_pending s)"
proof (cases "eh_events (ep_hmem s h) AND EPOLLIN \<noteq> 0")
  case False
  then have "nn_poller_reset_in_epoll s h = Inr s" by (simp add: nn_poller_reset_in_epoll_def)
  moreover have "filter (\<lambda>x. x \<noteq> (NN_POLLER_IN, h)) (ep_pending s) = ep_pending s"
    using ep_consistent_no_in[OF assms(2)] False by (intro filter_id_notin) simp
  ultimately show ?thesis using assms by simp
next
  case True
  from assms have b: "0 \<le> ep_index s" "ep_index s \<le> ep_nevents s" "ep_nevents s \<le> int (length (ep_events s))"
    by (auto simp: ep_wf_def)
  then have b': "nat (ep_index s) \<le> nat (ep_nevents s)" "nat (ep_nevents s) \<le> length (ep_events s)" by auto
  show ?thesis
    using b True
    by (simp add: nn_poller_reset_in_epoll_def Let_def ep_invalidate_spec[OF b] ep_wf_def ep_pending_def ep_live_def
        live_after_invalidate[OF b'] ep_pend1_inv_in filter_concat comp_def)
qed

lemma ep_reset_out_spec:
  assumes "ep_wf s" and "ep_consistent s"
  shows "\<exists>s1. nn_poller_reset_out_epoll s h = Inr s1 \<and> ep_wf s1 \<and>
           ep_pending s1 = filter (\<lambda>x. x \<noteq> (NN_POLLER_OUT, h)) (ep_pending s)"
proof (cases "eh_events (ep_hmem s h) AND EPOLLOUT \<noteq> 0")
  case False
  then have "nn_poller_reset_out_epoll s h = Inr s" by (simp add: nn_poller_reset_out_epoll_def)
  moreover have "filter (\<lambda>x. x \<noteq> (NN_POLLER_OUT, h)) (ep_pending s) = ep_pending s"
    using ep_consistent_no_out[OF assms(2)] False by (intro filter_id_notin) simp
  ultimately show ?thesis using assms by simp
next
  case True
  from assms have b: "0 \<le> ep_index s" "ep_index s \<le> ep_nevents s" "ep_nevents s \<le> int (length (ep_events s))"
    by (auto simp: ep_wf_def)
  then have b': "nat (ep_index s) \<le> nat (ep_nevents s)" "nat (ep_nevents s) \<le> length (ep_events s)" by auto
  show ?thesis
    using b True
    by (simp add: nn_poller_reset_out_epoll_def Let_def ep_invalidate_spec[OF b] ep_wf_def ep_pending_def ep_live_def
        live_after_invalidate[OF b'] ep_pend1_inv_out filter_concat comp_def)
qed

lemma ep_wait_ok:
  "\<exists>s'. nn_poller_wait_epoll s t (KOk batch # rest) = Inr (RC0, s') \<and> ep_wf s' \<and>
     ep_live s' = take (nat NN_POLLER_MAX_EVENTS) batch \<and> ep_index s' = 0 \<and>
     ep_nevents s' = int (length (take (nat NN_POLLER_MAX_EVENTS) batch)) \<and>
     ep_hmem s' = ep_hmem s \<and> ep_klog s' = ep_klog s @ [EpollWait NN_POLLER_MAX_EVENTS t]"
  by (simp add: nn_poller_wait_epoll_def Let_def ep_wf_def ep_live_def min_def)

subsection \<open>The kqueue backend\<close>

text \<open>A record that \<^verbatim>\<open>nn_poller_event\<close> can classify: end of file, or one of the two filters the
  poller registers.\<close>

definition kq_known :: "kevent \<Rightarrow> bool" where
  "kq_known e \<longleftrightarrow> ke_flags e AND EV_EOF \<noteq> 0 \<or> ke_filter e = EVFILT_WRITE \<or> ke_filter e = EVFILT_READ"

definition kq_live :: "kq_poller \<Rightarrow> kevent list" where
  "kq_live s = drop (nat (kq_index s)) (take (nat (kq_nevents s)) (kq_events s))"

definition kq_wf :: "kq_poller \<Rightarrow> bool" where
  "kq_wf s \<longleftrightarrow> 0 \<le> kq_index s \<and> kq_index s \<le> kq_nevents s \<and> kq_nevents s \<le> int (length (kq_events s))
     \<and> (\<forall>e \<in> set (kq_live s). kq_known e)"

definition kq_kind :: "kevent \<Rightarrow> kind" where
  "kq_kind e = (if ke_flags e AND EV_EOF \<noteq> 0 then NN_POLLER_ERR
                else if ke_filter e = EVFILT_WRITE then NN_POLLER_OUT else NN_POLLER_IN)"

definition kq_pend1 :: "kevent \<Rightarrow> (kind \<times> hptr option) list" where
  "kq_pend1 e = (case ke_udata e of None \<Rightarrow> [] | Some g \<Rightarrow> [(kq_kind e, Some g)])"

definition kq_pending :: "kq_poller \<Rightarrow> (kind \<times> hptr option) list" where
  "kq_pending s = concat (map kq_pend1 (kq_live s))"

declare kq_skip.simps [simp del] kq_invalidate.simps [simp del]

lemma kq_skip_spec:
  "0 \<le> i \<Longrightarrow> i \<le> n \<Longrightarrow> n \<le> int (length evs) \<Longrightarrow>
   \<exists>j. kq_skip evs i n = Inr j \<and> i \<le> j \<and> j \<le> n \<and>
       (\<forall>k. i \<le> k \<and> k < j \<longrightarrow> ke_udata (evs ! nat k) = None) \<and>
       (j < n \<longrightarrow> ke_udata (evs ! nat j) \<noteq> None)"
proof (induction evs i n rule: kq_skip.induct)
  case (1 evs i n)
  show ?case
  proof (cases "i < n")
    case False
    with 1 show ?thesis by (subst kq_skip.simps) auto
  next
    case True
    show ?thesis
    proof (cases "ke_udata (evs ! nat i) \<noteq> None")
      case True
      with \<open>i < n\<close> 1 show ?thesis by (subst kq_skip.simps) auto
    next
      case False
      with \<open>i < n\<close> 1 have "\<exists>j. kq_skip evs (i+1) n = Inr j \<and> i+1 \<le> j \<and> j \<le> n \<and>
       (\<forall>k. i+1 \<le> k \<and> k < j \<longrightarrow> ke_udata (evs ! nat k) = None) \<and>
       (j < n \<longrightarrow> ke_udata (evs ! nat j) \<noteq> None)" by simp
      then obtain j where j: "kq_skip evs (i+1) n = Inr j" "i+1 \<le> j" "j \<le> n"
        "\<forall>k. i+1 \<le> k \<and> k < j \<longrightarrow> ke_udata (evs ! nat k) = None" "j < n \<longrightarrow> ke_udata (evs ! nat j) \<noteq> None" by blast
      have "\<forall>k. i \<le> k \<and> k < j \<longrightarrow> ke_udata (evs ! nat k) = None"
      proof (intro allI impI)
        fix k assume "i \<le> k \<and> k < j"
        then have "k = i \<or> i + 1 \<le> k \<and> k < j" by arith
        with False j(4) show "ke_udata (evs ! nat k) = None" by auto
      qed
      with j False \<open>i < n\<close> 1 show ?thesis by (subst kq_skip.simps) auto
    qed
  qed
qed

lemma kq_event_spec:
  assumes wf: "kq_wf s"
  shows "\<exists>s'. nn_poller_event_kqueue s = Inr (case kq_pending s of [] \<Rightarrow> None | x # _ \<Rightarrow> Some x, s')
           \<and> kq_wf s' \<and> kq_pending s' = tl (kq_pending s)
           \<and> kq_hmem s' = kq_hmem s \<and> kq_klog s' = kq_klog s \<and> kq_nevents s' = kq_nevents s
           \<and> kq_events s' = kq_events s"
proof -
  let ?i = "kq_index s" and ?n = "kq_nevents s" and ?evs = "kq_events s"
  from wf have b: "0 \<le> ?i" "?i \<le> ?n" "?n \<le> int (length ?evs)" by (auto simp: kq_wf_def)
  from wf have kn: "\<forall>e \<in> set (kq_live s). kq_known e" by (auto simp: kq_wf_def)
  from kq_skip_spec[OF b] obtain j where
    j: "kq_skip ?evs ?i ?n = Inr j" "?i \<le> j" "j \<le> ?n"
       "\<forall>k. ?i \<le> k \<and> k < j \<longrightarrow> ke_udata (?evs ! nat k) = None"
       "j < ?n \<longrightarrow> ke_udata (?evs ! nat j) \<noteq> None" by blast
  let ?tk = "take (nat ?n) ?evs"
  have z: "\<forall>k. nat ?i \<le> k \<and> k < nat j \<longrightarrow> kq_pend1 (?tk ! k) = []"
  proof (intro allI impI)
    fix k assume k: "nat ?i \<le> k \<and> k < nat j"
    with j b have "ke_udata (?evs ! nat (int k)) = None" by (intro j(4)[rule_format]) auto
    moreover from k j b have "k < nat ?n" by linarith
    then have "?tk ! k = ?evs ! k" by simp
    ultimately show "kq_pend1 (?tk ! k) = []" by (simp add: kq_pend1_def)
  qed
  have p: "kq_pending s = concat (map kq_pend1 (drop (nat j) ?tk))"
    unfolding kq_pending_def kq_live_def
    using j b z by (intro concat_drop_zero) auto
  have ev: "nn_poller_event_kqueue s =
     (let self1 = s\<lparr>kq_index := j\<rparr>
           in if kq_nevents self1 \<le> j then Inr (None, self1)
              else
                (let e = kq_events self1 ! nat j; hndl = ke_udata e
                 in if ke_flags e AND EV_EOF \<noteq> 0 then
                      Inr (Some (NN_POLLER_ERR, hndl), self1\<lparr>kq_index := j + 1\<rparr>)
                    else if ke_filter e = EVFILT_WRITE then
                      Inr (Some (NN_POLLER_OUT, hndl), self1\<lparr>kq_index := j + 1\<rparr>)
                    else if ke_filter e = EVFILT_READ then
                      Inr (Some (NN_POLLER_IN, hndl), self1\<lparr>kq_index := j + 1\<rparr>)
                    else Inl Abort))"
    by (simp add: nn_poller_event_kqueue_def j(1))
  have sub: "set (drop (nat k) ?tk) \<subseteq> set (kq_live s)" if "?i \<le> k" for k
  proof -
    have "drop (nat k) ?tk = drop (nat k - nat ?i) (drop (nat ?i) ?tk)" using that b by simp
    then show ?thesis unfolding kq_live_def by (metis set_drop_subset)
  qed
  show ?thesis
  proof (cases "j < ?n")
    case False
    with j have jn: "j = ?n" by simp
    let ?s' = "s\<lparr>kq_index := j\<rparr>"
    have pe: "kq_pending s = []" using p jn by simp
    have "nn_poller_event_kqueue s = Inr (None, ?s')" using ev jn by simp
    moreover have "kq_pending ?s' = []" using jn by (simp add: kq_pending_def kq_live_def)
    moreover have "kq_wf ?s'" using jn b by (simp add: kq_wf_def kq_live_def)
    ultimately show ?thesis using pe by simp
  next
    case True
    let ?e = "?evs ! nat j"
    from True j b have jl: "nat j < length ?tk" by simp
    have tke: "?tk ! nat j = ?e" using True j b by simp
    have d: "drop (nat j) ?tk = ?e # drop (Suc (nat j)) ?tk"
      using jl tke by (simp add: Cons_nth_drop_Suc[symmetric])
    have sj: "Suc (nat j) = nat (j + 1)" using j b by simp
    from True j obtain g where g: "ke_udata ?e = Some g" by auto
    have "?e \<in> set (kq_live s)" using sub[OF j(2)] d by auto
    with kn have known: "kq_known ?e" by simp
    let ?s' = "s\<lparr>kq_index := j + 1\<rparr>"
    have pe: "kq_pending s = (kq_kind ?e, Some g) # kq_pending ?s'"
      using p d g sj by (simp add: kq_pending_def kq_live_def kq_pend1_def)
    have "kq_live ?s' = drop (nat (j + 1)) ?tk" by (simp add: kq_live_def)
    with sub[of "j + 1"] j have "set (kq_live ?s') \<subseteq> set (kq_live s)" by simp
    with kn True j b have wf': "kq_wf ?s'" by (auto simp add: kq_wf_def)
    have "nn_poller_event_kqueue s = Inr (Some (kq_kind ?e, Some g), ?s')"
      using ev True known g by (auto simp add: Let_def kq_kind_def kq_known_def)
    with pe wf' show ?thesis by simp
  qed
qed

text \<open>What the loop of \<open>kq_invalidate\<close> does to one record.\<close>

definition kq_inv1 :: "(kevent \<Rightarrow> bool) \<Rightarrow> kevent \<Rightarrow> kevent" where
  "kq_inv1 P e = (if P e then e\<lparr>ke_udata := None\<rparr> else e)"

lemma kq_invalidate_spec:
  "0 \<le> i \<Longrightarrow> i \<le> n \<Longrightarrow> n \<le> int (length evs) \<Longrightarrow>
   kq_invalidate P i n evs =
     Inr (take (nat i) evs @ map (kq_inv1 P) (drop (nat i) (take (nat n) evs)) @ drop (nat n) evs)"
proof (induction P i n evs rule: kq_invalidate.induct)
  case (1 P i n evs)
  show ?case
  proof (cases "i = n")
    case True
    then show ?thesis by (subst kq_invalidate.simps) simp
  next
    case False
    with 1 have lt: "i < n" "nat i < length evs" "nat i < nat n" by auto
    let ?g = "kq_inv1 P"
    let ?evs' = "evs[nat i := ?g (evs ! nat i)]"
    have e': "(if P (evs ! nat i)
              then evs[nat i := (evs ! nat i)\<lparr>ke_udata := None\<rparr>]
              else evs) = ?evs'"
      by (simp add: kq_inv1_def)
    have sn: "nat (i + 1) = Suc (nat i)" using 1 by simp
    have "kq_invalidate P i n evs = kq_invalidate P (i + 1) n ?evs'"
      using lt 1 False by (subst kq_invalidate.simps) (simp only: e', simp)
    also have "\<dots> = Inr (take (nat (i + 1)) ?evs' @ map ?g (drop (nat (i + 1)) (take (nat n) ?evs')) @ drop (nat n) ?evs')"
      using "1.IH"[OF False] lt 1 False unfolding e' by simp
    also have "take (nat (i + 1)) ?evs' = take (nat i) evs @ [?g (evs ! nat i)]"
      using lt by (simp add: sn take_Suc_conv_app_nth)
    also have "drop (nat (i + 1)) (take (nat n) ?evs') = drop (Suc (nat i)) (take (nat n) evs)"
      by (simp add: sn take_update_swap)
    also have "drop (nat n) ?evs' = drop (nat n) evs" using lt by simp
    also have "(take (nat i) evs @ [?g (evs ! nat i)]) @ map ?g (drop (Suc (nat i)) (take (nat n) evs)) @ drop (nat n) evs
       = take (nat i) evs @ map ?g (drop (nat i) (take (nat n) evs)) @ drop (nat n) evs"
    proof -
      have "drop (nat i) (take (nat n) evs) = evs ! nat i # drop (Suc (nat i)) (take (nat n) evs)"
        using lt by (simp add: Cons_nth_drop_Suc[symmetric])
      then show ?thesis by simp
    qed
    finally show ?thesis .
  qed
qed



lemma kq_known_inv1: "kq_known (kq_inv1 P e) = kq_known e"
  by (simp add: kq_known_def kq_inv1_def)


lemma kq_scrub_state:
  assumes "kq_wf s"
    and "kq_index s' = kq_index s" "kq_nevents s' = kq_nevents s" "kq_events s' = kq_events s"
  shows "\<exists>s1. (case kq_invalidate P (kq_index s') (kq_nevents s') (kq_events s') of
                 Inl f \<Rightarrow> Inl f | Inr evs \<Rightarrow> Inr (s'\<lparr>kq_events := evs\<rparr>)) = Inr s1 \<and>
           kq_wf s1 \<and> kq_live s1 = map (kq_inv1 P) (kq_live s) \<and>
           kq_hmem s1 = kq_hmem s' \<and> kq_klog s1 = kq_klog s' \<and> kq s1 = kq s' \<and>
           kq_index s1 = kq_index s \<and> kq_nevents s1 = kq_nevents s"
proof -
  from assms have b: "0 \<le> kq_index s" "kq_index s \<le> kq_nevents s" "kq_nevents s \<le> int (length (kq_events s))"
    and kn: "\<forall>e \<in> set (kq_live s). kq_known e"
    by (auto simp: kq_wf_def)
  then have b': "nat (kq_index s) \<le> nat (kq_nevents s)" "nat (kq_nevents s) \<le> length (kq_events s)" by auto
  let ?s1 = "s'\<lparr>kq_events := take (nat (kq_index s)) (kq_events s) @
      map (kq_inv1 P) (drop (nat (kq_index s)) (take (nat (kq_nevents s)) (kq_events s))) @
      drop (nat (kq_nevents s)) (kq_events s)\<rparr>"
  have f1: "kq_events ?s1 = take (nat (kq_index s)) (kq_events s) @
      map (kq_inv1 P) (drop (nat (kq_index s)) (take (nat (kq_nevents s)) (kq_events s))) @
      drop (nat (kq_nevents s)) (kq_events s)" "kq_index ?s1 = kq_index s" "kq_nevents ?s1 = kq_nevents s"
    using assms(2-4) by simp_all
  have l: "kq_live ?s1 = map (kq_inv1 P) (kq_live s)"
    unfolding kq_live_def f1 by (rule live_after_invalidate[OF b'])
  have "kq_wf ?s1"
    unfolding kq_wf_def l using b kn assms(2-4) by (auto simp: kq_known_inv1)
  then show ?thesis
    using l assms(2-4) by (simp add: kq_invalidate_spec[OF b])
qed


text \<open>
  The operating system reports a record under the descriptor it was registered for:
  a record that names a handle has the descriptor of that handle as its identifier.
\<close>

definition kq_idents :: "kq_poller \<Rightarrow> bool" where
  "kq_idents s \<longleftrightarrow>
     (\<forall>e \<in> set (kq_live s). \<forall>g. ke_udata e = Some g \<longrightarrow> ke_ident e = unsigned_of (kh_fd (kq_hmem s g)))"


lemma kq_rm_spec:
  assumes "kq_wf s"
  shows "\<exists>s1. nn_poller_rm_kqueue s h = Inr s1 \<and> kq_wf s1 \<and>
           kq_live s1 = map (kq_inv1 (\<lambda>e. ke_ident e = unsigned_of (kh_fd (kq_hmem s h)))) (kq_live s) \<and>
           kq_hmem s1 = kq_hmem s"
proof -
  let ?h = "kq_hmem s h"
  let ?s1 = "(if kh_events ?h AND NN_POLLER_EVENT_IN \<noteq> 0
                   then s\<lparr>kq_klog := kq_klog s @ [KeventDelete (kh_fd ?h) EVFILT_READ]\<rparr>
                   else s)"
  let ?s2 = "(if kh_events ?h AND NN_POLLER_EVENT_OUT \<noteq> 0
                   then ?s1\<lparr>kq_klog := kq_klog ?s1 @ [KeventDelete (kh_fd ?h) EVFILT_WRITE]\<rparr>
                   else ?s1)"
  have eqs: "kq_index ?s2 = kq_index s" "kq_nevents ?s2 = kq_nevents s" "kq_events ?s2 = kq_events s"
    "kq_hmem ?s2 = kq_hmem s" by simp_all
  from kq_scrub_state[OF assms eqs(1-3), of "\<lambda>e. ke_ident e = unsigned_of (kh_fd ?h)"] eqs(4)
  show ?thesis unfolding nn_poller_rm_kqueue_def Let_def by metis
qed


lemma kq_pending_after_rm:
  assumes "kq_idents s"
    and "kq_live s1 = map (kq_inv1 (\<lambda>e. ke_ident e = unsigned_of (kh_fd (kq_hmem s h)))) (kq_live s)"
  shows "\<forall>x \<in> set (kq_pending s1). snd x \<noteq> Some h"
  using assms by (auto simp: kq_pending_def kq_pend1_def kq_inv1_def kq_idents_def split: option.splits if_splits)


lemma kq_reset_in_spec:
  assumes "kq_wf s"
  shows "\<exists>s1. nn_poller_reset_in_kqueue s h = Inr s1 \<and> kq_wf s1 \<and>
           kq_live s1 = map (kq_inv1 (\<lambda>e. ke_ident e = unsigned_of (kh_fd (kq_hmem s h)) \<and>
                                        ke_filter e = EVFILT_READ)) (kq_live s) \<and>
           kq_index s1 = kq_index s \<and> kq_nevents s1 = kq_nevents s"
proof -
  let ?h = "kq_hmem s h"
  let ?s1 = "(if kh_events ?h AND NN_POLLER_EVENT_IN \<noteq> 0
                   then s\<lparr>kq_klog := kq_klog s @ [KeventDelete (kh_fd ?h) EVFILT_READ],
                          kq_hmem := (kq_hmem s)
                            (h := ?h\<lparr>kh_events := kh_events ?h AND NOT NN_POLLER_EVENT_IN\<rparr>)\<rparr>
                   else s)"
  have eqs: "kq_index ?s1 = kq_index s" "kq_nevents ?s1 = kq_nevents s" "kq_events ?s1 = kq_events s"
    "kh_fd (kq_hmem ?s1 h) = kh_fd ?h" by simp_all
  from kq_scrub_state[OF assms eqs(1-3), of "\<lambda>e. ke_ident e = unsigned_of (kh_fd ?h) \<and> ke_filter e = EVFILT_READ"]
  show ?thesis unfolding nn_poller_reset_in_kqueue_def Let_def eqs(4) by metis
qed


lemma kq_reset_out_spec:
  assumes "kq_wf s"
  shows "\<exists>s1. nn_poller_reset_out_kqueue s h ans = Inr s1 \<and> kq_wf s1 \<and>
           kq_live s1 = map (kq_inv1 (\<lambda>e. ke_ident e = unsigned_of (kh_fd (kq_hmem s h)) \<and>
                                        ke_filter e = EVFILT_WRITE)) (kq_live s) \<and>
           kq_index s1 = kq_index s \<and> kq_nevents s1 = kq_nevents s"
proof -
  let ?h = "kq_hmem s h"
  let ?P = "\<lambda>e. ke_ident e = unsigned_of (kh_fd ?h) \<and> ke_filter e = EVFILT_WRITE"
  define s' where "s' = (if kh_events ?h AND NN_POLLER_EVENT_OUT \<noteq> 0
                   then
                     (if kres_value ans \<noteq> - 1
                      then s\<lparr>kq_klog := kq_klog s @ [KeventDelete (kh_fd ?h) EVFILT_WRITE],
                             kq_hmem := (kq_hmem s)
                                (h := ?h\<lparr>kh_events := kh_events ?h AND NOT NN_POLLER_EVENT_OUT\<rparr>)\<rparr>
                      else s\<lparr>kq_klog := kq_klog s @ [KeventDelete (kh_fd ?h) EVFILT_WRITE]\<rparr>)
                   else s)"
  have eqs: "kq_index s' = kq_index s" "kq_nevents s' = kq_nevents s" "kq_events s' = kq_events s"
    "kh_fd (kq_hmem s' h) = kh_fd ?h" by (simp_all add: s'_def)
  have d: "nn_poller_reset_out_kqueue s h ans =
      (case kq_invalidate ?P (kq_index s') (kq_nevents s') (kq_events s') of
                 Inl f \<Rightarrow> Inl f | Inr evs \<Rightarrow> Inr (s'\<lparr>kq_events := evs\<rparr>))"
    by (simp add: nn_poller_reset_out_kqueue_def Let_def s'_def split: sum.splits)
  from kq_scrub_state[OF assms eqs(1-3), of ?P] obtain s1 where
    "(case kq_invalidate ?P (kq_index s') (kq_nevents s') (kq_events s') of
                 Inl f \<Rightarrow> Inl f | Inr evs \<Rightarrow> Inr (s'\<lparr>kq_events := evs\<rparr>)) = Inr s1"
    "kq_wf s1" "kq_live s1 = map (kq_inv1 ?P) (kq_live s)"
    "kq_index s1 = kq_index s" "kq_nevents s1 = kq_nevents s" by blast
  then show ?thesis unfolding d by blast
qed

lemma kq_pending_after_reset_in:
  assumes id: "kq_idents s" and kn: "\<forall>e \<in> set (kq_live s). kq_known e"
    and l: "kq_live s1 = map (kq_inv1 (\<lambda>e. ke_ident e = unsigned_of (kh_fd (kq_hmem s h)) \<and>
                                        ke_filter e = EVFILT_READ)) (kq_live s)"
  shows "(NN_POLLER_IN, Some h) \<notin> set (kq_pending s1)"
proof
  let ?P = "\<lambda>e. ke_ident e = unsigned_of (kh_fd (kq_hmem s h)) \<and> ke_filter e = EVFILT_READ"
  assume "(NN_POLLER_IN, Some h) \<in> set (kq_pending s1)"
  then obtain e where e: "e \<in> set (kq_live s)" "(NN_POLLER_IN, Some h) \<in> set (kq_pend1 (kq_inv1 ?P e))"
    unfolding kq_pending_def l by auto
  from e(2) have np: "\<not> ?P e" by (auto simp: kq_inv1_def kq_pend1_def split: if_splits)
  with e(2) have u: "ke_udata e = Some h" and k: "kq_kind e = NN_POLLER_IN"
    by (auto simp: kq_inv1_def kq_pend1_def split: option.splits)
  from id e(1) u have "ke_ident e = unsigned_of (kh_fd (kq_hmem s h))" by (simp add: kq_idents_def)
  with np have "ke_filter e \<noteq> EVFILT_READ" by simp
  moreover from k have "ke_flags e AND EV_EOF = 0" "ke_filter e \<noteq> EVFILT_WRITE"
    by (auto simp: kq_kind_def split: if_splits)
  moreover from kn e(1) have "kq_known e" by simp
  ultimately show False by (simp add: kq_known_def)
qed

lemma kq_pending_after_reset_out:
  assumes id: "kq_idents s"
    and l: "kq_live s1 = map (kq_inv1 (\<lambda>e. ke_ident e = unsigned_of (kh_fd (kq_hmem s h)) \<and>
                                        ke_filter e = EVFILT_WRITE)) (kq_live s)"
  shows "(NN_POLLER_OUT, Some h) \<notin> set (kq_pending s1)"
proof
  let ?P = "\<lambda>e. ke_ident e = unsigned_of (kh_fd (kq_hmem s h)) \<and> ke_filter e = EVFILT_WRITE"
  assume "(NN_POLLER_OUT, Some h) \<in> set (kq_pending s1)"
  then obtain e where e: "e \<in> set (kq_live s)" "(NN_POLLER_OUT, Some h) \<in> set (kq_pend1 (kq_inv1 ?P e))"
    unfolding kq_pending_def l by auto
  from e(2) have np: "\<not> ?P e" by (auto simp: kq_inv1_def kq_pend1_def split: if_splits)
  with e(2) have u: "ke_udata e = Some h" and k: "kq_kind e = NN_POLLER_OUT"
    by (auto simp: kq_inv1_def kq_pend1_def split: option.splits)
  from id e(1) u have "ke_ident e = unsigned_of (kh_fd (kq_hmem s h))" by (simp add: kq_idents_def)
  with np have "ke_filter e \<noteq> EVFILT_WRITE" by simp
  moreover from k have "ke_filter e = EVFILT_WRITE"
    by (auto simp: kq_kind_def split: if_splits)
  ultimately show False by simp
qed

subsection \<open>The poll backend\<close>

text \<open>The cursor and the size are within the two arrays.\<close>

definition pl_wf :: "pl_poller \<Rightarrow> bool" where
  "pl_wf s \<longleftrightarrow> 0 \<le> pl_index s \<and> pl_index s \<le> pl_size s \<and>
     pl_size s \<le> int (length (pl_pollset s)) \<and> pl_size s \<le> int (length (pl_hndls s))"

text \<open>What one slot still gives, from its reported events and its handle.\<close>

definition pl_pend1 :: "pollfd \<Rightarrow> nn_hndls_item \<Rightarrow> (kind \<times> hptr option) list" where
  "pl_pend1 p hi =
     (if pf_revents p AND POLLIN \<noteq> 0 then [(NN_POLLER_IN, hi_hndl hi)] else []) @
     (if pf_revents p AND POLLOUT \<noteq> 0 then [(NN_POLLER_OUT, hi_hndl hi)] else []) @
     (if (pf_revents p AND NOT POLLIN) AND NOT POLLOUT \<noteq> 0 then [(NN_POLLER_ERR, hi_hndl hi)] else [])"

definition pl_slot :: "pl_poller \<Rightarrow> nat \<Rightarrow> (kind \<times> hptr option) list" where
  "pl_slot s k = pl_pend1 (pl_pollset s ! k) (pl_hndls s ! k)"

definition pl_pending :: "pl_poller \<Rightarrow> (kind \<times> hptr option) list" where
  "pl_pending s = concat (map (pl_slot s) [nat (pl_index s) ..< nat (pl_size s)])"

declare pl_skip.simps [simp del]

lemma w16_and_not_self: "(x AND NOT m) AND m = (0::16 word)"
  by (simp add: bit_eq_iff bit_simps)

lemma pl_in_out: "(x AND NOT POLLIN) AND POLLOUT = x AND POLLOUT"
  "(x AND NOT POLLOUT) AND POLLIN = x AND POLLIN"
proof -
  have a: "\<And>a b. (x AND NOT a) AND b = x AND (b AND NOT a)" for x :: "16 word"
    by (simp add: ac_simps)
  have c: "POLLOUT AND NOT POLLIN = POLLOUT" "POLLIN AND NOT POLLOUT = POLLIN"
    by (simp_all add: POLLIN_def POLLOUT_def)
  show "(x AND NOT POLLIN) AND POLLOUT = x AND POLLOUT"
  "(x AND NOT POLLOUT) AND POLLIN = x AND POLLIN"
    by (simp_all only: a c)
qed

lemma w16_and_not_idem:
  "((x AND NOT a) AND NOT a) AND NOT b = (x AND NOT a) AND NOT (b :: 16 word)"
  "((x AND NOT b) AND NOT a) AND NOT b = (x AND NOT a) AND NOT (b :: 16 word)"
  by (simp_all add: ac_simps)

lemma w16_and_not_id: "x AND a = 0 \<Longrightarrow> x AND NOT a = (x :: 16 word)"
  by (auto simp add: bit_eq_iff bit_simps)

lemma pl_skip_spec:
  "0 \<le> i \<Longrightarrow> i \<le> n \<Longrightarrow> n \<le> int (length ps) \<Longrightarrow>
   \<exists>j. pl_skip ps i n = Inr j \<and> i \<le> j \<and> j \<le> n \<and>
       (\<forall>k. i \<le> k \<and> k < j \<longrightarrow> pf_revents (ps ! nat k) = 0) \<and>
       (j < n \<longrightarrow> pf_revents (ps ! nat j) \<noteq> 0)"
proof (induction ps i n rule: pl_skip.induct)
  case (1 ps i n)
  show ?case
  proof (cases "i < n")
    case False
    with 1 show ?thesis by (subst pl_skip.simps) auto
  next
    case True
    show ?thesis
    proof (cases "pf_revents (ps ! nat i) \<noteq> 0")
      case True
      with \<open>i < n\<close> 1 show ?thesis by (subst pl_skip.simps) auto
    next
      case False
      with \<open>i < n\<close> 1 have "\<exists>j. pl_skip ps (i+1) n = Inr j \<and> i+1 \<le> j \<and> j \<le> n \<and>
       (\<forall>k. i+1 \<le> k \<and> k < j \<longrightarrow> pf_revents (ps ! nat k) = 0) \<and>
       (j < n \<longrightarrow> pf_revents (ps ! nat j) \<noteq> 0)" by simp
      then obtain j where j: "pl_skip ps (i+1) n = Inr j" "i+1 \<le> j" "j \<le> n"
        "\<forall>k. i+1 \<le> k \<and> k < j \<longrightarrow> pf_revents (ps ! nat k) = 0" "j < n \<longrightarrow> pf_revents (ps ! nat j) \<noteq> 0" by blast
      have "\<forall>k. i \<le> k \<and> k < j \<longrightarrow> pf_revents (ps ! nat k) = 0"
      proof (intro allI impI)
        fix k assume "i \<le> k \<and> k < j"
        then have "k = i \<or> i + 1 \<le> k \<and> k < j" by arith
        with False j(4) show "pf_revents (ps ! nat k) = 0" by auto
      qed
      with j False \<open>i < n\<close> 1 show ?thesis by (subst pl_skip.simps) auto
    qed
  qed
qed

lemma pl_pend1_zero: "pf_revents p = 0 \<Longrightarrow> pl_pend1 p hi = []"
  by (simp add: pl_pend1_def)

lemma pl_pend1_in:
  "pf_revents p AND POLLIN \<noteq> 0 \<Longrightarrow>
   pl_pend1 p hi = (NN_POLLER_IN, hi_hndl hi) # pl_pend1 (p\<lparr>pf_revents := pf_revents p AND NOT POLLIN\<rparr>) hi"
  by (simp add: pl_pend1_def pl_in_out w16_and_not_self w16_and_not_idem)

lemma pl_pend1_out:
  "pf_revents p AND POLLIN = 0 \<Longrightarrow> pf_revents p AND POLLOUT \<noteq> 0 \<Longrightarrow>
   pl_pend1 p hi = (NN_POLLER_OUT, hi_hndl hi) # pl_pend1 (p\<lparr>pf_revents := pf_revents p AND NOT POLLOUT\<rparr>) hi"
  by (simp add: pl_pend1_def pl_in_out w16_and_not_self w16_and_not_idem)

lemma pl_pend1_err:
  "pf_revents p AND POLLIN = 0 \<Longrightarrow> pf_revents p AND POLLOUT = 0 \<Longrightarrow> pf_revents p \<noteq> 0 \<Longrightarrow>
   pl_pend1 p hi = [(NN_POLLER_ERR, hi_hndl hi)]"
  by (simp add: pl_pend1_def w16_and_not_id)

lemma concat_upt_zero:
  "i \<le> j \<Longrightarrow> j \<le> n \<Longrightarrow> (\<forall>k. i \<le> k \<and> k < j \<longrightarrow> f k = []) \<Longrightarrow>
   concat (map f [i..<n]) = concat (map f [j..<n])"
proof (induction "j - i" arbitrary: i)
  case 0
  then show ?case by simp
next
  case (Suc d)
  then have l: "i < n" and z: "f i = []" by auto
  have "concat (map f [i..<n]) = f i @ concat (map f [Suc i..<n])"
    using l by (simp add: upt_conv_Cons)
  also have "\<dots> = concat (map f [Suc i..<n])" using z by simp
  also have "\<dots> = concat (map f [j..<n])"
    using Suc by (intro Suc.hyps(1)) auto
  finally show ?case .
qed

lemma pl_event_spec:
  assumes wf: "pl_wf s"
  shows "\<exists>s'. nn_poller_event_poll s = Inr (case pl_pending s of [] \<Rightarrow> None | x # _ \<Rightarrow> Some x, s')
           \<and> pl_wf s' \<and> pl_pending s' = tl (pl_pending s)
           \<and> pl_hmem s' = pl_hmem s \<and> pl_klog s' = pl_klog s \<and> pl_size s' = pl_size s
           \<and> pl_hndls s' = pl_hndls s \<and> pl_removed s' = pl_removed s"
proof -
  let ?i = "pl_index s" and ?n = "pl_size s" and ?ps = "pl_pollset s" and ?hs = "pl_hndls s"
  from wf have b: "0 \<le> ?i" "?i \<le> ?n" "?n \<le> int (length ?ps)" and bh: "?n \<le> int (length ?hs)"
    by (auto simp: pl_wf_def)
  from pl_skip_spec[OF b] obtain j where
    j: "pl_skip ?ps ?i ?n = Inr j" "?i \<le> j" "j \<le> ?n"
       "\<forall>k. ?i \<le> k \<and> k < j \<longrightarrow> pf_revents (?ps ! nat k) = 0"
       "j < ?n \<longrightarrow> pf_revents (?ps ! nat j) \<noteq> 0" by blast
  have z: "\<forall>k. nat ?i \<le> k \<and> k < nat j \<longrightarrow> pl_slot s k = []"
  proof (intro allI impI)
    fix k assume k: "nat ?i \<le> k \<and> k < nat j"
    with j b have "pf_revents (?ps ! nat (int k)) = 0" by (intro j(4)[rule_format]) auto
    then show "pl_slot s k = []" by (simp add: pl_slot_def pl_pend1_zero)
  qed
  have p: "pl_pending s = concat (map (pl_slot s) [nat j ..< nat ?n])"
    unfolding pl_pending_def
    using j b z by (intro concat_upt_zero) auto
  have ev: "nn_poller_event_poll s =
          (let self1 = s\<lparr>pl_index := j\<rparr>
           in if pl_size self1 \<le> j then Inr (None, self1)
              else if \<not> inb (pl_hndls self1) j then Inl OutOfBounds
              else
                (let hndl = hi_hndl (pl_hndls self1 ! nat j); p = pl_pollset self1 ! nat j
                 in if pf_revents p AND POLLIN \<noteq> 0 then
                      Inr (Some (NN_POLLER_IN, hndl),
                           self1\<lparr>pl_pollset := (pl_pollset self1)
                              [nat j := p\<lparr>pf_revents := pf_revents p AND NOT POLLIN\<rparr>]\<rparr>)
                    else if pf_revents p AND POLLOUT \<noteq> 0 then
                      Inr (Some (NN_POLLER_OUT, hndl),
                           self1\<lparr>pl_pollset := (pl_pollset self1)
                              [nat j := p\<lparr>pf_revents := pf_revents p AND NOT POLLOUT\<rparr>]\<rparr>)
                    else Inr (Some (NN_POLLER_ERR, hndl), self1\<lparr>pl_index := j + 1\<rparr>)))"
    by (simp add: nn_poller_event_poll_def j(1))
  show ?thesis
  proof (cases "j < ?n")
    case False
    with j have jn: "j = ?n" by simp
    let ?s' = "s\<lparr>pl_index := j\<rparr>"
    have pe: "pl_pending s = []" using p jn by simp
    have "nn_poller_event_poll s = Inr (None, ?s')" using ev jn by simp
    moreover have "pl_pending ?s' = []" using jn by (simp add: pl_pending_def)
    moreover have "pl_wf ?s'" using jn b bh by (simp add: pl_wf_def)
    ultimately show ?thesis using pe by simp
  next
    case True
    let ?p = "?ps ! nat j" and ?hi = "?hs ! nat j"
    from True j b bh have ib: "inb ?hs j" by (simp add: inb_def)
    have sj: "Suc (nat j) = nat (j + 1)" using j b by simp
    from True j b have jl: "nat j < nat ?n" "nat j < length ?ps" by auto
    from True j have nz: "pf_revents ?p \<noteq> 0" by simp
    let ?rest = "concat (map (pl_slot s) [Suc (nat j) ..< nat ?n])"
    have pe: "pl_pending s = pl_pend1 ?p ?hi @ ?rest"
      using p jl by (simp add: upt_conv_Cons pl_slot_def)
    have upd: "pl_pending (s\<lparr>pl_index := j, pl_pollset := ?ps[nat j := p']\<rparr>) = pl_pend1 p' ?hi @ ?rest" for p'
    proof -
      let ?s' = "s\<lparr>pl_index := j, pl_pollset := ?ps[nat j := p']\<rparr>"
      have "concat (map (pl_slot ?s') [Suc (nat j) ..< nat ?n]) = concat (map (pl_slot s) [Suc (nat j) ..< nat ?n])"
        by (rule arg_cong[where f=concat], rule map_cong) (auto simp: pl_slot_def)
      moreover have "pl_slot ?s' (nat j) = pl_pend1 p' ?hi" using jl by (simp add: pl_slot_def)
      ultimately show ?thesis using jl by (simp add: pl_pending_def upt_conv_Cons)
    qed
    have wfu: "pl_wf (s\<lparr>pl_index := j, pl_pollset := ?ps[nat j := p']\<rparr>)" for p'
      using j b bh by (simp add: pl_wf_def)
    show ?thesis
    proof (cases "pf_revents ?p AND POLLIN \<noteq> 0")
      case In: True
      let ?p' = "?p\<lparr>pf_revents := pf_revents ?p AND NOT POLLIN\<rparr>"
      let ?s' = "s\<lparr>pl_index := j, pl_pollset := ?ps[nat j := ?p']\<rparr>"
      have "nn_poller_event_poll s = Inr (Some (NN_POLLER_IN, hi_hndl ?hi), ?s')"
        using ev True In ib by (simp add: Let_def)
      moreover have "pl_pending s = (NN_POLLER_IN, hi_hndl ?hi) # pl_pending ?s'"
        using pe upd[of ?p'] pl_pend1_in[OF In] by simp
      ultimately show ?thesis using wfu[of ?p'] by simp
    next
      case NoIn: False
      show ?thesis
      proof (cases "pf_revents ?p AND POLLOUT \<noteq> 0")
        case Out: True
        let ?p' = "?p\<lparr>pf_revents := pf_revents ?p AND NOT POLLOUT\<rparr>"
        let ?s' = "s\<lparr>pl_index := j, pl_pollset := ?ps[nat j := ?p']\<rparr>"
        have "nn_poller_event_poll s = Inr (Some (NN_POLLER_OUT, hi_hndl ?hi), ?s')"
          using ev True NoIn Out ib by (simp add: Let_def)
        moreover have "pl_pending s = (NN_POLLER_OUT, hi_hndl ?hi) # pl_pending ?s'"
          using pe upd[of ?p'] pl_pend1_out[OF _ Out] NoIn by simp
        ultimately show ?thesis using wfu[of ?p'] by simp
      next
        case NoOut: False
        let ?s' = "s\<lparr>pl_index := j + 1\<rparr>"
        have "nn_poller_event_poll s = Inr (Some (NN_POLLER_ERR, hi_hndl ?hi), ?s')"
          using ev True NoIn NoOut ib by (simp add: Let_def)
        moreover have "pl_slot ?s' = pl_slot s"
          by (rule ext) (simp add: pl_slot_def)
        then have "pl_pending s = (NN_POLLER_ERR, hi_hndl ?hi) # pl_pending ?s'"
          using pe pl_pend1_err[OF _ _ nz] NoIn NoOut sj by (simp add: pl_pending_def)
        moreover have "pl_wf ?s'" using True j b bh by (simp add: pl_wf_def)
        ultimately show ?thesis by simp
      qed
    qed
  qed
qed

section \<open>Draining\<close>

text \<open>Any number of calls of \<^verbatim>\<open>nn_poller_event\<close> returns a prefix of what the buffer holds,
  then \<^verbatim>\<open>-EAGAIN\<close>.\<close>

lemma ep_drains_spec:
  "ep_wf s \<Longrightarrow> \<exists>s'. drains nn_poller_event_epoll n s =
      Inr (map Some (take n (ep_pending s)) @ replicate (n - length (ep_pending s)) None, s') \<and>
      ep_wf s' \<and> ep_pending s' = drop n (ep_pending s)"
  by (rule drains_pending[of ep_wf nn_poller_event_epoll ep_pending]) (use ep_event_spec in blast)

lemma ep_delivered:
  "ep_wf s \<Longrightarrow> delivered nn_poller_event_epoll n s = take n (ep_pending s)"
  using delivered_pending[of ep_wf nn_poller_event_epoll ep_pending s n] ep_event_spec by blast

lemma kq_drains_spec:
  "kq_wf s \<Longrightarrow> \<exists>s'. drains nn_poller_event_kqueue n s =
      Inr (map Some (take n (kq_pending s)) @ replicate (n - length (kq_pending s)) None, s') \<and>
      kq_wf s' \<and> kq_pending s' = drop n (kq_pending s)"
  by (rule drains_pending[of kq_wf nn_poller_event_kqueue kq_pending]) (use kq_event_spec in blast)

lemma kq_delivered:
  "kq_wf s \<Longrightarrow> delivered nn_poller_event_kqueue n s = take n (kq_pending s)"
  using delivered_pending[of kq_wf nn_poller_event_kqueue kq_pending s n] kq_event_spec by blast

lemma pl_drains_spec:
  "pl_wf s \<Longrightarrow> \<exists>s'. drains nn_poller_event_poll n s =
      Inr (map Some (take n (pl_pending s)) @ replicate (n - length (pl_pending s)) None, s') \<and>
      pl_wf s' \<and> pl_pending s' = drop n (pl_pending s)"
  by (rule drains_pending[of pl_wf nn_poller_event_poll pl_pending]) (use pl_event_spec in blast)

lemma pl_delivered:
  "pl_wf s \<Longrightarrow> delivered nn_poller_event_poll n s = take n (pl_pending s)"
  using delivered_pending[of pl_wf nn_poller_event_poll pl_pending s n] pl_event_spec by blast

lemma drains_consecutive:
  assumes d: "\<And>n. \<exists>s'. drains ev n s = Inr (map Some (take n pend) @ replicate (n - length pend) None, s')"
    and p: "pend = A @ x # y # B"
  shows "\<exists>m rs s'. drains ev (m + 2) s = Inr (rs @ [Some x, Some y], s') \<and> length rs = m"
proof -
  from d[of "length A + 2"] p
  have "\<exists>s'. drains ev (length A + 2) s = Inr (map Some A @ [Some x, Some y], s')" by simp
  then show ?thesis by (metis length_map)
qed

lemma ep_pend1_snd: "x \<in> set (ep_pend1 e) \<Longrightarrow> snd x = ee_ptr e"
  by (auto simp: ep_pend1_def split: if_splits)

lemma ep_pend1_distinct: "distinct (ep_pend1 e)"
  by (simp add: ep_pend1_def)

lemma ep_pending_distinct:
  "distinct (map ee_ptr es) \<Longrightarrow> distinct (concat (map ep_pend1 es))"
proof (induction es)
  case Nil
  then show ?case by simp
next
  case (Cons e es)
  have "set (ep_pend1 e) \<inter> set (concat (map ep_pend1 es)) = {}"
  proof (rule ccontr)
    assume "set (ep_pend1 e) \<inter> set (concat (map ep_pend1 es)) \<noteq> {}"
    then obtain x e' where "x \<in> set (ep_pend1 e)" "e' \<in> set es" "x \<in> set (ep_pend1 e')" by auto
    then have "ee_ptr e = ee_ptr e'" "e' \<in> set es"
      using ep_pend1_snd[of x e] ep_pend1_snd[of x e'] by auto
    with Cons.prems show False by auto
  qed
  with Cons show ?case by (simp add: ep_pend1_distinct)
qed

lemma pl_pend1_snd: "x \<in> set (pl_pend1 p hi) \<Longrightarrow> snd x = hi_hndl hi \<and> pf_revents p \<noteq> 0"
  by (auto simp: pl_pend1_def split: if_splits)

lemma pl_pend1_distinct: "distinct (pl_pend1 p hi)"
  by (simp add: pl_pend1_def)

lemma pl_pending_distinct:
  "distinct (map (\<lambda>k. hi_hndl (hs ! k)) (filter (\<lambda>k. pf_revents (ps ! k) \<noteq> 0) ks)) \<Longrightarrow>
   distinct (concat (map (\<lambda>k. pl_pend1 (ps ! k) (hs ! k)) ks))"
proof (induction ks)
  case Nil
  then show ?case by simp
next
  case (Cons k ks)
  have "set (pl_pend1 (ps ! k) (hs ! k)) \<inter> set (concat (map (\<lambda>k. pl_pend1 (ps ! k) (hs ! k)) ks)) = {}"
  proof (rule ccontr)
    assume "set (pl_pend1 (ps ! k) (hs ! k)) \<inter> set (concat (map (\<lambda>k. pl_pend1 (ps ! k) (hs ! k)) ks)) \<noteq> {}"
    then obtain x k' where x: "x \<in> set (pl_pend1 (ps ! k) (hs ! k))" "k' \<in> set ks"
      "x \<in> set (pl_pend1 (ps ! k') (hs ! k'))" by auto
    then have "hi_hndl (hs ! k) = hi_hndl (hs ! k')" "pf_revents (ps ! k) \<noteq> 0" "pf_revents (ps ! k') \<noteq> 0"
      using pl_pend1_snd[of x "ps ! k" "hs ! k"] pl_pend1_snd[of x "ps ! k'" "hs ! k'"] by auto
    with Cons.prems x(2) show False by auto
  qed
  moreover from Cons have "distinct (concat (map (\<lambda>k. pl_pend1 (ps ! k) (hs ! k)) ks))"
    by (auto split: if_splits)
  ultimately show ?case by (simp add: pl_pend1_distinct)
qed


lemma ep_event_in:
  assumes "ep_wf s" "ep_index s < ep_nevents s"
    and "ee_events (ep_events s ! nat (ep_index s)) AND EPOLLIN \<noteq> 0"
  shows "nn_poller_event_epoll s =
     Inr (Some (NN_POLLER_IN, ee_ptr (ep_events s ! nat (ep_index s))),
          s\<lparr>ep_events := (ep_events s)[nat (ep_index s) := (ep_events s ! nat (ep_index s))
               \<lparr>ee_events := ee_events (ep_events s ! nat (ep_index s)) AND NOT EPOLLIN\<rparr>]\<rparr>)"
proof -
  from assms(3) have "ee_events (ep_events s ! nat (ep_index s)) \<noteq> 0" by auto
  with assms have "ep_skip (ep_events s) (ep_index s) (ep_nevents s) = Inr (ep_index s)"
    by (subst ep_skip.simps) (auto simp: ep_wf_def)
  with assms show ?thesis by (simp add: nn_poller_event_epoll_def Let_def)
qed

lemma ep_event_out:
  assumes "ep_wf s" "ep_index s < ep_nevents s"
    and "ee_events (ep_events s ! nat (ep_index s)) AND EPOLLIN = 0"
    and "ee_events (ep_events s ! nat (ep_index s)) AND EPOLLOUT \<noteq> 0"
  shows "nn_poller_event_epoll s =
     Inr (Some (NN_POLLER_OUT, ee_ptr (ep_events s ! nat (ep_index s))),
          s\<lparr>ep_events := (ep_events s)[nat (ep_index s) := (ep_events s ! nat (ep_index s))
               \<lparr>ee_events := ee_events (ep_events s ! nat (ep_index s)) AND NOT EPOLLOUT\<rparr>]\<rparr>)"
proof -
  from assms(4) have "ee_events (ep_events s ! nat (ep_index s)) \<noteq> 0" by auto
  with assms have "ep_skip (ep_events s) (ep_index s) (ep_nevents s) = Inr (ep_index s)"
    by (subst ep_skip.simps) (auto simp: ep_wf_def)
  with assms show ?thesis by (simp add: nn_poller_event_epoll_def Let_def)
qed

lemma ep_drains_in_out:
  assumes wf: "ep_wf s" and lt: "ep_index s < ep_nevents s"
    and i: "ee_events (ep_events s ! nat (ep_index s)) AND EPOLLIN \<noteq> 0"
    and out: "ee_events (ep_events s ! nat (ep_index s)) AND EPOLLOUT \<noteq> 0"
  shows "drains nn_poller_event_epoll 2 s =
     Inr ([Some (NN_POLLER_IN, ee_ptr (ep_events s ! nat (ep_index s))),
           Some (NN_POLLER_OUT, ee_ptr (ep_events s ! nat (ep_index s)))],
          s\<lparr>ep_events := (ep_events s)[nat (ep_index s) := (ep_events s ! nat (ep_index s))
               \<lparr>ee_events := (ee_events (ep_events s ! nat (ep_index s)) AND NOT EPOLLIN)
                                AND NOT EPOLLOUT\<rparr>]\<rparr>)"
proof -
  let ?i = "nat (ep_index s)"
  let ?e = "ep_events s ! ?i"
  let ?s1 = "s\<lparr>ep_events := (ep_events s)[?i := ?e\<lparr>ee_events := ee_events ?e AND NOT EPOLLIN\<rparr>]\<rparr>"
  from wf lt have il: "?i < length (ep_events s)" by (auto simp: ep_wf_def)
  have e1: "nn_poller_event_epoll s = Inr (Some (NN_POLLER_IN, ee_ptr ?e), ?s1)"
    by (rule ep_event_in[OF wf lt i])
  have wf1: "ep_wf ?s1" using wf by (simp add: ep_wf_def)
  have r1: "ep_events ?s1 ! nat (ep_index ?s1) = ?e\<lparr>ee_events := ee_events ?e AND NOT EPOLLIN\<rparr>"
    using il by simp
  have e2: "nn_poller_event_epoll ?s1 =
     Inr (Some (NN_POLLER_OUT, ee_ptr ?e),
          ?s1\<lparr>ep_events := (ep_events ?s1)[?i := (?e\<lparr>ee_events := ee_events ?e AND NOT EPOLLIN\<rparr>)
               \<lparr>ee_events := (ee_events ?e AND NOT EPOLLIN) AND NOT EPOLLOUT\<rparr>]\<rparr>)"
    using ep_event_out[OF wf1, unfolded r1] lt out il
    by (simp add: ep_in_out word_and_not_self)
  show ?thesis
    using e1 e2 by (simp add: numeral_2_eq_2)
qed

lemma pl_event_in:
  assumes "pl_wf s" "pl_index s < pl_size s"
    and "pf_revents (pl_pollset s ! nat (pl_index s)) AND POLLIN \<noteq> 0"
  shows "nn_poller_event_poll s =
     Inr (Some (NN_POLLER_IN, hi_hndl (pl_hndls s ! nat (pl_index s))),
          s\<lparr>pl_pollset := (pl_pollset s)[nat (pl_index s) := (pl_pollset s ! nat (pl_index s))
               \<lparr>pf_revents := pf_revents (pl_pollset s ! nat (pl_index s)) AND NOT POLLIN\<rparr>]\<rparr>)"
proof -
  from assms(3) have "pf_revents (pl_pollset s ! nat (pl_index s)) \<noteq> 0" by auto
  with assms have "pl_skip (pl_pollset s) (pl_index s) (pl_size s) = Inr (pl_index s)"
    by (subst pl_skip.simps) (auto simp: pl_wf_def)
  with assms show ?thesis by (simp add: nn_poller_event_poll_def Let_def inb_def pl_wf_def)
qed

lemma pl_event_out:
  assumes "pl_wf s" "pl_index s < pl_size s"
    and "pf_revents (pl_pollset s ! nat (pl_index s)) AND POLLIN = 0"
    and "pf_revents (pl_pollset s ! nat (pl_index s)) AND POLLOUT \<noteq> 0"
  shows "nn_poller_event_poll s =
     Inr (Some (NN_POLLER_OUT, hi_hndl (pl_hndls s ! nat (pl_index s))),
          s\<lparr>pl_pollset := (pl_pollset s)[nat (pl_index s) := (pl_pollset s ! nat (pl_index s))
               \<lparr>pf_revents := pf_revents (pl_pollset s ! nat (pl_index s)) AND NOT POLLOUT\<rparr>]\<rparr>)"
proof -
  from assms(4) have "pf_revents (pl_pollset s ! nat (pl_index s)) \<noteq> 0" by auto
  with assms have "pl_skip (pl_pollset s) (pl_index s) (pl_size s) = Inr (pl_index s)"
    by (subst pl_skip.simps) (auto simp: pl_wf_def)
  with assms show ?thesis by (simp add: nn_poller_event_poll_def Let_def inb_def pl_wf_def)
qed

lemma pl_drains_in_out:
  assumes wf: "pl_wf s" and lt: "pl_index s < pl_size s"
    and i: "pf_revents (pl_pollset s ! nat (pl_index s)) AND POLLIN \<noteq> 0"
    and out: "pf_revents (pl_pollset s ! nat (pl_index s)) AND POLLOUT \<noteq> 0"
  shows "drains nn_poller_event_poll 2 s =
     Inr ([Some (NN_POLLER_IN, hi_hndl (pl_hndls s ! nat (pl_index s))),
           Some (NN_POLLER_OUT, hi_hndl (pl_hndls s ! nat (pl_index s)))],
          s\<lparr>pl_pollset := (pl_pollset s)[nat (pl_index s) := (pl_pollset s ! nat (pl_index s))
               \<lparr>pf_revents := (pf_revents (pl_pollset s ! nat (pl_index s)) AND NOT POLLIN)
                                AND NOT POLLOUT\<rparr>]\<rparr>)"
proof -
  let ?i = "nat (pl_index s)"
  let ?e = "pl_pollset s ! ?i"
  let ?s1 = "s\<lparr>pl_pollset := (pl_pollset s)[?i := ?e\<lparr>pf_revents := pf_revents ?e AND NOT POLLIN\<rparr>]\<rparr>"
  from wf lt have il: "?i < length (pl_pollset s)" by (auto simp: pl_wf_def)
  have e1: "nn_poller_event_poll s = Inr (Some (NN_POLLER_IN, hi_hndl (pl_hndls s ! ?i)), ?s1)"
    by (rule pl_event_in[OF wf lt i])
  have wf1: "pl_wf ?s1" using wf by (simp add: pl_wf_def)
  have r1: "pl_pollset ?s1 ! nat (pl_index ?s1) = ?e\<lparr>pf_revents := pf_revents ?e AND NOT POLLIN\<rparr>"
    using il by simp
  have e2: "nn_poller_event_poll ?s1 =
     Inr (Some (NN_POLLER_OUT, hi_hndl (pl_hndls s ! ?i)),
          ?s1\<lparr>pl_pollset := (pl_pollset ?s1)[?i := (?e\<lparr>pf_revents := pf_revents ?e AND NOT POLLIN\<rparr>)
               \<lparr>pf_revents := (pf_revents ?e AND NOT POLLIN) AND NOT POLLOUT\<rparr>]\<rparr>)"
    using pl_event_out[OF wf1, unfolded r1] lt out il
    by (simp add: pl_in_out w16_and_not_self)
  show ?thesis
    using e1 e2 by (simp add: numeral_2_eq_2)
qed

lemma ep_pend1_in_out:
  "ee_events e AND EPOLLIN \<noteq> 0 \<Longrightarrow> ee_events e AND EPOLLOUT \<noteq> 0 \<Longrightarrow>
   \<exists>B. ep_pend1 e = (NN_POLLER_IN, ee_ptr e) # (NN_POLLER_OUT, ee_ptr e) # B"
  by (simp add: ep_pend1_def)

lemma pl_pend1_in_out:
  "pf_revents p AND POLLIN \<noteq> 0 \<Longrightarrow> pf_revents p AND POLLOUT \<noteq> 0 \<Longrightarrow>
   \<exists>B. pl_pend1 p hi = (NN_POLLER_IN, hi_hndl hi) # (NN_POLLER_OUT, hi_hndl hi) # B"
  by (simp add: pl_pend1_def)

lemma ep_drains_consecutive:
  assumes wf: "ep_wf s" and j: "ep_index s \<le> j" "j < ep_nevents s"
    and i: "ee_events (ep_events s ! nat j) AND EPOLLIN \<noteq> 0"
    and out: "ee_events (ep_events s ! nat j) AND EPOLLOUT \<noteq> 0"
  shows "\<exists>m rs s'. drains nn_poller_event_epoll (m + 2) s =
            Inr (rs @ [Some (NN_POLLER_IN, ee_ptr (ep_events s ! nat j)),
                       Some (NN_POLLER_OUT, ee_ptr (ep_events s ! nat j))], s') \<and> length rs = m"
proof -
  let ?k = "nat j - nat (ep_index s)"
  from wf j have b: "0 \<le> ep_index s" "nat j < nat (ep_nevents s)" "nat (ep_nevents s) \<le> length (ep_events s)"
    by (auto simp: ep_wf_def)
  have kl: "?k < length (ep_live s)" using b j by (simp add: ep_live_def)
  have nk: "ep_live s ! ?k = ep_events s ! nat j" using b j by (simp add: ep_live_def)
  have "ep_live s = take ?k (ep_live s) @ ep_live s ! ?k # drop (Suc ?k) (ep_live s)"
    using kl by (rule id_take_nth_drop)
  then have "ep_pending s = concat (map ep_pend1 (take ?k (ep_live s))) @ ep_pend1 (ep_events s ! nat j)
      @ concat (map ep_pend1 (drop (Suc ?k) (ep_live s)))"
    unfolding ep_pending_def nk[symmetric] by (metis concat.simps(2) concat_append list.simps(9) map_append)
  with ep_pend1_in_out[OF i out] obtain A B where
    p: "ep_pending s = A @ (NN_POLLER_IN, ee_ptr (ep_events s ! nat j)) #
                           (NN_POLLER_OUT, ee_ptr (ep_events s ! nat j)) # B"
    by auto
  have d: "\<And>n. \<exists>s'. drains nn_poller_event_epoll n s =
      Inr (map Some (take n (ep_pending s)) @ replicate (n - length (ep_pending s)) None, s')"
    using ep_drains_spec[OF wf] by blast
  show ?thesis by (rule drains_consecutive[OF d p])
qed

lemma pl_drains_consecutive:
  assumes wf: "pl_wf s" and j: "pl_index s \<le> j" "j < pl_size s"
    and i: "pf_revents (pl_pollset s ! nat j) AND POLLIN \<noteq> 0"
    and out: "pf_revents (pl_pollset s ! nat j) AND POLLOUT \<noteq> 0"
  shows "\<exists>m rs s'. drains nn_poller_event_poll (m + 2) s =
            Inr (rs @ [Some (NN_POLLER_IN, hi_hndl (pl_hndls s ! nat j)),
                       Some (NN_POLLER_OUT, hi_hndl (pl_hndls s ! nat j))], s') \<and> length rs = m"
proof -
  from wf j have b: "0 \<le> pl_index s" "nat (pl_index s) \<le> nat j" "nat j < nat (pl_size s)"
    by (auto simp: pl_wf_def)
  have "[nat (pl_index s) ..< nat (pl_size s)] = [nat (pl_index s) ..< nat j] @ nat j # [Suc (nat j) ..< nat (pl_size s)]"
    using b by (metis le_Suc_ex less_imp_le_nat upt_add_eq_append upt_conv_Cons)
  then have "pl_pending s = concat (map (pl_slot s) [nat (pl_index s) ..< nat j]) @ pl_slot s (nat j)
      @ concat (map (pl_slot s) [Suc (nat j) ..< nat (pl_size s)])"
    unfolding pl_pending_def by simp
  with pl_pend1_in_out[OF i out, of "pl_hndls s ! nat j"] obtain A B where
    p: "pl_pending s = A @ (NN_POLLER_IN, hi_hndl (pl_hndls s ! nat j)) #
                           (NN_POLLER_OUT, hi_hndl (pl_hndls s ! nat j)) # B"
    by (auto simp: pl_slot_def)
  have d: "\<And>n. \<exists>s'. drains nn_poller_event_poll n s =
      Inr (map Some (take n (pl_pending s)) @ replicate (n - length (pl_pending s)) None, s')"
    using pl_drains_spec[OF wf] by blast
  show ?thesis by (rule drains_consecutive[OF d p])
qed

subsection \<open>One record with both bits\<close>

text \<open>Two buffers for the examples: the first record is ready for reading and writing.\<close>

definition ep_w10 :: ep_poller where
  "ep_w10 = ep_ex\<lparr>ep_nevents := 2,
     ep_events := [\<lparr>ee_events = 5, ee_ptr = 7\<rparr>, \<lparr>ee_events = 1, ee_ptr = 8\<rparr>]
                  @ replicate 30 \<lparr>ee_events = 0, ee_ptr = 0\<rparr>\<rparr>"

definition pl_w10 :: pl_poller where
  "pl_w10 = pl_ex\<lparr>pl_size := 2,
     pl_pollset := [\<lparr>pf_fd = 3, pf_events = 5, pf_revents = 5\<rparr>,
                    \<lparr>pf_fd = 4, pf_events = 1, pf_revents = 1\<rparr>]
                  @ replicate 14 \<lparr>pf_fd = 0, pf_events = 0, pf_revents = 0\<rparr>,
     pl_hndls := [\<lparr>hi_hndl = Some 7, hi_prev = 0, hi_next = 0\<rparr>,
                  \<lparr>hi_hndl = Some 8, hi_prev = 0, hi_next = 0\<rparr>]
                  @ replicate 14 \<lparr>hi_hndl = None, hi_prev = 0, hi_next = 0\<rparr>,
     pl_hmem := (\<lambda>h. if h = 8 then 1 else 0)\<rparr>"

text \<open>
  Claim C10: in the epoll and the poll backend, a buffered record with both the IN and
  the OUT bit for a handle is delivered by two consecutive calls, first as IN, then as
  OUT. This holds for every record between the cursor and the count (first and fourth
  part). For the record at the cursor, the two calls are the next two, and they leave
  the record with both bits cleared (second and fifth part). Hence no pair of a kind
  and a handle is returned twice, as long as no two records that still hold events
  name the same handle (third and sixth part).
\<close>

theorem in_and_out_of_one_record:
  "(ep_wf s \<and> ep_index s \<le> j \<and> j < ep_nevents s \<and>
      ee_events (ep_events s ! nat j) AND EPOLLIN \<noteq> 0 \<and>
      ee_events (ep_events s ! nat j) AND EPOLLOUT \<noteq> 0 \<longrightarrow>
      (\<exists>m rs s'. drains nn_poller_event_epoll (m + 2) s =
            Inr (rs @ [Some (NN_POLLER_IN, ee_ptr (ep_events s ! nat j)),
                       Some (NN_POLLER_OUT, ee_ptr (ep_events s ! nat j))], s') \<and> length rs = m)) \<and>
   (ep_wf s \<and> ep_index s < ep_nevents s \<and>
      ee_events (ep_events s ! nat (ep_index s)) AND EPOLLIN \<noteq> 0 \<and>
      ee_events (ep_events s ! nat (ep_index s)) AND EPOLLOUT \<noteq> 0 \<longrightarrow>
      drains nn_poller_event_epoll 2 s =
        Inr ([Some (NN_POLLER_IN, ee_ptr (ep_events s ! nat (ep_index s))),
              Some (NN_POLLER_OUT, ee_ptr (ep_events s ! nat (ep_index s)))],
             s\<lparr>ep_events := (ep_events s)[nat (ep_index s) := (ep_events s ! nat (ep_index s))
               \<lparr>ee_events := (ee_events (ep_events s ! nat (ep_index s)) AND NOT EPOLLIN)
                                AND NOT EPOLLOUT\<rparr>]\<rparr>)) \<and>
   (ep_wf s \<and> distinct (map ee_ptr (ep_live s)) \<longrightarrow>
      distinct (delivered nn_poller_event_epoll n s)) \<and>
   (pl_wf p \<and> pl_index p \<le> i \<and> i < pl_size p \<and>
      pf_revents (pl_pollset p ! nat i) AND POLLIN \<noteq> 0 \<and>
      pf_revents (pl_pollset p ! nat i) AND POLLOUT \<noteq> 0 \<longrightarrow>
      (\<exists>m rs p'. drains nn_poller_event_poll (m + 2) p =
            Inr (rs @ [Some (NN_POLLER_IN, hi_hndl (pl_hndls p ! nat i)),
                       Some (NN_POLLER_OUT, hi_hndl (pl_hndls p ! nat i))], p') \<and> length rs = m)) \<and>
   (pl_wf p \<and> pl_index p < pl_size p \<and>
      pf_revents (pl_pollset p ! nat (pl_index p)) AND POLLIN \<noteq> 0 \<and>
      pf_revents (pl_pollset p ! nat (pl_index p)) AND POLLOUT \<noteq> 0 \<longrightarrow>
      drains nn_poller_event_poll 2 p =
        Inr ([Some (NN_POLLER_IN, hi_hndl (pl_hndls p ! nat (pl_index p))),
              Some (NN_POLLER_OUT, hi_hndl (pl_hndls p ! nat (pl_index p)))],
             p\<lparr>pl_pollset := (pl_pollset p)[nat (pl_index p) := (pl_pollset p ! nat (pl_index p))
               \<lparr>pf_revents := (pf_revents (pl_pollset p ! nat (pl_index p)) AND NOT POLLIN)
                                AND NOT POLLOUT\<rparr>]\<rparr>)) \<and>
   (pl_wf p \<and>
      distinct (map (\<lambda>k. hi_hndl (pl_hndls p ! k))
        (filter (\<lambda>k. pf_revents (pl_pollset p ! k) \<noteq> 0) [nat (pl_index p) ..< nat (pl_size p)])) \<longrightarrow>
      distinct (delivered nn_poller_event_poll n p))"
proof (intro conjI impI)
  assume "ep_wf s \<and> distinct (map ee_ptr (ep_live s))"
  then show "distinct (delivered nn_poller_event_epoll n s)"
    by (simp add: ep_delivered ep_pending_def ep_pending_distinct distinct_take)
next
  assume a: "pl_wf p \<and>
      distinct (map (\<lambda>k. hi_hndl (pl_hndls p ! k))
        (filter (\<lambda>k. pf_revents (pl_pollset p ! k) \<noteq> 0) [nat (pl_index p) ..< nat (pl_size p)]))"
  then have "distinct (pl_pending p)"
    unfolding pl_pending_def pl_slot_def by (intro pl_pending_distinct) simp
  with a show "distinct (delivered nn_poller_event_poll n p)"
    by (simp add: pl_delivered distinct_take)
qed (blast intro: ep_drains_consecutive ep_drains_in_out pl_drains_consecutive pl_drains_in_out)+

text \<open>The theorem at the two example buffers.\<close>

theorem in_and_out_of_one_record_witness:
  "ep_wf ep_w10 \<and> ep_index ep_w10 \<le> 0 \<and> 0 < ep_nevents ep_w10 \<and>
   ee_events (ep_events ep_w10 ! nat 0) AND EPOLLIN \<noteq> 0 \<and>
   ee_events (ep_events ep_w10 ! nat 0) AND EPOLLOUT \<noteq> 0 \<and>
   distinct (map ee_ptr (ep_live ep_w10)) \<and>
   (\<exists>m rs s'. drains nn_poller_event_epoll (m + 2) ep_w10 =
       Inr (rs @ [Some (NN_POLLER_IN, 7), Some (NN_POLLER_OUT, 7)], s') \<and> length rs = m) \<and>
   (\<exists>s'. drains nn_poller_event_epoll 2 ep_w10 =
       Inr ([Some (NN_POLLER_IN, 7), Some (NN_POLLER_OUT, 7)], s') \<and>
       ee_events (ep_events s' ! 0) = 0) \<and>
   distinct (delivered nn_poller_event_epoll 4 ep_w10) \<and>
   pl_wf pl_w10 \<and> pl_index pl_w10 \<le> 0 \<and> 0 < pl_size pl_w10 \<and>
   pf_revents (pl_pollset pl_w10 ! nat 0) AND POLLIN \<noteq> 0 \<and>
   pf_revents (pl_pollset pl_w10 ! nat 0) AND POLLOUT \<noteq> 0 \<and>
   distinct (map (\<lambda>k. hi_hndl (pl_hndls pl_w10 ! k))
        (filter (\<lambda>k. pf_revents (pl_pollset pl_w10 ! k) \<noteq> 0)
           [nat (pl_index pl_w10) ..< nat (pl_size pl_w10)])) \<and>
   (\<exists>m rs p'. drains nn_poller_event_poll (m + 2) pl_w10 =
       Inr (rs @ [Some (NN_POLLER_IN, Some 7), Some (NN_POLLER_OUT, Some 7)], p') \<and> length rs = m) \<and>
   (\<exists>p'. drains nn_poller_event_poll 2 pl_w10 =
       Inr ([Some (NN_POLLER_IN, Some 7), Some (NN_POLLER_OUT, Some 7)], p') \<and>
       pf_revents (pl_pollset p' ! 0) = 0) \<and>
   distinct (delivered nn_poller_event_poll 4 pl_w10)"
proof -
  have e: "ep_wf ep_w10" "ep_index ep_w10 = 0" "ep_nevents ep_w10 = 2"
    "ep_events ep_w10 ! 0 = \<lparr>ee_events = 5, ee_ptr = 7\<rparr>"
    "ep_live ep_w10 = [\<lparr>ee_events = 5, ee_ptr = 7\<rparr>, \<lparr>ee_events = 1, ee_ptr = 8\<rparr>]"
    "length (ep_events ep_w10) = 32"
    by (simp_all add: ep_w10_def ep_ex_def ep_wf_def ep_live_def)
  have eb: "(5 :: 32 word) AND EPOLLIN \<noteq> 0" "(5 :: 32 word) AND EPOLLOUT \<noteq> 0"
    "((5 :: 32 word) AND NOT EPOLLIN) AND NOT EPOLLOUT = 0"
    by (simp_all add: EPOLLIN_def EPOLLOUT_def)
  have p: "pl_wf pl_w10" "pl_index pl_w10 = 0" "pl_size pl_w10 = 2"
    "pl_pollset pl_w10 ! 0 = \<lparr>pf_fd = 3, pf_events = 5, pf_revents = 5\<rparr>"
    "pl_pollset pl_w10 ! Suc 0 = \<lparr>pf_fd = 4, pf_events = 1, pf_revents = 1\<rparr>"
    "pl_hndls pl_w10 ! 0 = \<lparr>hi_hndl = Some 7, hi_prev = 0, hi_next = 0\<rparr>"
    "pl_hndls pl_w10 ! Suc 0 = \<lparr>hi_hndl = Some 8, hi_prev = 0, hi_next = 0\<rparr>"
    "length (pl_pollset pl_w10) = 16"
    by (simp_all add: pl_w10_def pl_ex_def pl_wf_def)
  have pb: "(5 :: 16 word) AND POLLIN \<noteq> 0" "(5 :: 16 word) AND POLLOUT \<noteq> 0"
    "((5 :: 16 word) AND NOT POLLIN) AND NOT POLLOUT = 0"
    by (simp_all add: POLLIN_def POLLOUT_def)
  have u: "[0 ..< 2] = [0, Suc 0]" by (simp add: numeral_2_eq_2)
  show ?thesis
    using in_and_out_of_one_record[of ep_w10 0 4 pl_w10 0] e eb p pb
    by (simp add: u del: drains.simps)
qed

section \<open>Removal and reset while a batch is drained\<close>

subsection \<open>\<^verbatim>\<open>nn_poller_rm\<close>\<close>

text \<open>Every slot below the size that holds a handle is the slot that the handle stores as
  its index.\<close>

definition pl_slots :: "pl_poller \<Rightarrow> bool" where
  "pl_slots s \<longleftrightarrow>
     (\<forall>k g. k < nat (pl_size s) \<and> hi_hndl (pl_hndls s ! k) = Some g \<longrightarrow> pl_hmem s g = int k)"

text \<open>The handle is registered: its index is a slot below the size, and the slot holds it.\<close>

definition pl_registered :: "pl_poller \<Rightarrow> hptr \<Rightarrow> bool" where
  "pl_registered s h \<longleftrightarrow>
     0 \<le> pl_hmem s h \<and> pl_hmem s h < pl_size s \<and>
     hi_hndl (pl_hndls s ! nat (pl_hmem s h)) = Some h"

text \<open>The head of the list of removed slots is \<open>-1\<close> or a slot below the size.\<close>

definition pl_removed_ok :: "pl_poller \<Rightarrow> bool" where
  "pl_removed_ok s \<longleftrightarrow> pl_removed s = - 1 \<or> (0 \<le> pl_removed s \<and> pl_removed s < pl_size s)"

lemma pl_pending_set:
  "x \<in> set (pl_pending s) \<Longrightarrow>
   \<exists>k. nat (pl_index s) \<le> k \<and> k < nat (pl_size s) \<and> x \<in> set (pl_pend1 (pl_pollset s ! k) (pl_hndls s ! k))"
  by (auto simp: pl_pending_def pl_slot_def)

lemma pl_rm_spec:
  assumes wf: "pl_wf s" and sl: "pl_slots s" and reg: "pl_registered s h" and ro: "pl_removed_ok s"
  shows "\<exists>s1. nn_poller_rm_poll s h = Inr s1 \<and> pl_wf s1 \<and>
           (\<forall>x \<in> set (pl_pending s1). snd x \<noteq> Some h) \<and>
           pl_size s1 = pl_size s \<and> pl_index s1 = pl_index s \<and>
           pf_revents (pl_pollset s1 ! nat (pl_hmem s h)) = 0"
proof -
  let ?ix = "pl_hmem s h" and ?r = "pl_removed s"
  from wf reg have b: "0 \<le> ?ix" "?ix < pl_size s" "pl_size s \<le> int (length (pl_pollset s))"
    "pl_size s \<le> int (length (pl_hndls s))" by (auto simp: pl_wf_def pl_registered_def)
  let ?ps = "(pl_pollset s)[nat ?ix := (pl_pollset s ! nat ?ix)\<lparr>pf_revents := 0\<rparr>]"
  let ?hs1 = "(if ?r \<noteq> - 1
               then (pl_hndls s)[nat ?r := (pl_hndls s ! nat ?r)\<lparr>hi_prev := ?ix\<rparr>]
               else pl_hndls s)"
  let ?hs2 = "?hs1[nat ?ix := (?hs1 ! nat ?ix)\<lparr>hi_hndl := None, hi_prev := - 1, hi_next := ?r\<rparr>]"
  let ?s1 = "s\<lparr>pl_pollset := ?ps, pl_hndls := ?hs2, pl_removed := ?ix\<rparr>"
  have l1: "length ?hs1 = length (pl_hndls s)" by simp
  have rm: "nn_poller_rm_poll s h = Inr ?s1"
    using b ro unfolding nn_poller_rm_poll_def Let_def inb_def l1 pl_removed_ok_def
    by (auto simp del: length_list_update)
  have wf1: "pl_wf ?s1" using wf by (simp add: pl_wf_def)
  have hh: "hi_hndl (?hs2 ! k) = (if k = nat ?ix then None else hi_hndl (pl_hndls s ! k))"
    if "k < nat (pl_size s)" for k
  proof -
    have "hi_hndl (?hs1 ! k) = hi_hndl (pl_hndls s ! k)"
    proof (cases "?r \<noteq> - 1 \<and> k = nat ?r")
      case True
      with ro b have "nat ?r < length (pl_hndls s)" by (auto simp: pl_removed_ok_def)
      with True show ?thesis by simp
    next
      case False
      then show ?thesis by auto
    qed
    moreover have "nat ?ix < length ?hs1" using b by (simp split: if_splits) linarith+
    ultimately show ?thesis by (simp add: nth_list_update del: length_list_update)
  qed
  have "snd x \<noteq> Some h" if x: "x \<in> set (pl_pending ?s1)" for x
  proof -
    from pl_pending_set[OF x] obtain k where
      k: "k < nat (pl_size s)" "x \<in> set (pl_pend1 (?ps ! k) (?hs2 ! k))" by auto
    show ?thesis
    proof (cases "k = nat ?ix")
      case True
      with k b have "x \<in> set (pl_pend1 ((pl_pollset s ! nat ?ix)\<lparr>pf_revents := 0\<rparr>) (?hs2 ! k))" by simp
      then show ?thesis by (simp add: pl_pend1_def)
    next
      case False
      from k have "snd x = hi_hndl (?hs2 ! k)" by (auto dest: pl_pend1_snd)
      also have "\<dots> = hi_hndl (pl_hndls s ! k)" using hh[OF k(1)] False by simp
      finally have sx: "snd x = hi_hndl (pl_hndls s ! k)" .
      show ?thesis
      proof
        assume "snd x = Some h"
        with sx sl k(1) have "pl_hmem s h = int k" by (simp add: pl_slots_def)
        with False show False by simp
      qed
    qed
  qed
  moreover have "pf_revents (pl_pollset ?s1 ! nat ?ix) = 0" using b by simp
  ultimately show ?thesis using rm wf1 by auto
qed

lemma drains_results_in_pending:
  assumes "drains ev n s = Inr (map Some (take n pend) @ replicate (n - length pend) None, s')"
  shows "\<exists>rs. drains ev n s = Inr (rs, s') \<and> (\<forall>x. Some x \<in> set rs \<longrightarrow> x \<in> set pend)"
  using assms by (auto dest: in_set_takeD)

lemma ep_drains_subset:
  "ep_wf s \<Longrightarrow> \<exists>rs s'. drains nn_poller_event_epoll n s = Inr (rs, s') \<and>
      (\<forall>x. Some x \<in> set rs \<longrightarrow> x \<in> set (ep_pending s))"
proof -
  assume "ep_wf s"
  from ep_drains_spec[OF this, of n] obtain s' where
    d: "drains nn_poller_event_epoll n s =
      Inr (map Some (take n (ep_pending s)) @ replicate (n - length (ep_pending s)) None, s')" by blast
  from drains_results_in_pending[OF d] show ?thesis by blast
qed

lemma kq_drains_subset:
  "kq_wf s \<Longrightarrow> \<exists>rs s'. drains nn_poller_event_kqueue n s = Inr (rs, s') \<and>
      (\<forall>x. Some x \<in> set rs \<longrightarrow> x \<in> set (kq_pending s))"
proof -
  assume "kq_wf s"
  from kq_drains_spec[OF this, of n] obtain s' where
    d: "drains nn_poller_event_kqueue n s =
      Inr (map Some (take n (kq_pending s)) @ replicate (n - length (kq_pending s)) None, s')" by blast
  from drains_results_in_pending[OF d] show ?thesis by blast
qed

lemma pl_drains_subset:
  "pl_wf s \<Longrightarrow> \<exists>rs s'. drains nn_poller_event_poll n s = Inr (rs, s') \<and>
      (\<forall>x. Some x \<in> set rs \<longrightarrow> x \<in> set (pl_pending s))"
proof -
  assume "pl_wf s"
  from pl_drains_spec[OF this, of n] obtain s' where
    d: "drains nn_poller_event_poll n s =
      Inr (map Some (take n (pl_pending s)) @ replicate (n - length (pl_pending s)) None, s')" by blast
  from drains_results_in_pending[OF d] show ?thesis by blast
qed

lemma no_handle_delivered:
  assumes "\<exists>rs s'. drains ev n s = Inr (rs, s') \<and> (\<forall>x. Some x \<in> set rs \<longrightarrow> x \<in> set pend)"
    and "\<forall>x \<in> set pend. snd x \<noteq> h"
  shows "\<exists>rs s'. drains ev n s = Inr (rs, s') \<and> (\<forall>k. Some (k, h) \<notin> set rs)"
proof -
  from assms(1) obtain rs s' where d: "drains ev n s = Inr (rs, s')"
    and sub: "\<forall>x. Some x \<in> set rs \<longrightarrow> x \<in> set pend" by blast
  have "Some (k, h) \<notin> set rs" for k
  proof
    assume "Some (k, h) \<in> set rs"
    with sub have "(k, h) \<in> set pend" by blast
    with assms(2) show False by auto
  qed
  with d show ?thesis by blast
qed

text \<open>
  Claim C1: in every backend, after \<^verbatim>\<open>nn_poller_rm\<close> of a handle no call of
  \<^verbatim>\<open>nn_poller_event\<close> on the same batch returns that handle, for any kind and any number
  of calls, and every record between the cursor and the end that names the handle is
  empty. The kqueue backend finds the records by the descriptor, so the records must
  carry the descriptor of their handle (\<open>kq_idents\<close>); the poll backend needs the
  handle to be registered in its slot.
\<close>

theorem remove_neutralizes:
  "(ep_wf s \<longrightarrow>
      (\<exists>s1. nn_poller_rm_epoll s h = Inr s1 \<and>
         (\<forall>e \<in> set (ep_live s1). ee_ptr e = h \<longrightarrow> ee_events e = 0) \<and>
         (\<forall>n. \<exists>rs s2. drains nn_poller_event_epoll n s1 = Inr (rs, s2) \<and>
                (\<forall>k. Some (k, h) \<notin> set rs)))) \<and>
   (kq_wf q \<and> kq_idents q \<longrightarrow>
      (\<exists>q1. nn_poller_rm_kqueue q h = Inr q1 \<and>
         (\<forall>e \<in> set (kq_live q1). ke_udata e \<noteq> Some h) \<and>
         (\<forall>n. \<exists>rs q2. drains nn_poller_event_kqueue n q1 = Inr (rs, q2) \<and>
                (\<forall>k. Some (k, Some h) \<notin> set rs)))) \<and>
   (pl_wf p \<and> pl_slots p \<and> pl_registered p h \<and> pl_removed_ok p \<longrightarrow>
      (\<exists>p1. nn_poller_rm_poll p h = Inr p1 \<and>
         pf_revents (pl_pollset p1 ! nat (pl_hmem p h)) = 0 \<and>
         (\<forall>n. \<exists>rs p2. drains nn_poller_event_poll n p1 = Inr (rs, p2) \<and>
                (\<forall>k. Some (k, Some h) \<notin> set rs))))"
proof (intro conjI impI)
  assume wf: "ep_wf s"
  from ep_rm_spec[OF wf, of h] obtain s1 where
    s1: "nn_poller_rm_epoll s h = Inr s1" "ep_wf s1"
        "ep_pending s1 = filter (\<lambda>x. snd x \<noteq> h) (ep_pending s)"
        "ep_live s1 = map (ep_inv1 (\<lambda>m. 0) h) (ep_live s)" by blast
  have live: "\<forall>e \<in> set (ep_live s1). ee_ptr e = h \<longrightarrow> ee_events e = 0"
  proof
    fix e assume "e \<in> set (ep_live s1)"
    then obtain e0 where "e = ep_inv1 (\<lambda>m. 0) h e0" unfolding s1(4) by auto
    then show "ee_ptr e = h \<longrightarrow> ee_events e = 0" by (simp add: ep_inv1_def)
  qed
  have dr: "\<forall>n. \<exists>rs s2. drains nn_poller_event_epoll n s1 = Inr (rs, s2) \<and> (\<forall>k. Some (k, h) \<notin> set rs)"
  proof (rule allI)
    fix n
    show "\<exists>rs s2. drains nn_poller_event_epoll n s1 = Inr (rs, s2) \<and> (\<forall>k. Some (k, h) \<notin> set rs)"
      by (rule no_handle_delivered[OF ep_drains_subset[OF s1(2)]]) (simp add: s1(3))
  qed
  show "\<exists>s1. nn_poller_rm_epoll s h = Inr s1 \<and>
         (\<forall>e \<in> set (ep_live s1). ee_ptr e = h \<longrightarrow> ee_events e = 0) \<and>
         (\<forall>n. \<exists>rs s2. drains nn_poller_event_epoll n s1 = Inr (rs, s2) \<and>
                (\<forall>k. Some (k, h) \<notin> set rs))"
    by (intro exI[of _ s1] conjI s1(1) live dr)
next
  assume a: "kq_wf q \<and> kq_idents q"
  from kq_rm_spec[of q h] a obtain q1 where
    q1: "nn_poller_rm_kqueue q h = Inr q1" "kq_wf q1"
        "kq_live q1 = map (kq_inv1 (\<lambda>e. ke_ident e = unsigned_of (kh_fd (kq_hmem q h)))) (kq_live q)"
    by blast
  from kq_pending_after_rm[OF _ q1(3)] a have np: "\<forall>x \<in> set (kq_pending q1). snd x \<noteq> Some h" by simp
  have live: "\<forall>e \<in> set (kq_live q1). ke_udata e \<noteq> Some h"
  proof
    fix e assume "e \<in> set (kq_live q1)"
    then obtain e0 where e0: "e0 \<in> set (kq_live q)"
      "e = kq_inv1 (\<lambda>e. ke_ident e = unsigned_of (kh_fd (kq_hmem q h))) e0"
      unfolding q1(3) by auto
    show "ke_udata e \<noteq> Some h"
    proof
      assume u: "ke_udata e = Some h"
      with e0(2) have "ke_udata e0 = Some h" "ke_ident e0 \<noteq> unsigned_of (kh_fd (kq_hmem q h))"
        by (auto simp: kq_inv1_def split: if_splits)
      with a e0(1) show False by (auto simp: kq_idents_def)
    qed
  qed
  have dr: "\<forall>n. \<exists>rs q2. drains nn_poller_event_kqueue n q1 = Inr (rs, q2) \<and> (\<forall>k. Some (k, Some h) \<notin> set rs)"
  proof (rule allI)
    fix n
    show "\<exists>rs q2. drains nn_poller_event_kqueue n q1 = Inr (rs, q2) \<and> (\<forall>k. Some (k, Some h) \<notin> set rs)"
      by (rule no_handle_delivered[OF kq_drains_subset[OF q1(2)] np])
  qed
  show "\<exists>q1. nn_poller_rm_kqueue q h = Inr q1 \<and>
         (\<forall>e \<in> set (kq_live q1). ke_udata e \<noteq> Some h) \<and>
         (\<forall>n. \<exists>rs q2. drains nn_poller_event_kqueue n q1 = Inr (rs, q2) \<and>
                (\<forall>k. Some (k, Some h) \<notin> set rs))"
    by (intro exI[of _ q1] conjI q1(1) live dr)
next
  assume a: "pl_wf p \<and> pl_slots p \<and> pl_registered p h \<and> pl_removed_ok p"
  from pl_rm_spec[of p h] a obtain p1 where
    p1: "nn_poller_rm_poll p h = Inr p1" "pl_wf p1" "\<forall>x \<in> set (pl_pending p1). snd x \<noteq> Some h"
        "pf_revents (pl_pollset p1 ! nat (pl_hmem p h)) = 0" by blast
  have dr: "\<forall>n. \<exists>rs p2. drains nn_poller_event_poll n p1 = Inr (rs, p2) \<and> (\<forall>k. Some (k, Some h) \<notin> set rs)"
  proof (rule allI)
    fix n
    show "\<exists>rs p2. drains nn_poller_event_poll n p1 = Inr (rs, p2) \<and> (\<forall>k. Some (k, Some h) \<notin> set rs)"
      by (rule no_handle_delivered[OF pl_drains_subset[OF p1(2)] p1(3)])
  qed
  show "\<exists>p1. nn_poller_rm_poll p h = Inr p1 \<and>
         pf_revents (pl_pollset p1 ! nat (pl_hmem p h)) = 0 \<and>
         (\<forall>n. \<exists>rs p2. drains nn_poller_event_poll n p1 = Inr (rs, p2) \<and>
                (\<forall>k. Some (k, Some h) \<notin> set rs))"
    by (intro exI[of _ p1] conjI p1(1) p1(4) dr)
qed

text \<open>A kqueue buffer with a read record of handle 7 and a write record of handle 8.\<close>

definition kq_w1 :: kq_poller where
  "kq_w1 = kq_ex\<lparr>kq_nevents := 2,
     kq_events := [\<lparr>ke_ident = 3, ke_filter = EVFILT_READ, ke_flags = 0, ke_udata = Some 7\<rparr>,
                   \<lparr>ke_ident = 4, ke_filter = EVFILT_WRITE, ke_flags = 0, ke_udata = Some 8\<rparr>]
                  @ replicate 30 \<lparr>ke_ident = 0, ke_filter = 0, ke_flags = 0, ke_udata = None\<rparr>,
     kq_hmem := (\<lambda>h. if h = 7 then \<lparr>kh_fd = 3, kh_events = 1\<rparr> else \<lparr>kh_fd = 4, kh_events = 2\<rparr>)\<rparr>"

lemma kq_w1_facts:
  "kq_wf kq_w1" "kq_idents kq_w1"
  "kq_live kq_w1 = [\<lparr>ke_ident = 3, ke_filter = EVFILT_READ, ke_flags = 0, ke_udata = Some 7\<rparr>,
                   \<lparr>ke_ident = 4, ke_filter = EVFILT_WRITE, ke_flags = 0, ke_udata = Some 8\<rparr>]"
proof -
  show l: "kq_live kq_w1 = [\<lparr>ke_ident = 3, ke_filter = EVFILT_READ, ke_flags = 0, ke_udata = Some 7\<rparr>,
                   \<lparr>ke_ident = 4, ke_filter = EVFILT_WRITE, ke_flags = 0, ke_udata = Some 8\<rparr>]"
    by (simp add: kq_w1_def kq_ex_def kq_live_def)
  show "kq_wf kq_w1"
    unfolding kq_wf_def l by (simp add: kq_w1_def kq_ex_def kq_known_def)
  show "kq_idents kq_w1"
    unfolding kq_idents_def l by (simp add: kq_w1_def kq_ex_def unsigned_of_def)
qed

lemma ep_w10_facts:
  "ep_wf ep_w10"
  by (simp add: ep_w10_def ep_ex_def ep_wf_def)

lemma pl_w10_facts:
  "pl_wf pl_w10" "pl_slots pl_w10" "pl_registered pl_w10 7" "pl_removed_ok pl_w10" "pl_hmem pl_w10 7 = 0"
proof -
  have u: "k < 2 \<Longrightarrow> k = 0 \<or> k = Suc 0" for k :: nat by auto
  show "pl_wf pl_w10" by (simp add: pl_w10_def pl_ex_def pl_wf_def)
  show "pl_slots pl_w10"
    by (auto simp add: pl_w10_def pl_ex_def pl_slots_def dest!: u)
  show "pl_registered pl_w10 7" by (simp add: pl_w10_def pl_ex_def pl_registered_def)
  show "pl_removed_ok pl_w10" by (simp add: pl_w10_def pl_ex_def pl_removed_ok_def)
  show "pl_hmem pl_w10 7 = 0" by (simp add: pl_w10_def pl_ex_def)
qed

text \<open>The theorem at the three example buffers, for handle 7.\<close>

theorem remove_neutralizes_witness:
  "ep_wf ep_w10 \<and> kq_wf kq_w1 \<and> kq_idents kq_w1 \<and>
   pl_wf pl_w10 \<and> pl_slots pl_w10 \<and> pl_registered pl_w10 7 \<and> pl_removed_ok pl_w10 \<and>
   (\<exists>s1. nn_poller_rm_epoll ep_w10 7 = Inr s1 \<and>
         (\<forall>e \<in> set (ep_live s1). ee_ptr e = 7 \<longrightarrow> ee_events e = 0) \<and>
         (\<forall>n. \<exists>rs s2. drains nn_poller_event_epoll n s1 = Inr (rs, s2) \<and>
                (\<forall>k. Some (k, 7) \<notin> set rs))) \<and>
   (\<exists>q1. nn_poller_rm_kqueue kq_w1 7 = Inr q1 \<and>
         (\<forall>e \<in> set (kq_live q1). ke_udata e \<noteq> Some 7) \<and>
         (\<forall>n. \<exists>rs q2. drains nn_poller_event_kqueue n q1 = Inr (rs, q2) \<and>
                (\<forall>k. Some (k, Some 7) \<notin> set rs))) \<and>
   (\<exists>p1. nn_poller_rm_poll pl_w10 7 = Inr p1 \<and>
         pf_revents (pl_pollset p1 ! 0) = 0 \<and>
         (\<forall>n. \<exists>rs p2. drains nn_poller_event_poll n p1 = Inr (rs, p2) \<and>
                (\<forall>k. Some (k, Some 7) \<notin> set rs)))"
  using remove_neutralizes[of ep_w10 7 kq_w1 pl_w10] ep_w10_facts kq_w1_facts(1,2) pl_w10_facts
  by (simp del: drains.simps)

subsection \<open>\<^verbatim>\<open>nn_poller_reset_in\<close> and \<^verbatim>\<open>nn_poller_reset_out\<close>\<close>

lemma pl_pend1_clear_in:
  "pl_pend1 (p\<lparr>pf_events := ev, pf_revents := pf_revents p AND NOT POLLIN\<rparr>) hi
     = filter (\<lambda>x. x \<noteq> (NN_POLLER_IN, hi_hndl hi)) (pl_pend1 p hi)"
  by (simp add: pl_pend1_def pl_in_out w16_and_not_self w16_and_not_idem)

lemma pl_pend1_clear_out:
  "pl_pend1 (p\<lparr>pf_events := ev, pf_revents := pf_revents p AND NOT POLLOUT\<rparr>) hi
     = filter (\<lambda>x. x \<noteq> (NN_POLLER_OUT, hi_hndl hi)) (pl_pend1 p hi)"
  by (simp add: pl_pend1_def pl_in_out w16_and_not_self w16_and_not_idem)

lemma pl_pending_update_slot:
  assumes wf: "pl_wf s" and sl: "pl_slots s" and reg: "pl_registered s h"
    and p': "pl_pend1 p' (pl_hndls s ! nat (pl_hmem s h))
              = filter (\<lambda>x. x \<noteq> (k, Some h)) (pl_pend1 (pl_pollset s ! nat (pl_hmem s h)) (pl_hndls s ! nat (pl_hmem s h)))"
  shows "pl_pending (s\<lparr>pl_pollset := (pl_pollset s)[nat (pl_hmem s h) := p']\<rparr>)
           = filter (\<lambda>x. x \<noteq> (k, Some h)) (pl_pending s)"
proof -
  let ?ix = "nat (pl_hmem s h)"
  let ?s1 = "s\<lparr>pl_pollset := (pl_pollset s)[?ix := p']\<rparr>"
  from wf reg have b: "0 \<le> pl_hmem s h" "?ix < nat (pl_size s)" "?ix < length (pl_pollset s)"
    by (auto simp: pl_wf_def pl_registered_def)
  have "pl_slot ?s1 j = filter (\<lambda>x. x \<noteq> (k, Some h)) (pl_slot s j)" if j: "j < nat (pl_size s)" for j
  proof (cases "j = ?ix")
    case True
    with b p' show ?thesis by (simp add: pl_slot_def)
  next
    case False
    have "x \<noteq> (k, Some h)" if "x \<in> set (pl_slot s j)" for x
    proof
      assume "x = (k, Some h)"
      with that have "hi_hndl (pl_hndls s ! j) = Some h"
        using pl_pend1_snd[of x "pl_pollset s ! j" "pl_hndls s ! j"] by (simp add: pl_slot_def)
      with sl j have "pl_hmem s h = int j" by (simp add: pl_slots_def)
      with False show False by simp
    qed
    then have "filter (\<lambda>x. x \<noteq> (k, Some h)) (pl_slot s j) = pl_slot s j"
      by (simp add: filter_id_conv)
    with False show ?thesis by (simp add: pl_slot_def)
  qed
  then have "map (pl_slot ?s1) [nat (pl_index s) ..< nat (pl_size s)]
      = map (\<lambda>j. filter (\<lambda>x. x \<noteq> (k, Some h)) (pl_slot s j)) [nat (pl_index s) ..< nat (pl_size s)]"
    by (intro map_cong) auto
  then have "concat (map (pl_slot ?s1) [nat (pl_index s) ..< nat (pl_size s)])
      = concat (map (\<lambda>j. filter (\<lambda>x. x \<noteq> (k, Some h)) (pl_slot s j)) [nat (pl_index s) ..< nat (pl_size s)])"
    by (rule arg_cong)
  then show ?thesis by (simp add: pl_pending_def filter_concat comp_def)
qed

lemma pl_reset_in_spec:
  assumes wf: "pl_wf s" and sl: "pl_slots s" and reg: "pl_registered s h"
  shows "\<exists>s1. nn_poller_reset_in_poll s h = Inr s1 \<and> pl_wf s1 \<and>
           pl_pending s1 = filter (\<lambda>x. x \<noteq> (NN_POLLER_IN, Some h)) (pl_pending s)"
proof -
  let ?ix = "nat (pl_hmem s h)"
  let ?p = "pl_pollset s ! ?ix"
  let ?p' = "?p\<lparr>pf_events := pf_events ?p AND NOT POLLIN, pf_revents := pf_revents ?p AND NOT POLLIN\<rparr>"
  from wf reg have b: "inb (pl_pollset s) (pl_hmem s h)" "hi_hndl (pl_hndls s ! ?ix) = Some h"
    by (auto simp: pl_wf_def pl_registered_def inb_def)
  have r: "nn_poller_reset_in_poll s h = Inr (s\<lparr>pl_pollset := (pl_pollset s)[?ix := ?p']\<rparr>)"
    using b by (simp add: nn_poller_reset_in_poll_def Let_def)
  have "pl_pend1 ?p' (pl_hndls s ! ?ix)
      = filter (\<lambda>x. x \<noteq> (NN_POLLER_IN, Some h)) (pl_pend1 ?p (pl_hndls s ! ?ix))"
    using pl_pend1_clear_in[of ?p _ "pl_hndls s ! ?ix"] b(2) by simp
  from pl_pending_update_slot[OF wf sl reg this] r wf show ?thesis by (simp add: pl_wf_def)
qed

lemma pl_reset_out_spec:
  assumes wf: "pl_wf s" and sl: "pl_slots s" and reg: "pl_registered s h"
  shows "\<exists>s1. nn_poller_reset_out_poll s h = Inr s1 \<and> pl_wf s1 \<and>
           pl_pending s1 = filter (\<lambda>x. x \<noteq> (NN_POLLER_OUT, Some h)) (pl_pending s)"
proof -
  let ?ix = "nat (pl_hmem s h)"
  let ?p = "pl_pollset s ! ?ix"
  let ?p' = "?p\<lparr>pf_events := pf_events ?p AND NOT POLLOUT, pf_revents := pf_revents ?p AND NOT POLLOUT\<rparr>"
  from wf reg have b: "inb (pl_pollset s) (pl_hmem s h)" "hi_hndl (pl_hndls s ! ?ix) = Some h"
    by (auto simp: pl_wf_def pl_registered_def inb_def)
  have r: "nn_poller_reset_out_poll s h = Inr (s\<lparr>pl_pollset := (pl_pollset s)[?ix := ?p']\<rparr>)"
    using b by (simp add: nn_poller_reset_out_poll_def Let_def)
  have "pl_pend1 ?p' (pl_hndls s ! ?ix)
      = filter (\<lambda>x. x \<noteq> (NN_POLLER_OUT, Some h)) (pl_pend1 ?p (pl_hndls s ! ?ix))"
    using pl_pend1_clear_out[of ?p _ "pl_hndls s ! ?ix"] b(2) by simp
  from pl_pending_update_slot[OF wf sl reg this] r wf show ?thesis by (simp add: pl_wf_def)
qed

text \<open>Draining to the end: from some number of calls on, a buffer that holds the list
  \<open>pend\<close> filtered gives what the other buffer gives, filtered.\<close>

lemma delivered_filter:
  assumes "\<And>n. delivered ev n s = take n pend" and "\<And>n. delivered ev n s1 = take n (filter P pend)"
  shows "\<exists>N. \<forall>n\<ge>N. delivered ev n s1 = filter P (delivered ev n s)"
proof (intro exI[of _ "length pend"] allI impI)
  fix n assume "length pend \<le> n"
  moreover from this have "length (filter P pend) \<le> n"
    using length_filter_le[of P pend] by linarith
  ultimately show "delivered ev n s1 = filter P (delivered ev n s)" using assms by simp
qed

lemma kind_not_delivered:
  assumes "\<exists>rs s'. drains ev n s = Inr (rs, s') \<and> (\<forall>x. Some x \<in> set rs \<longrightarrow> x \<in> set pend)"
    and "x \<notin> set pend"
  shows "\<exists>rs s'. drains ev n s = Inr (rs, s') \<and> Some x \<notin> set rs"
  using assms by blast


text \<open>
  What the two resets do in each backend. In the epoll and the poll backend the batch,
  drained to the end, gives what it would have given without the one pair of the kind
  and the handle. In the kqueue backend the records of that filter on the descriptor of
  the handle are emptied, whatever their flags, and all other records stay as they are.
  The hypotheses are the invariants of a buffer: \<open>ep_consistent\<close> says that a record has
  the IN (OUT) bit only if its handle asked for it, which is what the early return of the
  epoll functions relies on.
\<close>

lemma reset_clears_kind:
  "(ep_wf s \<and> ep_consistent s \<longrightarrow>
      (\<exists>s1. nn_poller_reset_in_epoll s h = Inr s1 \<and>
         (\<forall>n. \<exists>rs s2. drains nn_poller_event_epoll n s1 = Inr (rs, s2) \<and>
                Some (NN_POLLER_IN, h) \<notin> set rs) \<and>
         (\<exists>N. \<forall>n\<ge>N. delivered nn_poller_event_epoll n s1
                 = filter (\<lambda>x. x \<noteq> (NN_POLLER_IN, h)) (delivered nn_poller_event_epoll n s))) \<and>
      (\<exists>s1. nn_poller_reset_out_epoll s h = Inr s1 \<and>
         (\<forall>n. \<exists>rs s2. drains nn_poller_event_epoll n s1 = Inr (rs, s2) \<and>
                Some (NN_POLLER_OUT, h) \<notin> set rs) \<and>
         (\<exists>N. \<forall>n\<ge>N. delivered nn_poller_event_epoll n s1
                 = filter (\<lambda>x. x \<noteq> (NN_POLLER_OUT, h)) (delivered nn_poller_event_epoll n s)))) \<and>
   (pl_wf p \<and> pl_slots p \<and> pl_registered p h \<longrightarrow>
      (\<exists>p1. nn_poller_reset_in_poll p h = Inr p1 \<and>
         (\<forall>n. \<exists>rs p2. drains nn_poller_event_poll n p1 = Inr (rs, p2) \<and>
                Some (NN_POLLER_IN, Some h) \<notin> set rs) \<and>
         (\<exists>N. \<forall>n\<ge>N. delivered nn_poller_event_poll n p1
                 = filter (\<lambda>x. x \<noteq> (NN_POLLER_IN, Some h)) (delivered nn_poller_event_poll n p))) \<and>
      (\<exists>p1. nn_poller_reset_out_poll p h = Inr p1 \<and>
         (\<forall>n. \<exists>rs p2. drains nn_poller_event_poll n p1 = Inr (rs, p2) \<and>
                Some (NN_POLLER_OUT, Some h) \<notin> set rs) \<and>
         (\<exists>N. \<forall>n\<ge>N. delivered nn_poller_event_poll n p1
                 = filter (\<lambda>x. x \<noteq> (NN_POLLER_OUT, Some h)) (delivered nn_poller_event_poll n p)))) \<and>
   (kq_wf q \<and> kq_idents q \<longrightarrow>
      (\<exists>q1. nn_poller_reset_in_kqueue q h = Inr q1 \<and>
         (\<forall>n. \<exists>rs q2. drains nn_poller_event_kqueue n q1 = Inr (rs, q2) \<and>
                Some (NN_POLLER_IN, Some h) \<notin> set rs) \<and>
         kq_live q1 = map (kq_inv1 (\<lambda>e. ke_ident e = unsigned_of (kh_fd (kq_hmem q h)) \<and>
                                       ke_filter e = EVFILT_READ)) (kq_live q)) \<and>
      (\<exists>q1. nn_poller_reset_out_kqueue q h ans = Inr q1 \<and>
         (\<forall>n. \<exists>rs q2. drains nn_poller_event_kqueue n q1 = Inr (rs, q2) \<and>
                Some (NN_POLLER_OUT, Some h) \<notin> set rs) \<and>
         kq_live q1 = map (kq_inv1 (\<lambda>e. ke_ident e = unsigned_of (kh_fd (kq_hmem q h)) \<and>
                                       ke_filter e = EVFILT_WRITE)) (kq_live q)))"
proof (intro conjI impI)
  assume a: "ep_wf s \<and> ep_consistent s"
  from ep_reset_in_spec[of s h] a obtain s1 where
    s1: "nn_poller_reset_in_epoll s h = Inr s1" "ep_wf s1"
        "ep_pending s1 = filter (\<lambda>x. x \<noteq> (NN_POLLER_IN, h)) (ep_pending s)" by blast
  have dr: "\<forall>n. \<exists>rs s2. drains nn_poller_event_epoll n s1 = Inr (rs, s2) \<and> Some (NN_POLLER_IN, h) \<notin> set rs"
  proof (rule allI)
    fix n
    show "\<exists>rs s2. drains nn_poller_event_epoll n s1 = Inr (rs, s2) \<and> Some (NN_POLLER_IN, h) \<notin> set rs"
      by (rule kind_not_delivered[OF ep_drains_subset[OF s1(2)]]) (simp add: s1(3))
  qed
  have fl: "\<exists>N. \<forall>n\<ge>N. delivered nn_poller_event_epoll n s1
                 = filter (\<lambda>x. x \<noteq> (NN_POLLER_IN, h)) (delivered nn_poller_event_epoll n s)"
    by (rule delivered_filter[of _ _ "ep_pending s"]) (use a s1 in \<open>simp_all add: ep_delivered\<close>)
  show "\<exists>s1. nn_poller_reset_in_epoll s h = Inr s1 \<and>
         (\<forall>n. \<exists>rs s2. drains nn_poller_event_epoll n s1 = Inr (rs, s2) \<and>
                Some (NN_POLLER_IN, h) \<notin> set rs) \<and>
         (\<exists>N. \<forall>n\<ge>N. delivered nn_poller_event_epoll n s1
                 = filter (\<lambda>x. x \<noteq> (NN_POLLER_IN, h)) (delivered nn_poller_event_epoll n s))"
    by (intro exI[of _ s1] conjI s1(1) dr fl)
next
  assume a: "ep_wf s \<and> ep_consistent s"
  from ep_reset_out_spec[of s h] a obtain s1 where
    s1: "nn_poller_reset_out_epoll s h = Inr s1" "ep_wf s1"
        "ep_pending s1 = filter (\<lambda>x. x \<noteq> (NN_POLLER_OUT, h)) (ep_pending s)" by blast
  have dr: "\<forall>n. \<exists>rs s2. drains nn_poller_event_epoll n s1 = Inr (rs, s2) \<and> Some (NN_POLLER_OUT, h) \<notin> set rs"
  proof (rule allI)
    fix n
    show "\<exists>rs s2. drains nn_poller_event_epoll n s1 = Inr (rs, s2) \<and> Some (NN_POLLER_OUT, h) \<notin> set rs"
      by (rule kind_not_delivered[OF ep_drains_subset[OF s1(2)]]) (simp add: s1(3))
  qed
  have fl: "\<exists>N. \<forall>n\<ge>N. delivered nn_poller_event_epoll n s1
                 = filter (\<lambda>x. x \<noteq> (NN_POLLER_OUT, h)) (delivered nn_poller_event_epoll n s)"
    by (rule delivered_filter[of _ _ "ep_pending s"]) (use a s1 in \<open>simp_all add: ep_delivered\<close>)
  show "\<exists>s1. nn_poller_reset_out_epoll s h = Inr s1 \<and>
         (\<forall>n. \<exists>rs s2. drains nn_poller_event_epoll n s1 = Inr (rs, s2) \<and>
                Some (NN_POLLER_OUT, h) \<notin> set rs) \<and>
         (\<exists>N. \<forall>n\<ge>N. delivered nn_poller_event_epoll n s1
                 = filter (\<lambda>x. x \<noteq> (NN_POLLER_OUT, h)) (delivered nn_poller_event_epoll n s))"
    by (intro exI[of _ s1] conjI s1(1) dr fl)
next
  assume a: "pl_wf p \<and> pl_slots p \<and> pl_registered p h"
  from pl_reset_in_spec[of p h] a obtain p1 where
    p1: "nn_poller_reset_in_poll p h = Inr p1" "pl_wf p1"
        "pl_pending p1 = filter (\<lambda>x. x \<noteq> (NN_POLLER_IN, Some h)) (pl_pending p)" by blast
  have dr: "\<forall>n. \<exists>rs p2. drains nn_poller_event_poll n p1 = Inr (rs, p2) \<and> Some (NN_POLLER_IN, Some h) \<notin> set rs"
  proof (rule allI)
    fix n
    show "\<exists>rs p2. drains nn_poller_event_poll n p1 = Inr (rs, p2) \<and> Some (NN_POLLER_IN, Some h) \<notin> set rs"
      by (rule kind_not_delivered[OF pl_drains_subset[OF p1(2)]]) (simp add: p1(3))
  qed
  have fl: "\<exists>N. \<forall>n\<ge>N. delivered nn_poller_event_poll n p1
                 = filter (\<lambda>x. x \<noteq> (NN_POLLER_IN, Some h)) (delivered nn_poller_event_poll n p)"
    by (rule delivered_filter[of _ _ "pl_pending p"]) (use a p1 in \<open>simp_all add: pl_delivered\<close>)
  show "\<exists>p1. nn_poller_reset_in_poll p h = Inr p1 \<and>
         (\<forall>n. \<exists>rs p2. drains nn_poller_event_poll n p1 = Inr (rs, p2) \<and>
                Some (NN_POLLER_IN, Some h) \<notin> set rs) \<and>
         (\<exists>N. \<forall>n\<ge>N. delivered nn_poller_event_poll n p1
                 = filter (\<lambda>x. x \<noteq> (NN_POLLER_IN, Some h)) (delivered nn_poller_event_poll n p))"
    by (intro exI[of _ p1] conjI p1(1) dr fl)
next
  assume a: "pl_wf p \<and> pl_slots p \<and> pl_registered p h"
  from pl_reset_out_spec[of p h] a obtain p1 where
    p1: "nn_poller_reset_out_poll p h = Inr p1" "pl_wf p1"
        "pl_pending p1 = filter (\<lambda>x. x \<noteq> (NN_POLLER_OUT, Some h)) (pl_pending p)" by blast
  have dr: "\<forall>n. \<exists>rs p2. drains nn_poller_event_poll n p1 = Inr (rs, p2) \<and> Some (NN_POLLER_OUT, Some h) \<notin> set rs"
  proof (rule allI)
    fix n
    show "\<exists>rs p2. drains nn_poller_event_poll n p1 = Inr (rs, p2) \<and> Some (NN_POLLER_OUT, Some h) \<notin> set rs"
      by (rule kind_not_delivered[OF pl_drains_subset[OF p1(2)]]) (simp add: p1(3))
  qed
  have fl: "\<exists>N. \<forall>n\<ge>N. delivered nn_poller_event_poll n p1
                 = filter (\<lambda>x. x \<noteq> (NN_POLLER_OUT, Some h)) (delivered nn_poller_event_poll n p)"
    by (rule delivered_filter[of _ _ "pl_pending p"]) (use a p1 in \<open>simp_all add: pl_delivered\<close>)
  show "\<exists>p1. nn_poller_reset_out_poll p h = Inr p1 \<and>
         (\<forall>n. \<exists>rs p2. drains nn_poller_event_poll n p1 = Inr (rs, p2) \<and>
                Some (NN_POLLER_OUT, Some h) \<notin> set rs) \<and>
         (\<exists>N. \<forall>n\<ge>N. delivered nn_poller_event_poll n p1
                 = filter (\<lambda>x. x \<noteq> (NN_POLLER_OUT, Some h)) (delivered nn_poller_event_poll n p))"
    by (intro exI[of _ p1] conjI p1(1) dr fl)
next
  assume a: "kq_wf q \<and> kq_idents q"
  then have kn: "\<forall>e \<in> set (kq_live q). kq_known e" by (simp add: kq_wf_def)
  from kq_reset_in_spec[of q h] a obtain q1 where
    q1: "nn_poller_reset_in_kqueue q h = Inr q1" "kq_wf q1"
        "kq_live q1 = map (kq_inv1 (\<lambda>e. ke_ident e = unsigned_of (kh_fd (kq_hmem q h)) \<and>
                                       ke_filter e = EVFILT_READ)) (kq_live q)" by blast
  from kq_pending_after_reset_in[OF _ kn q1(3)] a
  have np: "(NN_POLLER_IN, Some h) \<notin> set (kq_pending q1)" by simp
  have dr: "\<forall>n. \<exists>rs q2. drains nn_poller_event_kqueue n q1 = Inr (rs, q2) \<and> Some (NN_POLLER_IN, Some h) \<notin> set rs"
  proof (rule allI)
    fix n
    show "\<exists>rs q2. drains nn_poller_event_kqueue n q1 = Inr (rs, q2) \<and> Some (NN_POLLER_IN, Some h) \<notin> set rs"
      by (rule kind_not_delivered[OF kq_drains_subset[OF q1(2)] np])
  qed
  show "\<exists>q1. nn_poller_reset_in_kqueue q h = Inr q1 \<and>
         (\<forall>n. \<exists>rs q2. drains nn_poller_event_kqueue n q1 = Inr (rs, q2) \<and>
                Some (NN_POLLER_IN, Some h) \<notin> set rs) \<and>
         kq_live q1 = map (kq_inv1 (\<lambda>e. ke_ident e = unsigned_of (kh_fd (kq_hmem q h)) \<and>
                                       ke_filter e = EVFILT_READ)) (kq_live q)"
    by (intro exI[of _ q1] conjI q1(1) dr q1(3))
next
  assume a: "kq_wf q \<and> kq_idents q"
  from kq_reset_out_spec[of q h ans] a obtain q1 where
    q1: "nn_poller_reset_out_kqueue q h ans = Inr q1" "kq_wf q1"
        "kq_live q1 = map (kq_inv1 (\<lambda>e. ke_ident e = unsigned_of (kh_fd (kq_hmem q h)) \<and>
                                       ke_filter e = EVFILT_WRITE)) (kq_live q)" by blast
  from kq_pending_after_reset_out[OF _ q1(3)] a
  have np: "(NN_POLLER_OUT, Some h) \<notin> set (kq_pending q1)" by simp
  have dr: "\<forall>n. \<exists>rs q2. drains nn_poller_event_kqueue n q1 = Inr (rs, q2) \<and> Some (NN_POLLER_OUT, Some h) \<notin> set rs"
  proof (rule allI)
    fix n
    show "\<exists>rs q2. drains nn_poller_event_kqueue n q1 = Inr (rs, q2) \<and> Some (NN_POLLER_OUT, Some h) \<notin> set rs"
      by (rule kind_not_delivered[OF kq_drains_subset[OF q1(2)] np])
  qed
  show "\<exists>q1. nn_poller_reset_out_kqueue q h ans = Inr q1 \<and>
         (\<forall>n. \<exists>rs q2. drains nn_poller_event_kqueue n q1 = Inr (rs, q2) \<and>
                Some (NN_POLLER_OUT, Some h) \<notin> set rs) \<and>
         kq_live q1 = map (kq_inv1 (\<lambda>e. ke_ident e = unsigned_of (kh_fd (kq_hmem q h)) \<and>
                                       ke_filter e = EVFILT_WRITE)) (kq_live q)"
    by (intro exI[of _ q1] conjI q1(1) dr q1(3))
qed

text \<open>The epoll example buffer, with handles that ask for reading and writing.\<close>

definition ep_w2 :: ep_poller where
  "ep_w2 = ep_w10\<lparr>ep_hmem := (\<lambda>h. \<lparr>eh_fd = int h, eh_events = 5\<rparr>)\<rparr>"

lemma ep_w2_facts: "ep_wf ep_w2" "ep_consistent ep_w2"
proof -
  have l: "ep_live ep_w2 = [\<lparr>ee_events = 5, ee_ptr = 7\<rparr>, \<lparr>ee_events = 1, ee_ptr = 8\<rparr>]"
    by (simp add: ep_w2_def ep_w10_def ep_ex_def ep_live_def)
  show "ep_wf ep_w2" by (simp add: ep_w2_def ep_w10_def ep_ex_def ep_wf_def)
  show "ep_consistent ep_w2"
    unfolding ep_consistent_def ep_honours_def l
    by (simp add: ep_w2_def EPOLLIN_def EPOLLOUT_def)
qed

text \<open>
  A remark on the kqueue backend, for a buffer that holds no IN event of the handle: a
  read record with \<^verbatim>\<open>EV_EOF\<close> is delivered as ERR, and \<^verbatim>\<open>nn_poller_reset_in\<close> empties it
  with the other read records of the descriptor. The buffer below holds one such record
  for handle 7.
\<close>

definition kq_c2 :: kq_poller where
  "kq_c2 = kq_ex\<lparr>kq_nevents := 1,
     kq_events := [\<lparr>ke_ident = 3, ke_filter = EVFILT_READ, ke_flags = EV_EOF, ke_udata = Some 7\<rparr>]
                  @ replicate 31 \<lparr>ke_ident = 0, ke_filter = 0, ke_flags = 0, ke_udata = None\<rparr>,
     kq_hmem := (\<lambda>h. \<lparr>kh_fd = 3, kh_events = 1\<rparr>)\<rparr>"

lemma reset_in_empties_eof_record:
  "delivered nn_poller_event_kqueue 3 kq_c2 = [(NN_POLLER_ERR, Some 7)] \<and>
   (case nn_poller_reset_in_kqueue kq_c2 7 of
      Inl f \<Rightarrow> False
    | Inr q1 \<Rightarrow> delivered nn_poller_event_kqueue 3 q1 = [])"
proof -
  have l: "kq_live kq_c2 = [\<lparr>ke_ident = 3, ke_filter = EVFILT_READ, ke_flags = EV_EOF, ke_udata = Some 7\<rparr>]"
    by (simp add: kq_c2_def kq_ex_def kq_live_def)
  have wf: "kq_wf kq_c2"
    unfolding kq_wf_def l by (simp add: kq_c2_def kq_ex_def kq_known_def EV_EOF_def)
  have d1: "delivered nn_poller_event_kqueue 3 kq_c2 = [(NN_POLLER_ERR, Some 7)]"
    by (simp add: kq_delivered[OF wf] kq_pending_def l kq_pend1_def kq_kind_def EV_EOF_def)
  from kq_reset_in_spec[OF wf, of 7] obtain q1 where
    q1: "nn_poller_reset_in_kqueue kq_c2 7 = Inr q1" "kq_wf q1"
        "kq_live q1 = map (kq_inv1 (\<lambda>e. ke_ident e = unsigned_of (kh_fd (kq_hmem kq_c2 7)) \<and>
                                       ke_filter e = EVFILT_READ)) (kq_live kq_c2)" by blast
  have fd: "unsigned_of (kh_fd (kq_hmem kq_c2 7)) = 3"
    by (simp add: kq_c2_def unsigned_of_def)
  have "kq_pending q1 = []"
    by (simp add: kq_pending_def q1(3) l fd kq_inv1_def kq_pend1_def)
  then have "delivered nn_poller_event_kqueue 3 q1 = []" by (simp add: kq_delivered[OF q1(2)])
  with d1 q1(1) show ?thesis by simp
qed

text \<open>
  The operating system reports at most one record for a descriptor and a filter in one
  batch.
\<close>

definition kq_coalesced :: "kq_poller \<Rightarrow> bool" where
  "kq_coalesced s \<longleftrightarrow> distinct (map (\<lambda>e. (ke_ident e, ke_filter e)) (kq_live s))"

lemma kq_pending_filter:
  assumes id: "kq_idents s" and kn: "\<forall>e \<in> set (kq_live s). kq_known e" and co: "kq_coalesced s"
    and l: "kq_live s1 = map (kq_inv1 (\<lambda>e. ke_ident e = unsigned_of (kh_fd (kq_hmem s h)) \<and>
                                        ke_filter e = flt)) (kq_live s)"
    and kf: "\<And>e. kq_known e \<Longrightarrow> kq_kind e = k \<Longrightarrow> ke_filter e = flt"
    and inp: "(k, Some h) \<in> set (kq_pending s)"
  shows "kq_pending s1 = filter (\<lambda>x. x \<noteq> (k, Some h)) (kq_pending s)"
proof -
  let ?P = "\<lambda>e. ke_ident e = unsigned_of (kh_fd (kq_hmem s h)) \<and> ke_filter e = flt"
  from inp obtain e0 where e0: "e0 \<in> set (kq_live s)" "(k, Some h) \<in> set (kq_pend1 e0)"
    unfolding kq_pending_def by auto
  from e0(2) have u0: "ke_udata e0 = Some h" and k0: "kq_kind e0 = k"
    by (auto simp: kq_pend1_def split: option.splits)
  from kn e0(1) have "kq_known e0" by simp
  from kf[OF this k0] have f0: "ke_filter e0 = flt" .
  from id e0(1) u0 have i0: "ke_ident e0 = unsigned_of (kh_fd (kq_hmem s h))"
    by (simp add: kq_idents_def)
  from co have inj: "inj_on (\<lambda>e. (ke_ident e, ke_filter e)) (set (kq_live s))"
    by (simp add: kq_coalesced_def distinct_map)
  have one: "kq_pend1 (kq_inv1 ?P e) = filter (\<lambda>x. x \<noteq> (k, Some h)) (kq_pend1 e)"
    if e: "e \<in> set (kq_live s)" for e
  proof (cases "?P e")
    case True
    with i0 f0 have "(ke_ident e, ke_filter e) = (ke_ident e0, ke_filter e0)" by simp
    with inj e e0(1) have "e = e0" by (auto dest: inj_onD)
    with True u0 k0 show ?thesis by (simp add: kq_inv1_def kq_pend1_def)
  next
    case False
    have "(k, Some h) \<notin> set (kq_pend1 e)"
    proof
      assume a: "(k, Some h) \<in> set (kq_pend1 e)"
      then have u: "ke_udata e = Some h" and kk: "kq_kind e = k"
        by (auto simp: kq_pend1_def split: option.splits)
      from kn e have "kq_known e" by simp
      from kf[OF this kk] have "ke_filter e = flt" .
      moreover from id e u have "ke_ident e = unsigned_of (kh_fd (kq_hmem s h))"
        by (simp add: kq_idents_def)
      ultimately show False using False by simp
    qed
    then have "filter (\<lambda>x. x \<noteq> (k, Some h)) (kq_pend1 e) = kq_pend1 e"
      by (simp add: filter_id_conv) blast
    moreover from False have "kq_inv1 ?P e = e" unfolding kq_inv1_def by (rule if_not_P)
    ultimately show ?thesis by (simp only:)
  qed
  have "map (\<lambda>e. kq_pend1 (kq_inv1 ?P e)) (kq_live s) =
        map (\<lambda>e. filter (\<lambda>x. x \<noteq> (k, Some h)) (kq_pend1 e)) (kq_live s)"
    by (intro map_cong refl one)
  then have "concat (map (\<lambda>e. kq_pend1 (kq_inv1 ?P e)) (kq_live s)) =
        concat (map (\<lambda>e. filter (\<lambda>x. x \<noteq> (k, Some h)) (kq_pend1 e)) (kq_live s))"
    by (rule arg_cong)
  then show ?thesis unfolding kq_pending_def l by (simp add: filter_concat comp_def)
qed

lemma kq_kind_in: "kq_known e \<Longrightarrow> kq_kind e = NN_POLLER_IN \<Longrightarrow> ke_filter e = EVFILT_READ"
  by (auto simp: kq_known_def kq_kind_def split: if_splits)

lemma kq_kind_out: "kq_known e \<Longrightarrow> kq_kind e = NN_POLLER_OUT \<Longrightarrow> ke_filter e = EVFILT_WRITE"
  by (auto simp: kq_known_def kq_kind_def split: if_splits)

lemma kq_reset_filter:
  assumes wf: "kq_wf q" and id: "kq_idents q" and co: "kq_coalesced q"
    and wf1: "kq_wf q1"
    and l: "kq_live q1 = map (kq_inv1 (\<lambda>e. ke_ident e = unsigned_of (kh_fd (kq_hmem q h)) \<and>
                                        ke_filter e = flt)) (kq_live q)"
    and kf: "\<And>e. kq_known e \<Longrightarrow> kq_kind e = k \<Longrightarrow> ke_filter e = flt"
    and inp: "(k, Some h) \<in> set (kq_pending q)"
  shows "\<exists>N. \<forall>n\<ge>N. delivered nn_poller_event_kqueue n q1
                 = filter (\<lambda>x. x \<noteq> (k, Some h)) (delivered nn_poller_event_kqueue n q)"
proof -
  from wf have kn: "\<forall>e \<in> set (kq_live q). kq_known e" by (simp add: kq_wf_def)
  from kq_pending_filter[OF id kn co l kf inp]
  have p: "kq_pending q1 = filter (\<lambda>x. x \<noteq> (k, Some h)) (kq_pending q)" by simp
  show ?thesis
    by (rule delivered_filter[of _ _ "kq_pending q"]) (use wf wf1 p in \<open>simp_all add: kq_delivered\<close>)
qed

text \<open>
  Claim C2. In every backend, after \<^verbatim>\<open>nn_poller_reset_in\<close> (resp. \<^verbatim>\<open>nn_poller_reset_out\<close>)
  of a handle no call of \<^verbatim>\<open>nn_poller_event\<close> on the same batch returns IN (resp. OUT) for
  it, and the events of the other kinds and of the other handles are delivered as
  before: drained to the end, the batch gives what it would have given, without that one
  pair.

  The hypotheses are the invariants of a buffer and what the operating system
  guarantees for a batch. In the epoll backend, \<open>ep_consistent\<close>: a record has the IN
  (OUT) bit only if its handle asked for it (the reset returns at once for a handle that
  did not). In the poll backend the handle is registered in its slot. In the kqueue
  backend a record carries the descriptor of its handle (\<open>kq_idents\<close>); for the second
  half, the batch holds the IN (OUT) event of the handle, as the claim supposes, and at
  most one record for a descriptor and a filter (\<open>kq_coalesced\<close>), so that the record
  emptied by the reset is that event and no other.
\<close>

theorem reset_suppresses_kind:
  "(ep_wf s \<and> ep_consistent s \<longrightarrow>
      (\<exists>s1. nn_poller_reset_in_epoll s h = Inr s1 \<and>
         (\<forall>n. \<exists>rs s2. drains nn_poller_event_epoll n s1 = Inr (rs, s2) \<and>
                Some (NN_POLLER_IN, h) \<notin> set rs) \<and>
         (\<exists>N. \<forall>n\<ge>N. delivered nn_poller_event_epoll n s1
                 = filter (\<lambda>x. x \<noteq> (NN_POLLER_IN, h)) (delivered nn_poller_event_epoll n s))) \<and>
      (\<exists>s1. nn_poller_reset_out_epoll s h = Inr s1 \<and>
         (\<forall>n. \<exists>rs s2. drains nn_poller_event_epoll n s1 = Inr (rs, s2) \<and>
                Some (NN_POLLER_OUT, h) \<notin> set rs) \<and>
         (\<exists>N. \<forall>n\<ge>N. delivered nn_poller_event_epoll n s1
                 = filter (\<lambda>x. x \<noteq> (NN_POLLER_OUT, h)) (delivered nn_poller_event_epoll n s)))) \<and>
   (pl_wf p \<and> pl_slots p \<and> pl_registered p h \<longrightarrow>
      (\<exists>p1. nn_poller_reset_in_poll p h = Inr p1 \<and>
         (\<forall>n. \<exists>rs p2. drains nn_poller_event_poll n p1 = Inr (rs, p2) \<and>
                Some (NN_POLLER_IN, Some h) \<notin> set rs) \<and>
         (\<exists>N. \<forall>n\<ge>N. delivered nn_poller_event_poll n p1
                 = filter (\<lambda>x. x \<noteq> (NN_POLLER_IN, Some h)) (delivered nn_poller_event_poll n p))) \<and>
      (\<exists>p1. nn_poller_reset_out_poll p h = Inr p1 \<and>
         (\<forall>n. \<exists>rs p2. drains nn_poller_event_poll n p1 = Inr (rs, p2) \<and>
                Some (NN_POLLER_OUT, Some h) \<notin> set rs) \<and>
         (\<exists>N. \<forall>n\<ge>N. delivered nn_poller_event_poll n p1
                 = filter (\<lambda>x. x \<noteq> (NN_POLLER_OUT, Some h)) (delivered nn_poller_event_poll n p)))) \<and>
   (kq_wf q \<and> kq_idents q \<longrightarrow>
      (\<exists>q1. nn_poller_reset_in_kqueue q h = Inr q1 \<and>
         (\<forall>n. \<exists>rs q2. drains nn_poller_event_kqueue n q1 = Inr (rs, q2) \<and>
                Some (NN_POLLER_IN, Some h) \<notin> set rs) \<and>
         kq_live q1 = map (kq_inv1 (\<lambda>e. ke_ident e = unsigned_of (kh_fd (kq_hmem q h)) \<and>
                                       ke_filter e = EVFILT_READ)) (kq_live q) \<and>
         (kq_coalesced q \<and> (NN_POLLER_IN, Some h) \<in> set (kq_pending q) \<longrightarrow>
            (\<exists>N. \<forall>n\<ge>N. delivered nn_poller_event_kqueue n q1
                 = filter (\<lambda>x. x \<noteq> (NN_POLLER_IN, Some h)) (delivered nn_poller_event_kqueue n q)))) \<and>
      (\<exists>q1. nn_poller_reset_out_kqueue q h ans = Inr q1 \<and>
         (\<forall>n. \<exists>rs q2. drains nn_poller_event_kqueue n q1 = Inr (rs, q2) \<and>
                Some (NN_POLLER_OUT, Some h) \<notin> set rs) \<and>
         kq_live q1 = map (kq_inv1 (\<lambda>e. ke_ident e = unsigned_of (kh_fd (kq_hmem q h)) \<and>
                                       ke_filter e = EVFILT_WRITE)) (kq_live q) \<and>
         (kq_coalesced q \<and> (NN_POLLER_OUT, Some h) \<in> set (kq_pending q) \<longrightarrow>
            (\<exists>N. \<forall>n\<ge>N. delivered nn_poller_event_kqueue n q1
                 = filter (\<lambda>x. x \<noteq> (NN_POLLER_OUT, Some h)) (delivered nn_poller_event_kqueue n q)))))"
proof (intro conjI)
  note old = reset_clears_kind[of s h p q ans]
  show "ep_wf s \<and> ep_consistent s \<longrightarrow>
      (\<exists>s1. nn_poller_reset_in_epoll s h = Inr s1 \<and>
         (\<forall>n. \<exists>rs s2. drains nn_poller_event_epoll n s1 = Inr (rs, s2) \<and>
                Some (NN_POLLER_IN, h) \<notin> set rs) \<and>
         (\<exists>N. \<forall>n\<ge>N. delivered nn_poller_event_epoll n s1
                 = filter (\<lambda>x. x \<noteq> (NN_POLLER_IN, h)) (delivered nn_poller_event_epoll n s))) \<and>
      (\<exists>s1. nn_poller_reset_out_epoll s h = Inr s1 \<and>
         (\<forall>n. \<exists>rs s2. drains nn_poller_event_epoll n s1 = Inr (rs, s2) \<and>
                Some (NN_POLLER_OUT, h) \<notin> set rs) \<and>
         (\<exists>N. \<forall>n\<ge>N. delivered nn_poller_event_epoll n s1
                 = filter (\<lambda>x. x \<noteq> (NN_POLLER_OUT, h)) (delivered nn_poller_event_epoll n s)))"
    by (rule old[THEN conjunct1])
  show "pl_wf p \<and> pl_slots p \<and> pl_registered p h \<longrightarrow>
      (\<exists>p1. nn_poller_reset_in_poll p h = Inr p1 \<and>
         (\<forall>n. \<exists>rs p2. drains nn_poller_event_poll n p1 = Inr (rs, p2) \<and>
                Some (NN_POLLER_IN, Some h) \<notin> set rs) \<and>
         (\<exists>N. \<forall>n\<ge>N. delivered nn_poller_event_poll n p1
                 = filter (\<lambda>x. x \<noteq> (NN_POLLER_IN, Some h)) (delivered nn_poller_event_poll n p))) \<and>
      (\<exists>p1. nn_poller_reset_out_poll p h = Inr p1 \<and>
         (\<forall>n. \<exists>rs p2. drains nn_poller_event_poll n p1 = Inr (rs, p2) \<and>
                Some (NN_POLLER_OUT, Some h) \<notin> set rs) \<and>
         (\<exists>N. \<forall>n\<ge>N. delivered nn_poller_event_poll n p1
                 = filter (\<lambda>x. x \<noteq> (NN_POLLER_OUT, Some h)) (delivered nn_poller_event_poll n p)))"
    by (rule old[THEN conjunct2, THEN conjunct1])
  show "kq_wf q \<and> kq_idents q \<longrightarrow>
      (\<exists>q1. nn_poller_reset_in_kqueue q h = Inr q1 \<and>
         (\<forall>n. \<exists>rs q2. drains nn_poller_event_kqueue n q1 = Inr (rs, q2) \<and>
                Some (NN_POLLER_IN, Some h) \<notin> set rs) \<and>
         kq_live q1 = map (kq_inv1 (\<lambda>e. ke_ident e = unsigned_of (kh_fd (kq_hmem q h)) \<and>
                                       ke_filter e = EVFILT_READ)) (kq_live q) \<and>
         (kq_coalesced q \<and> (NN_POLLER_IN, Some h) \<in> set (kq_pending q) \<longrightarrow>
            (\<exists>N. \<forall>n\<ge>N. delivered nn_poller_event_kqueue n q1
                 = filter (\<lambda>x. x \<noteq> (NN_POLLER_IN, Some h)) (delivered nn_poller_event_kqueue n q)))) \<and>
      (\<exists>q1. nn_poller_reset_out_kqueue q h ans = Inr q1 \<and>
         (\<forall>n. \<exists>rs q2. drains nn_poller_event_kqueue n q1 = Inr (rs, q2) \<and>
                Some (NN_POLLER_OUT, Some h) \<notin> set rs) \<and>
         kq_live q1 = map (kq_inv1 (\<lambda>e. ke_ident e = unsigned_of (kh_fd (kq_hmem q h)) \<and>
                                       ke_filter e = EVFILT_WRITE)) (kq_live q) \<and>
         (kq_coalesced q \<and> (NN_POLLER_OUT, Some h) \<in> set (kq_pending q) \<longrightarrow>
            (\<exists>N. \<forall>n\<ge>N. delivered nn_poller_event_kqueue n q1
                 = filter (\<lambda>x. x \<noteq> (NN_POLLER_OUT, Some h)) (delivered nn_poller_event_kqueue n q))))"
  proof (intro impI conjI)
    assume a: "kq_wf q \<and> kq_idents q"
    then have wf: "kq_wf q" and id: "kq_idents q" by simp_all
    from wf have kn: "\<forall>e \<in> set (kq_live q). kq_known e" by (simp add: kq_wf_def)
    from kq_reset_in_spec[OF wf, of h] obtain q1 where
      q1: "nn_poller_reset_in_kqueue q h = Inr q1" "kq_wf q1"
        "kq_live q1 = map (kq_inv1 (\<lambda>e. ke_ident e = unsigned_of (kh_fd (kq_hmem q h)) \<and>
                                       ke_filter e = EVFILT_READ)) (kq_live q)" by blast
    from kq_pending_after_reset_in[OF id kn q1(3)]
    have np: "(NN_POLLER_IN, Some h) \<notin> set (kq_pending q1)" .
    have dr: "\<forall>n. \<exists>rs q2. drains nn_poller_event_kqueue n q1 = Inr (rs, q2) \<and> Some (NN_POLLER_IN, Some h) \<notin> set rs"
    proof (rule allI)
      fix n
      show "\<exists>rs q2. drains nn_poller_event_kqueue n q1 = Inr (rs, q2) \<and> Some (NN_POLLER_IN, Some h) \<notin> set rs"
        by (rule kind_not_delivered[OF kq_drains_subset[OF q1(2)] np])
    qed
    have fl: "kq_coalesced q \<and> (NN_POLLER_IN, Some h) \<in> set (kq_pending q) \<longrightarrow>
            (\<exists>N. \<forall>n\<ge>N. delivered nn_poller_event_kqueue n q1
                 = filter (\<lambda>x. x \<noteq> (NN_POLLER_IN, Some h)) (delivered nn_poller_event_kqueue n q))"
    proof
      assume b: "kq_coalesced q \<and> (NN_POLLER_IN, Some h) \<in> set (kq_pending q)"
      show "\<exists>N. \<forall>n\<ge>N. delivered nn_poller_event_kqueue n q1
                 = filter (\<lambda>x. x \<noteq> (NN_POLLER_IN, Some h)) (delivered nn_poller_event_kqueue n q)"
        by (rule kq_reset_filter[OF wf id _ q1(2) q1(3) kq_kind_in]) (use b in simp_all)
    qed
    show "\<exists>q1. nn_poller_reset_in_kqueue q h = Inr q1 \<and>
         (\<forall>n. \<exists>rs q2. drains nn_poller_event_kqueue n q1 = Inr (rs, q2) \<and>
                Some (NN_POLLER_IN, Some h) \<notin> set rs) \<and>
         kq_live q1 = map (kq_inv1 (\<lambda>e. ke_ident e = unsigned_of (kh_fd (kq_hmem q h)) \<and>
                                       ke_filter e = EVFILT_READ)) (kq_live q) \<and>
         (kq_coalesced q \<and> (NN_POLLER_IN, Some h) \<in> set (kq_pending q) \<longrightarrow>
            (\<exists>N. \<forall>n\<ge>N. delivered nn_poller_event_kqueue n q1
                 = filter (\<lambda>x. x \<noteq> (NN_POLLER_IN, Some h)) (delivered nn_poller_event_kqueue n q)))"
      by (intro exI[of _ q1] conjI q1(1) dr q1(3) fl)
  next
    assume a: "kq_wf q \<and> kq_idents q"
    then have wf: "kq_wf q" and id: "kq_idents q" by simp_all
    from kq_reset_out_spec[OF wf, of h ans] obtain q1 where
      q1: "nn_poller_reset_out_kqueue q h ans = Inr q1" "kq_wf q1"
        "kq_live q1 = map (kq_inv1 (\<lambda>e. ke_ident e = unsigned_of (kh_fd (kq_hmem q h)) \<and>
                                       ke_filter e = EVFILT_WRITE)) (kq_live q)" by blast
    from kq_pending_after_reset_out[OF id q1(3)]
    have np: "(NN_POLLER_OUT, Some h) \<notin> set (kq_pending q1)" .
    have dr: "\<forall>n. \<exists>rs q2. drains nn_poller_event_kqueue n q1 = Inr (rs, q2) \<and> Some (NN_POLLER_OUT, Some h) \<notin> set rs"
    proof (rule allI)
      fix n
      show "\<exists>rs q2. drains nn_poller_event_kqueue n q1 = Inr (rs, q2) \<and> Some (NN_POLLER_OUT, Some h) \<notin> set rs"
        by (rule kind_not_delivered[OF kq_drains_subset[OF q1(2)] np])
    qed
    have fl: "kq_coalesced q \<and> (NN_POLLER_OUT, Some h) \<in> set (kq_pending q) \<longrightarrow>
            (\<exists>N. \<forall>n\<ge>N. delivered nn_poller_event_kqueue n q1
                 = filter (\<lambda>x. x \<noteq> (NN_POLLER_OUT, Some h)) (delivered nn_poller_event_kqueue n q))"
    proof
      assume b: "kq_coalesced q \<and> (NN_POLLER_OUT, Some h) \<in> set (kq_pending q)"
      show "\<exists>N. \<forall>n\<ge>N. delivered nn_poller_event_kqueue n q1
                 = filter (\<lambda>x. x \<noteq> (NN_POLLER_OUT, Some h)) (delivered nn_poller_event_kqueue n q)"
        by (rule kq_reset_filter[OF wf id _ q1(2) q1(3) kq_kind_out]) (use b in simp_all)
    qed
    show "\<exists>q1. nn_poller_reset_out_kqueue q h ans = Inr q1 \<and>
         (\<forall>n. \<exists>rs q2. drains nn_poller_event_kqueue n q1 = Inr (rs, q2) \<and>
                Some (NN_POLLER_OUT, Some h) \<notin> set rs) \<and>
         kq_live q1 = map (kq_inv1 (\<lambda>e. ke_ident e = unsigned_of (kh_fd (kq_hmem q h)) \<and>
                                       ke_filter e = EVFILT_WRITE)) (kq_live q) \<and>
         (kq_coalesced q \<and> (NN_POLLER_OUT, Some h) \<in> set (kq_pending q) \<longrightarrow>
            (\<exists>N. \<forall>n\<ge>N. delivered nn_poller_event_kqueue n q1
                 = filter (\<lambda>x. x \<noteq> (NN_POLLER_OUT, Some h)) (delivered nn_poller_event_kqueue n q)))"
      by (intro exI[of _ q1] conjI q1(1) dr q1(3) fl)
  qed
qed


text \<open>A kqueue buffer with a read and a write record of handle 7, and a read record
  with the end-of-file flag of handle 8.\<close>

definition kq_w2 :: kq_poller where
  "kq_w2 = kq_ex\<lparr>kq_nevents := 3,
     kq_events := [\<lparr>ke_ident = 3, ke_filter = EVFILT_READ, ke_flags = 0, ke_udata = Some 7\<rparr>,
                   \<lparr>ke_ident = 3, ke_filter = EVFILT_WRITE, ke_flags = 0, ke_udata = Some 7\<rparr>,
                   \<lparr>ke_ident = 4, ke_filter = EVFILT_READ, ke_flags = EV_EOF, ke_udata = Some 8\<rparr>]
                  @ replicate 29 \<lparr>ke_ident = 0, ke_filter = 0, ke_flags = 0, ke_udata = None\<rparr>,
     kq_hmem := (\<lambda>h. if h = 7 then \<lparr>kh_fd = 3, kh_events = 3\<rparr> else \<lparr>kh_fd = 4, kh_events = 1\<rparr>)\<rparr>"

lemma kq_w2_facts:
  "kq_wf kq_w2" "kq_idents kq_w2" "kq_coalesced kq_w2"
  "kq_live kq_w2 = [\<lparr>ke_ident = 3, ke_filter = EVFILT_READ, ke_flags = 0, ke_udata = Some 7\<rparr>,
                   \<lparr>ke_ident = 3, ke_filter = EVFILT_WRITE, ke_flags = 0, ke_udata = Some 7\<rparr>,
                   \<lparr>ke_ident = 4, ke_filter = EVFILT_READ, ke_flags = EV_EOF, ke_udata = Some 8\<rparr>]"
  "kq_pending kq_w2 = [(NN_POLLER_IN, Some 7), (NN_POLLER_OUT, Some 7), (NN_POLLER_ERR, Some 8)]"
  "unsigned_of (kh_fd (kq_hmem kq_w2 7)) = 3"
proof -
  show l: "kq_live kq_w2 = [\<lparr>ke_ident = 3, ke_filter = EVFILT_READ, ke_flags = 0, ke_udata = Some 7\<rparr>,
                   \<lparr>ke_ident = 3, ke_filter = EVFILT_WRITE, ke_flags = 0, ke_udata = Some 7\<rparr>,
                   \<lparr>ke_ident = 4, ke_filter = EVFILT_READ, ke_flags = EV_EOF, ke_udata = Some 8\<rparr>]"
    by (simp add: kq_w2_def kq_ex_def kq_live_def)
  show "kq_wf kq_w2"
    unfolding kq_wf_def l by (simp add: kq_w2_def kq_ex_def kq_known_def)
  show "kq_idents kq_w2"
    unfolding kq_idents_def l by (simp add: kq_w2_def kq_ex_def unsigned_of_def)
  show "kq_coalesced kq_w2"
    unfolding kq_coalesced_def l by (simp add: EVFILT_READ_def EVFILT_WRITE_def)
  show "kq_pending kq_w2 = [(NN_POLLER_IN, Some 7), (NN_POLLER_OUT, Some 7), (NN_POLLER_ERR, Some 8)]"
    unfolding kq_pending_def l
    by (simp add: kq_pend1_def kq_kind_def EV_EOF_def EVFILT_READ_def EVFILT_WRITE_def)
  show "unsigned_of (kh_fd (kq_hmem kq_w2 7)) = 3" by (simp add: kq_w2_def unsigned_of_def)
qed

text \<open>The theorem at the example buffers, for handle 7.\<close>

theorem reset_suppresses_kind_witness:
  "ep_wf ep_w2 \<and> ep_consistent ep_w2 \<and>
   pl_wf pl_w10 \<and> pl_slots pl_w10 \<and> pl_registered pl_w10 7 \<and>
   kq_wf kq_w2 \<and> kq_idents kq_w2 \<and> kq_coalesced kq_w2 \<and>
   (NN_POLLER_IN, Some 7) \<in> set (kq_pending kq_w2) \<and>
   (NN_POLLER_OUT, Some 7) \<in> set (kq_pending kq_w2) \<and>
      (\<exists>s1. nn_poller_reset_in_epoll ep_w2 7 = Inr s1 \<and>
         (\<forall>n. \<exists>rs s2. drains nn_poller_event_epoll n s1 = Inr (rs, s2) \<and>
                Some (NN_POLLER_IN, 7) \<notin> set rs) \<and>
         (\<exists>N. \<forall>n\<ge>N. delivered nn_poller_event_epoll n s1
                 = filter (\<lambda>x. x \<noteq> (NN_POLLER_IN, 7)) (delivered nn_poller_event_epoll n ep_w2))) \<and>
      (\<exists>s1. nn_poller_reset_out_epoll ep_w2 7 = Inr s1 \<and>
         (\<forall>n. \<exists>rs s2. drains nn_poller_event_epoll n s1 = Inr (rs, s2) \<and>
                Some (NN_POLLER_OUT, 7) \<notin> set rs) \<and>
         (\<exists>N. \<forall>n\<ge>N. delivered nn_poller_event_epoll n s1
                 = filter (\<lambda>x. x \<noteq> (NN_POLLER_OUT, 7)) (delivered nn_poller_event_epoll n ep_w2))) \<and>
      (\<exists>p1. nn_poller_reset_in_poll pl_w10 7 = Inr p1 \<and>
         (\<forall>n. \<exists>rs p2. drains nn_poller_event_poll n p1 = Inr (rs, p2) \<and>
                Some (NN_POLLER_IN, Some 7) \<notin> set rs) \<and>
         (\<exists>N. \<forall>n\<ge>N. delivered nn_poller_event_poll n p1
                 = filter (\<lambda>x. x \<noteq> (NN_POLLER_IN, Some 7)) (delivered nn_poller_event_poll n pl_w10))) \<and>
      (\<exists>p1. nn_poller_reset_out_poll pl_w10 7 = Inr p1 \<and>
         (\<forall>n. \<exists>rs p2. drains nn_poller_event_poll n p1 = Inr (rs, p2) \<and>
                Some (NN_POLLER_OUT, Some 7) \<notin> set rs) \<and>
         (\<exists>N. \<forall>n\<ge>N. delivered nn_poller_event_poll n p1
                 = filter (\<lambda>x. x \<noteq> (NN_POLLER_OUT, Some 7)) (delivered nn_poller_event_poll n pl_w10))) \<and>
      (\<exists>q1. nn_poller_reset_in_kqueue kq_w2 7 = Inr q1 \<and>
         (\<forall>n. \<exists>rs q2. drains nn_poller_event_kqueue n q1 = Inr (rs, q2) \<and>
                Some (NN_POLLER_IN, Some 7) \<notin> set rs) \<and>
         kq_live q1 =
           [\<lparr>ke_ident = 3, ke_filter = EVFILT_READ, ke_flags = 0, ke_udata = None\<rparr>,
            \<lparr>ke_ident = 3, ke_filter = EVFILT_WRITE, ke_flags = 0, ke_udata = Some 7\<rparr>,
            \<lparr>ke_ident = 4, ke_filter = EVFILT_READ, ke_flags = EV_EOF, ke_udata = Some 8\<rparr>] \<and>
         (\<exists>N. \<forall>n\<ge>N. delivered nn_poller_event_kqueue n q1
                 = filter (\<lambda>x. x \<noteq> (NN_POLLER_IN, Some 7)) (delivered nn_poller_event_kqueue n kq_w2))) \<and>
      (\<exists>q1. nn_poller_reset_out_kqueue kq_w2 7 (KOk 0) = Inr q1 \<and>
         (\<forall>n. \<exists>rs q2. drains nn_poller_event_kqueue n q1 = Inr (rs, q2) \<and>
                Some (NN_POLLER_OUT, Some 7) \<notin> set rs) \<and>
         kq_live q1 =
           [\<lparr>ke_ident = 3, ke_filter = EVFILT_READ, ke_flags = 0, ke_udata = Some 7\<rparr>,
            \<lparr>ke_ident = 3, ke_filter = EVFILT_WRITE, ke_flags = 0, ke_udata = None\<rparr>,
            \<lparr>ke_ident = 4, ke_filter = EVFILT_READ, ke_flags = EV_EOF, ke_udata = Some 8\<rparr>] \<and>
         (\<exists>N. \<forall>n\<ge>N. delivered nn_poller_event_kqueue n q1
                 = filter (\<lambda>x. x \<noteq> (NN_POLLER_OUT, Some 7)) (delivered nn_poller_event_kqueue n kq_w2)))"
proof -
  have m: "(NN_POLLER_IN, Some 7) \<in> set (kq_pending kq_w2)" "(NN_POLLER_OUT, Some 7) \<in> set (kq_pending kq_w2)"
    by (simp_all add: kq_w2_facts(5))
  have i: "map (kq_inv1 (\<lambda>e. ke_ident e = unsigned_of (kh_fd (kq_hmem kq_w2 7)) \<and>
                                       ke_filter e = EVFILT_READ)) (kq_live kq_w2) =
           [\<lparr>ke_ident = 3, ke_filter = EVFILT_READ, ke_flags = 0, ke_udata = None\<rparr>,
            \<lparr>ke_ident = 3, ke_filter = EVFILT_WRITE, ke_flags = 0, ke_udata = Some 7\<rparr>,
            \<lparr>ke_ident = 4, ke_filter = EVFILT_READ, ke_flags = EV_EOF, ke_udata = Some 8\<rparr>]"
       "map (kq_inv1 (\<lambda>e. ke_ident e = unsigned_of (kh_fd (kq_hmem kq_w2 7)) \<and>
                                       ke_filter e = EVFILT_WRITE)) (kq_live kq_w2) =
           [\<lparr>ke_ident = 3, ke_filter = EVFILT_READ, ke_flags = 0, ke_udata = Some 7\<rparr>,
            \<lparr>ke_ident = 3, ke_filter = EVFILT_WRITE, ke_flags = 0, ke_udata = None\<rparr>,
            \<lparr>ke_ident = 4, ke_filter = EVFILT_READ, ke_flags = EV_EOF, ke_udata = Some 8\<rparr>]"
    unfolding kq_w2_facts(4,6) by (simp_all add: kq_inv1_def EVFILT_READ_def EVFILT_WRITE_def)
  show ?thesis
    using reset_suppresses_kind[of ep_w2 7 pl_w10 kq_w2 "KOk 0"] ep_w2_facts kq_w2_facts(1-3) m
      pl_w10_facts(1-3)
    unfolding i
    by (simp del: drains.simps)
qed

section \<open>Changing the interest of a handle\<close>

lemma word_or_and_self: "m \<noteq> 0 \<Longrightarrow> (x OR m) AND m \<noteq> (0 :: 'a :: len word)"
  by (metis bit.conj_disj_distrib2 and.idem or.commute word_ao_absorbs(2))

lemma epollin_nz: "EPOLLIN \<noteq> 0" "EPOLLOUT \<noteq> 0"
  by (simp_all add: EPOLLIN_def EPOLLOUT_def)

lemma event_in_nz: "NN_POLLER_EVENT_IN \<noteq> 0" "NN_POLLER_EVENT_OUT \<noteq> 0"
  by (simp_all add: NN_POLLER_EVENT_IN_def NN_POLLER_EVENT_OUT_def)

lemma kq_reset_in_unset:
  assumes "kq_wf q" and "kh_events (kq_hmem q h) AND NN_POLLER_EVENT_IN = 0"
  shows "\<exists>q1. nn_poller_reset_in_kqueue q h = Inr q1 \<and> kq_klog q1 = kq_klog q \<and> kq_hmem q1 = kq_hmem q"
proof -
  let ?P = "\<lambda>e. ke_ident e = unsigned_of (kh_fd (kq_hmem q h)) \<and> ke_filter e = EVFILT_READ"
  from kq_scrub_state[OF assms(1), of q ?P] obtain q1 where
    "(case kq_invalidate ?P (kq_index q) (kq_nevents q) (kq_events q) of
                 Inl f \<Rightarrow> Inl f | Inr evs \<Rightarrow> Inr (q\<lparr>kq_events := evs\<rparr>)) = Inr q1"
    "kq_klog q1 = kq_klog q" "kq_hmem q1 = kq_hmem q" by auto
  with assms(2) show ?thesis by (simp add: nn_poller_reset_in_kqueue_def Let_def)
qed

lemma kq_reset_out_unset:
  assumes "kq_wf q" and "kh_events (kq_hmem q h) AND NN_POLLER_EVENT_OUT = 0"
  shows "\<exists>q1. nn_poller_reset_out_kqueue q h ans = Inr q1 \<and> kq_klog q1 = kq_klog q \<and> kq_hmem q1 = kq_hmem q"
proof -
  let ?P = "\<lambda>e. ke_ident e = unsigned_of (kh_fd (kq_hmem q h)) \<and> ke_filter e = EVFILT_WRITE"
  from kq_scrub_state[OF assms(1), of q ?P] obtain q1 where
    "(case kq_invalidate ?P (kq_index q) (kq_nevents q) (kq_events q) of
                 Inl f \<Rightarrow> Inl f | Inr evs \<Rightarrow> Inr (q\<lparr>kq_events := evs\<rparr>)) = Inr q1"
    "kq_klog q1 = kq_klog q" "kq_hmem q1 = kq_hmem q" by auto
  with assms(2) show ?thesis by (simp add: nn_poller_reset_out_kqueue_def Let_def)
qed

text \<open>
  Claim C4, amended. In the epoll and the kqueue backend, \<^verbatim>\<open>nn_poller_set_in\<close> and
  \<^verbatim>\<open>nn_poller_set_out\<close> with the bit already set change nothing and issue no call, and
  otherwise issue exactly one registration call; \<^verbatim>\<open>nn_poller_reset_in\<close> and
  \<^verbatim>\<open>nn_poller_reset_out\<close> with the bit unset issue no call. The epoll backend sets the
  bit whatever the operating system answers, so a second call in a row changes
  nothing. The kqueue backend sets the bit only when \<^verbatim>\<open>kevent\<close> succeeded, so a second
  call in a row changes nothing provided the first registration succeeded. The poll
  backend keeps the interest in its own array: the four functions issue no call at
  all, and a second call in a row changes nothing.
\<close>

theorem interest_change_is_idempotent:
  "(eh_events (ep_hmem s h) AND EPOLLIN \<noteq> 0 \<longrightarrow> nn_poller_set_in_epoll s h = s) \<and>
   (eh_events (ep_hmem s h) AND EPOLLIN = 0 \<longrightarrow>
      ep_klog (nn_poller_set_in_epoll s h) =
        ep_klog s @ [EpollCtlMod (eh_fd (ep_hmem s h)) (eh_events (ep_hmem s h) OR EPOLLIN) h] \<and>
      nn_poller_reset_in_epoll s h = Inr s) \<and>
   nn_poller_set_in_epoll (nn_poller_set_in_epoll s h) h = nn_poller_set_in_epoll s h \<and>
   (eh_events (ep_hmem s h) AND EPOLLOUT \<noteq> 0 \<longrightarrow> nn_poller_set_out_epoll s h = s) \<and>
   (eh_events (ep_hmem s h) AND EPOLLOUT = 0 \<longrightarrow>
      ep_klog (nn_poller_set_out_epoll s h) =
        ep_klog s @ [EpollCtlMod (eh_fd (ep_hmem s h)) (eh_events (ep_hmem s h) OR EPOLLOUT) h] \<and>
      nn_poller_reset_out_epoll s h = Inr s) \<and>
   nn_poller_set_out_epoll (nn_poller_set_out_epoll s h) h = nn_poller_set_out_epoll s h \<and>
   (kh_events (kq_hmem q h) AND NN_POLLER_EVENT_IN \<noteq> 0 \<longrightarrow> nn_poller_set_in_kqueue q h a = q) \<and>
   (kh_events (kq_hmem q h) AND NN_POLLER_EVENT_IN = 0 \<longrightarrow>
      kq_klog (nn_poller_set_in_kqueue q h a) =
        kq_klog q @ [KeventAdd (kh_fd (kq_hmem q h)) EVFILT_READ h] \<and>
      (kq_wf q \<longrightarrow> (\<exists>q1. nn_poller_reset_in_kqueue q h = Inr q1 \<and> kq_klog q1 = kq_klog q))) \<and>
   (kres_value a \<noteq> - 1 \<longrightarrow>
      nn_poller_set_in_kqueue (nn_poller_set_in_kqueue q h a) h a' = nn_poller_set_in_kqueue q h a) \<and>
   (kh_events (kq_hmem q h) AND NN_POLLER_EVENT_OUT \<noteq> 0 \<longrightarrow> nn_poller_set_out_kqueue q h a = q) \<and>
   (kh_events (kq_hmem q h) AND NN_POLLER_EVENT_OUT = 0 \<longrightarrow>
      kq_klog (nn_poller_set_out_kqueue q h a) =
        kq_klog q @ [KeventAdd (kh_fd (kq_hmem q h)) EVFILT_WRITE h] \<and>
      (kq_wf q \<longrightarrow> (\<exists>q1. nn_poller_reset_out_kqueue q h a' = Inr q1 \<and> kq_klog q1 = kq_klog q))) \<and>
   (kres_value a \<noteq> - 1 \<longrightarrow>
      nn_poller_set_out_kqueue (nn_poller_set_out_kqueue q h a) h a' = nn_poller_set_out_kqueue q h a) \<and>
   (inb (pl_pollset p) (pl_hmem p h) \<longrightarrow>
      (\<exists>p1. nn_poller_set_in_poll p h = Inr p1 \<and> pl_klog p1 = pl_klog p \<and>
            nn_poller_set_in_poll p1 h = Inr p1) \<and>
      (\<exists>p1. nn_poller_set_out_poll p h = Inr p1 \<and> pl_klog p1 = pl_klog p \<and>
            nn_poller_set_out_poll p1 h = Inr p1) \<and>
      (\<exists>p1. nn_poller_reset_in_poll p h = Inr p1 \<and> pl_klog p1 = pl_klog p \<and>
            nn_poller_reset_in_poll p1 h = Inr p1) \<and>
      (\<exists>p1. nn_poller_reset_out_poll p h = Inr p1 \<and> pl_klog p1 = pl_klog p \<and>
            nn_poller_reset_out_poll p1 h = Inr p1))"
proof (intro conjI impI)
  show "nn_poller_set_in_epoll (nn_poller_set_in_epoll s h) h = nn_poller_set_in_epoll s h"
    by (simp add: nn_poller_set_in_epoll_def Let_def word_or_and_self epollin_nz)
  show "nn_poller_set_out_epoll (nn_poller_set_out_epoll s h) h = nn_poller_set_out_epoll s h"
    by (simp add: nn_poller_set_out_epoll_def Let_def word_or_and_self epollin_nz)
  show "nn_poller_set_in_kqueue (nn_poller_set_in_kqueue q h a) h a' = nn_poller_set_in_kqueue q h a"
    if "kres_value a \<noteq> - 1"
    using that by (simp add: nn_poller_set_in_kqueue_def Let_def word_or_and_self event_in_nz)
  show "nn_poller_set_out_kqueue (nn_poller_set_out_kqueue q h a) h a' = nn_poller_set_out_kqueue q h a"
    if "kres_value a \<noteq> - 1"
    using that by (simp add: nn_poller_set_out_kqueue_def Let_def word_or_and_self event_in_nz)
  show "\<exists>q1. nn_poller_reset_in_kqueue q h = Inr q1 \<and> kq_klog q1 = kq_klog q"
    if "kh_events (kq_hmem q h) AND NN_POLLER_EVENT_IN = 0" "kq_wf q"
    using kq_reset_in_unset[OF that(2,1)] by blast
  show "\<exists>q1. nn_poller_reset_out_kqueue q h a' = Inr q1 \<and> kq_klog q1 = kq_klog q"
    if "kh_events (kq_hmem q h) AND NN_POLLER_EVENT_OUT = 0" "kq_wf q"
    using kq_reset_out_unset[OF that(2,1)] by blast
next
  assume b: "inb (pl_pollset p) (pl_hmem p h)"
  then have l: "nat (pl_hmem p h) < length (pl_pollset p)" by (auto simp: inb_def)
  show "\<exists>p1. nn_poller_set_in_poll p h = Inr p1 \<and> pl_klog p1 = pl_klog p \<and>
            nn_poller_set_in_poll p1 h = Inr p1"
    using b l by (simp add: nn_poller_set_in_poll_def Let_def inb_def or.assoc)
  show "\<exists>p1. nn_poller_set_out_poll p h = Inr p1 \<and> pl_klog p1 = pl_klog p \<and>
            nn_poller_set_out_poll p1 h = Inr p1"
    using b l by (simp add: nn_poller_set_out_poll_def Let_def inb_def or.assoc)
  show "\<exists>p1. nn_poller_reset_in_poll p h = Inr p1 \<and> pl_klog p1 = pl_klog p \<and>
            nn_poller_reset_in_poll p1 h = Inr p1"
    using b l by (simp add: nn_poller_reset_in_poll_def Let_def inb_def and.assoc)
  show "\<exists>p1. nn_poller_reset_out_poll p h = Inr p1 \<and> pl_klog p1 = pl_klog p \<and>
            nn_poller_reset_out_poll p1 h = Inr p1"
    using b l by (simp add: nn_poller_reset_out_poll_def Let_def inb_def and.assoc)
qed (simp_all add: nn_poller_set_in_epoll_def nn_poller_set_out_epoll_def
        nn_poller_reset_in_epoll_def nn_poller_reset_out_epoll_def
        nn_poller_set_in_kqueue_def nn_poller_set_out_kqueue_def Let_def)

text \<open>
  Claim C4, as stated (two calls of set_in in a row issue exactly one registration),
  fails in the kqueue backend when the first registration fails: the bit stays unset
  and the second call registers again.
\<close>

theorem set_in_twice_counterexample:
  "kq_klog (nn_poller_set_in_kqueue (nn_poller_set_in_kqueue kq_ex 7 (KErr EBADF)) 7 (KOk 0))
     = [KeventAdd 0 EVFILT_READ 7, KeventAdd 0 EVFILT_READ 7]"
  by (simp add: nn_poller_set_in_kqueue_def Let_def kq_ex_def kres_value_def)

text \<open>The theorem at handles without interest (the initial contexts) and with interest.\<close>

theorem interest_change_is_idempotent_witness:
  "eh_events (ep_hmem ep_ex 7) AND EPOLLIN = 0 \<and>
   ep_klog (nn_poller_set_in_epoll ep_ex 7) = [EpollCtlMod 0 EPOLLIN 7] \<and>
   nn_poller_reset_in_epoll ep_ex 7 = Inr ep_ex \<and>
   eh_events (ep_hmem ep_ex 7) AND EPOLLOUT = 0 \<and>
   ep_klog (nn_poller_set_out_epoll ep_ex 7) = [EpollCtlMod 0 EPOLLOUT 7] \<and>
   nn_poller_reset_out_epoll ep_ex 7 = Inr ep_ex \<and>
   eh_events (ep_hmem ep_w2 7) AND EPOLLIN \<noteq> 0 \<and> nn_poller_set_in_epoll ep_w2 7 = ep_w2 \<and>
   eh_events (ep_hmem ep_w2 7) AND EPOLLOUT \<noteq> 0 \<and> nn_poller_set_out_epoll ep_w2 7 = ep_w2 \<and>
   kh_events (kq_hmem kq_ex 7) AND NN_POLLER_EVENT_IN = 0 \<and>
   kq_klog (nn_poller_set_in_kqueue kq_ex 7 (KOk 0)) = [KeventAdd 0 EVFILT_READ 7] \<and>
   kh_events (kq_hmem kq_ex 7) AND NN_POLLER_EVENT_OUT = 0 \<and>
   kq_klog (nn_poller_set_out_kqueue kq_ex 7 (KOk 0)) = [KeventAdd 0 EVFILT_WRITE 7] \<and>
   kq_wf kq_ex \<and>
   (\<exists>q1. nn_poller_reset_in_kqueue kq_ex 7 = Inr q1 \<and> kq_klog q1 = kq_klog kq_ex) \<and>
   (\<exists>q1. nn_poller_reset_out_kqueue kq_ex 7 (KOk 0) = Inr q1 \<and> kq_klog q1 = kq_klog kq_ex) \<and>
   kres_value (KOk 0) \<noteq> - 1 \<and>
   nn_poller_set_in_kqueue (nn_poller_set_in_kqueue kq_ex 7 (KOk 0)) 7 (KOk 0)
     = nn_poller_set_in_kqueue kq_ex 7 (KOk 0) \<and>
   nn_poller_set_out_kqueue (nn_poller_set_out_kqueue kq_ex 7 (KOk 0)) 7 (KOk 0)
     = nn_poller_set_out_kqueue kq_ex 7 (KOk 0) \<and>
   kh_events (kq_hmem kq_w1 7) AND NN_POLLER_EVENT_IN \<noteq> 0 \<and>
   nn_poller_set_in_kqueue kq_w1 7 (KOk 0) = kq_w1 \<and>
   kh_events (kq_hmem kq_w1 8) AND NN_POLLER_EVENT_OUT \<noteq> 0 \<and>
   nn_poller_set_out_kqueue kq_w1 8 (KOk 0) = kq_w1 \<and>
   inb (pl_pollset pl_w10) (pl_hmem pl_w10 7) \<and>
   (\<exists>p1. nn_poller_set_in_poll pl_w10 7 = Inr p1 \<and> pl_klog p1 = pl_klog pl_w10 \<and>
            nn_poller_set_in_poll p1 7 = Inr p1) \<and>
   (\<exists>p1. nn_poller_reset_in_poll pl_w10 7 = Inr p1 \<and> pl_klog p1 = pl_klog pl_w10 \<and>
            nn_poller_reset_in_poll p1 7 = Inr p1)"
proof -
  have e: "eh_events (ep_hmem ep_ex 7) = 0" "eh_fd (ep_hmem ep_ex 7) = 0" "ep_klog ep_ex = []"
    by (simp_all add: ep_ex_def)
  have e2: "eh_events (ep_hmem ep_w2 7) AND EPOLLIN \<noteq> 0" "eh_events (ep_hmem ep_w2 7) AND EPOLLOUT \<noteq> 0"
    by (simp_all add: ep_w2_def EPOLLIN_def EPOLLOUT_def)
  have k: "kh_events (kq_hmem kq_ex 7) = 0" "kh_fd (kq_hmem kq_ex 7) = 0" "kq_klog kq_ex = []"
    "kres_value (KOk 0) \<noteq> - 1"
    by (simp_all add: kq_ex_def kres_value_def)
  have kw: "kq_wf kq_ex" by (simp add: kq_wf_def kq_ex_def kq_live_def)
  have k1: "kh_events (kq_hmem kq_w1 7) AND NN_POLLER_EVENT_IN \<noteq> 0"
    "kh_events (kq_hmem kq_w1 8) AND NN_POLLER_EVENT_OUT \<noteq> 0"
    by (simp_all add: kq_w1_def NN_POLLER_EVENT_IN_def NN_POLLER_EVENT_OUT_def)
  have p: "inb (pl_pollset pl_w10) (pl_hmem pl_w10 7)"
    by (simp add: pl_w10_def pl_ex_def inb_def)
  show ?thesis
    using interest_change_is_idempotent[of ep_ex 7 kq_ex "KOk 0" "KOk 0" pl_w10]
      interest_change_is_idempotent[of ep_w2 7 kq_w1 "KOk 0" "KOk 0" pl_w10]
      interest_change_is_idempotent[of ep_w2 8 kq_w1 "KOk 0" "KOk 0" pl_w10]
      e e2 k kw k1 p
    by simp
qed

section \<open>Waiting\<close>

declare pl_compact.simps [simp del]

lemma pl_compact_removed: "pl_compact s = Inr s1 \<Longrightarrow> pl_removed s1 = - 1"
proof (induction s rule: pl_compact.induct)
  case (1 self)
  show ?case
  proof (cases "pl_removed self = - 1")
    case True
    with "1.prems" show ?thesis by (subst (asm) pl_compact.simps) simp
  next
    case False
    with "1.prems" obtain s' where s': "pl_compact_step self = Inr s'" "pl_compact s' = Inr s1"
      by (subst (asm) pl_compact.simps) (auto split: sum.splits)
    from "1.IH"[OF False s'(1) s'(2)] show ?thesis .
  qed
qed

lemma pl_compact_idle: "pl_removed s = - 1 \<Longrightarrow> pl_compact s = Inr s"
  by (subst pl_compact.simps) simp

lemma ep_wait_loop_rc: "ep_wait_loop s t as = Inr (rc, s') \<Longrightarrow> rc = RC0 \<and> ep_index s' = ep_index s"
  by (induction as arbitrary: s) (auto simp: Let_def split: kres.splits if_splits)

lemma kq_wait_loop_rc:
  "kq_wait_loop ig s t as = Inr (rc, s') \<Longrightarrow>
     kq_index s' = kq_index s \<and>
     (rc = RC0 \<or> rc = RCneg EINTR \<and> \<not> ig \<and> (\<exists>as'. as = KErr EINTR # as'))"
proof (induction as arbitrary: s)
  case Nil
  then show ?case by simp
next
  case (Cons a as)
  define s1 where "s1 = s\<lparr>kq_klog := kq_klog s @
     [KeventWait NN_POLLER_MAX_EVENTS (if 0 \<le> t then Some (c_div t 1000, c_mod t 1000 * 1000000) else None)]\<rparr>"
  have i1: "kq_index s1 = kq_index s" by (simp add: s1_def)
  show ?case
  proof (cases a)
    case (KOk b)
    have "kq_wait_loop ig s t (a # as) =
       Inr (RC0, s1\<lparr>kq_events := take (nat NN_POLLER_MAX_EVENTS) b @
                   drop (length (take (nat NN_POLLER_MAX_EVENTS) b)) (kq_events s1),
                 kq_nevents := int (length (take (nat NN_POLLER_MAX_EVENTS) b))\<rparr>)"
      unfolding KOk s1_def by (simp add: Let_def)
    with Cons.prems i1 show ?thesis by auto
  next
    case (KErr e)
    have st: "kq_wait_loop ig s t (a # as) =
       (if e = EINTR then (if ig then kq_wait_loop ig s1 t as else Inr (RCneg EINTR, s1)) else Inl Abort)"
      unfolding KErr s1_def by (simp add: Let_def)
    show ?thesis
    proof (cases "e = EINTR")
      case False
      with st Cons.prems show ?thesis by simp
    next
      case True
      show ?thesis
      proof (cases ig)
        case True
        with st \<open>e = EINTR\<close> Cons.prems have "kq_wait_loop ig s1 t as = Inr (rc, s')" by simp
        from Cons.IH[OF this] True i1 show ?thesis by simp
      next
        case False
        with st \<open>e = EINTR\<close> Cons.prems have "rc = RCneg EINTR" "s' = s1" by simp_all
        with False i1 KErr \<open>e = EINTR\<close> show ?thesis by simp
      qed
    qed
  qed
qed

lemma pl_poll_loop_rc:
  "pl_poll_loop ig s t as = Inr (rc, s') \<Longrightarrow>
     pl_index s' = pl_index s \<and>
     (rc = RC0 \<or> rc = RCneg EINTR \<and> \<not> ig \<and> (\<exists>as'. as = KErr EINTR # as'))"
proof (induction as arbitrary: s)
  case Nil
  then show ?case by simp
next
  case (Cons a as)
  show ?case
  proof (cases a)
    case (KOk b)
    with Cons.prems show ?thesis by (auto simp: Let_def)
  next
    case (KErr e)
    show ?thesis
    proof (cases "e = EINTR \<and> ig")
      case True
      with KErr Cons.prems Cons.IH[of "s\<lparr>pl_klog := pl_klog s @ [Poll (pl_size s) t]\<rparr>"]
      show ?thesis by (auto simp: Let_def)
    next
      case False
      with KErr Cons.prems show ?thesis by (auto simp: Let_def split: if_splits)
    qed
  qed
qed

lemma ep_update_order:
  "s\<lparr>ep_nevents := a, ep_index := b, ep_klog := c\<rparr> = s\<lparr>ep_klog := c, ep_nevents := a, ep_index := b\<rparr>"
  by (cases s) simp

lemma kq_update_order:
  "q\<lparr>kq_nevents := a, kq_index := b, kq_klog := c\<rparr> = q\<lparr>kq_klog := c, kq_nevents := a, kq_index := b\<rparr>"
  by (cases q) simp

lemma pl_update_order:
  "p\<lparr>pl_index := b, pl_klog := c\<rparr> = p\<lparr>pl_klog := c, pl_index := b\<rparr>"
  by (cases p) simp

text \<open>
  One interrupted request. The epoll backend, and the kqueue and poll backends built
  with \<^verbatim>\<open>NN_IGNORE_EINTR\<close>, go on inside the same call: the call runs as a call on the
  remaining answers would, and the log shows the interrupted request. The kqueue and
  poll backends built without \<^verbatim>\<open>NN_IGNORE_EINTR\<close> return \<^verbatim>\<open>-EINTR\<close> at once.
\<close>

lemma interrupted_wait_step:
  "nn_poller_wait_epoll s t (KErr EINTR # as) =
     nn_poller_wait_epoll (s\<lparr>ep_klog := ep_klog s @ [EpollWait NN_POLLER_MAX_EVENTS t]\<rparr>) t as \<and>
   (nn_poller_wait_epoll s t as = Inr (rc, s') \<longrightarrow> rc = RC0) \<and>
   nn_poller_wait_kqueue True q t (KErr EINTR # bs) =
     nn_poller_wait_kqueue True (q\<lparr>kq_klog := kq_klog q @
        [KeventWait NN_POLLER_MAX_EVENTS
           (if 0 \<le> t then Some (c_div t 1000, c_mod t 1000 * 1000000) else None)]\<rparr>) t bs \<and>
   (nn_poller_wait_kqueue True q t bs = Inr (rc, q') \<longrightarrow> rc = RC0) \<and>
   nn_poller_wait_kqueue False q t (KErr EINTR # bs) =
     Inr (RCneg EINTR, q\<lparr>kq_nevents := 0, kq_index := 0, kq_klog := kq_klog q @
        [KeventWait NN_POLLER_MAX_EVENTS
           (if 0 \<le> t then Some (c_div t 1000, c_mod t 1000 * 1000000) else None)]\<rparr>) \<and>
   (nn_poller_wait_kqueue False q t bs = Inr (rc, q') \<longrightarrow>
      rc = RC0 \<or> rc = RCneg EINTR \<and> (\<exists>as'. bs = KErr EINTR # as')) \<and>
   (pl_compact p = Inr p1 \<longrightarrow>
      nn_poller_wait_poll True p t (KErr EINTR # cs) =
        nn_poller_wait_poll True (p1\<lparr>pl_klog := pl_klog p1 @ [Poll (pl_size p1) t]\<rparr>) t cs \<and>
      nn_poller_wait_poll False p t (KErr EINTR # cs) =
        Inr (RCneg EINTR, p1\<lparr>pl_index := 0, pl_klog := pl_klog p1 @ [Poll (pl_size p1) t]\<rparr>)) \<and>
   (nn_poller_wait_poll True p t cs = Inr (rc, p') \<longrightarrow> rc = RC0) \<and>
   (nn_poller_wait_poll False p t cs = Inr (rc, p') \<longrightarrow>
      rc = RC0 \<or> rc = RCneg EINTR \<and> (\<exists>as'. cs = KErr EINTR # as'))"
proof (intro conjI impI)
  show "nn_poller_wait_epoll s t (KErr EINTR # as) =
     nn_poller_wait_epoll (s\<lparr>ep_klog := ep_klog s @ [EpollWait NN_POLLER_MAX_EVENTS t]\<rparr>) t as"
  proof -
    have "nn_poller_wait_epoll s t (KErr EINTR # as) =
        ep_wait_loop (s\<lparr>ep_nevents := 0, ep_index := 0,
           ep_klog := ep_klog s @ [EpollWait NN_POLLER_MAX_EVENTS t]\<rparr>) t as"
      by (simp add: nn_poller_wait_epoll_def Let_def)
    also have "\<dots> = nn_poller_wait_epoll (s\<lparr>ep_klog := ep_klog s @ [EpollWait NN_POLLER_MAX_EVENTS t]\<rparr>) t as"
      unfolding nn_poller_wait_epoll_def by (subst ep_update_order) (rule refl)
    finally show ?thesis .
  qed
  show "rc = RC0" if "nn_poller_wait_epoll s t as = Inr (rc, s')"
    using that ep_wait_loop_rc unfolding nn_poller_wait_epoll_def by blast
  show "nn_poller_wait_kqueue True q t (KErr EINTR # bs) =
     nn_poller_wait_kqueue True (q\<lparr>kq_klog := kq_klog q @
        [KeventWait NN_POLLER_MAX_EVENTS
           (if 0 \<le> t then Some (c_div t 1000, c_mod t 1000 * 1000000) else None)]\<rparr>) t bs"
  proof -
    have "nn_poller_wait_kqueue True q t (KErr EINTR # bs) =
        kq_wait_loop True (q\<lparr>kq_nevents := 0, kq_index := 0, kq_klog := kq_klog q @
        [KeventWait NN_POLLER_MAX_EVENTS
           (if 0 \<le> t then Some (c_div t 1000, c_mod t 1000 * 1000000) else None)]\<rparr>) t bs"
      by (simp add: nn_poller_wait_kqueue_def Let_def)
    also have "\<dots> = nn_poller_wait_kqueue True (q\<lparr>kq_klog := kq_klog q @
        [KeventWait NN_POLLER_MAX_EVENTS
           (if 0 \<le> t then Some (c_div t 1000, c_mod t 1000 * 1000000) else None)]\<rparr>) t bs"
      unfolding nn_poller_wait_kqueue_def by (subst kq_update_order) (rule refl)
    finally show ?thesis .
  qed
  show "rc = RC0" if "nn_poller_wait_kqueue True q t bs = Inr (rc, q')"
    using that kq_wait_loop_rc[of True _ t bs rc q'] unfolding nn_poller_wait_kqueue_def by blast
  show "nn_poller_wait_kqueue False q t (KErr EINTR # bs) =
     Inr (RCneg EINTR, q\<lparr>kq_nevents := 0, kq_index := 0, kq_klog := kq_klog q @
        [KeventWait NN_POLLER_MAX_EVENTS
           (if 0 \<le> t then Some (c_div t 1000, c_mod t 1000 * 1000000) else None)]\<rparr>)"
    by (simp add: nn_poller_wait_kqueue_def Let_def)
  show "rc = RC0 \<or> rc = RCneg EINTR \<and> (\<exists>as'. bs = KErr EINTR # as')"
    if "nn_poller_wait_kqueue False q t bs = Inr (rc, q')"
    using that kq_wait_loop_rc[of False _ t bs rc q'] unfolding nn_poller_wait_kqueue_def by blast
  show "rc = RC0" if "nn_poller_wait_poll True p t cs = Inr (rc, p')"
    using that pl_poll_loop_rc[of True _ t cs rc p'] unfolding nn_poller_wait_poll_def
    by (auto split: sum.splits)
  show "rc = RC0 \<or> rc = RCneg EINTR \<and> (\<exists>as'. cs = KErr EINTR # as')"
    if "nn_poller_wait_poll False p t cs = Inr (rc, p')"
    using that pl_poll_loop_rc[of False _ t cs rc p'] unfolding nn_poller_wait_poll_def
    by (auto split: sum.splits)
next
  assume c: "pl_compact p = Inr p1"
  from pl_compact_removed[OF c] have "pl_removed (p1\<lparr>pl_klog := pl_klog p1 @ [Poll (pl_size p1) t]\<rparr>) = - 1"
    by simp
  from pl_compact_idle[OF this]
  have r: "nn_poller_wait_poll True (p1\<lparr>pl_klog := pl_klog p1 @ [Poll (pl_size p1) t]\<rparr>) t cs =
      pl_poll_loop True (p1\<lparr>pl_klog := pl_klog p1 @ [Poll (pl_size p1) t], pl_index := 0\<rparr>) t cs"
    by (simp add: nn_poller_wait_poll_def)
  have "nn_poller_wait_poll True p t (KErr EINTR # cs) =
      pl_poll_loop True (p1\<lparr>pl_index := 0, pl_klog := pl_klog p1 @ [Poll (pl_size p1) t]\<rparr>) t cs"
    using c by (simp add: nn_poller_wait_poll_def Let_def)
  also have "\<dots> = pl_poll_loop True (p1\<lparr>pl_klog := pl_klog p1 @ [Poll (pl_size p1) t], pl_index := 0\<rparr>) t cs"
    by (subst pl_update_order) (rule refl)
  finally show "nn_poller_wait_poll True p t (KErr EINTR # cs) =
        nn_poller_wait_poll True (p1\<lparr>pl_klog := pl_klog p1 @ [Poll (pl_size p1) t]\<rparr>) t cs"
    unfolding r .
  from c show "nn_poller_wait_poll False p t (KErr EINTR # cs) =
        Inr (RCneg EINTR, p1\<lparr>pl_index := 0, pl_klog := pl_klog p1 @ [Poll (pl_size p1) t]\<rparr>)"
    by (simp add: nn_poller_wait_poll_def Let_def)
qed

lemma ep_wait_loop_retry:
  "ep_nevents s \<noteq> - 1 \<Longrightarrow>
   ep_wait_loop s t (replicate n (KErr EINTR) @ KOk batch # as) =
     Inr (RC0, s\<lparr>ep_klog := ep_klog s @ replicate (Suc n) (EpollWait NN_POLLER_MAX_EVENTS t),
                 ep_events := take (nat NN_POLLER_MAX_EVENTS) batch @
                    drop (length (take (nat NN_POLLER_MAX_EVENTS) batch)) (ep_events s),
                 ep_nevents := int (length (take (nat NN_POLLER_MAX_EVENTS) batch))\<rparr>)"
proof (induction n arbitrary: s)
  case 0
  then show ?case by (simp add: Let_def)
next
  case (Suc n)
  let ?s1 = "s\<lparr>ep_klog := ep_klog s @ [EpollWait NN_POLLER_MAX_EVENTS t]\<rparr>"
  from Suc.prems have "ep_nevents ?s1 \<noteq> - 1" by simp
  from Suc.IH[OF this] show ?case by (simp add: Let_def replicate_append_same)
qed

lemma kq_wait_loop_retry:
  "kq_wait_loop True s t (replicate n (KErr EINTR) @ KOk batch # as) =
     Inr (RC0, s\<lparr>kq_klog := kq_klog s @ replicate (Suc n)
                    (KeventWait NN_POLLER_MAX_EVENTS
                       (if 0 \<le> t then Some (c_div t 1000, c_mod t 1000 * 1000000) else None)),
                 kq_events := take (nat NN_POLLER_MAX_EVENTS) batch @
                    drop (length (take (nat NN_POLLER_MAX_EVENTS) batch)) (kq_events s),
                 kq_nevents := int (length (take (nat NN_POLLER_MAX_EVENTS) batch))\<rparr>)"
proof (induction n arbitrary: s)
  case 0
  then show ?case by (simp add: Let_def)
next
  case (Suc n)
  let ?s1 = "s\<lparr>kq_klog := kq_klog s @ [KeventWait NN_POLLER_MAX_EVENTS
                       (if 0 \<le> t then Some (c_div t 1000, c_mod t 1000 * 1000000) else None)]\<rparr>"
  from Suc.IH[of ?s1] show ?case by (simp add: Let_def replicate_append_same)
qed

lemma pl_poll_loop_retry:
  "pl_poll_loop True s t (replicate n (KErr EINTR) @ KOk revs # cs) =
     Inr (RC0, s\<lparr>pl_klog := pl_klog s @ replicate (Suc n) (Poll (pl_size s) t),
                 pl_pollset := poll_write (pl_pollset s) (nat (pl_size s)) revs\<rparr>)"
proof (induction n arbitrary: s)
  case 0
  then show ?case by (simp add: Let_def)
next
  case (Suc n)
  let ?s1 = "s\<lparr>pl_klog := pl_klog s @ [Poll (pl_size s) t]\<rparr>"
  from Suc.IH[of ?s1] show ?case by (simp add: Let_def replicate_append_same)
qed

lemma retry_epoll:
  "nn_poller_wait_epoll s t (replicate n (KErr EINTR) @ KOk batch # as) =
     Inr (RC0, s\<lparr>ep_nevents := int (length (take (nat NN_POLLER_MAX_EVENTS) batch)), ep_index := 0,
                 ep_events := take (nat NN_POLLER_MAX_EVENTS) batch @
                    drop (length (take (nat NN_POLLER_MAX_EVENTS) batch)) (ep_events s),
                 ep_klog := ep_klog s @ replicate (Suc n) (EpollWait NN_POLLER_MAX_EVENTS t)\<rparr>)"
  unfolding nn_poller_wait_epoll_def
  by (subst ep_wait_loop_retry) simp_all

lemma retry_kqueue:
  "nn_poller_wait_kqueue True q t (replicate n (KErr EINTR) @ KOk kbatch # bs) =
     Inr (RC0, q\<lparr>kq_nevents := int (length (take (nat NN_POLLER_MAX_EVENTS) kbatch)), kq_index := 0,
                 kq_events := take (nat NN_POLLER_MAX_EVENTS) kbatch @
                    drop (length (take (nat NN_POLLER_MAX_EVENTS) kbatch)) (kq_events q),
                 kq_klog := kq_klog q @ replicate (Suc n)
                    (KeventWait NN_POLLER_MAX_EVENTS
                       (if 0 \<le> t then Some (c_div t 1000, c_mod t 1000 * 1000000) else None))\<rparr>)"
  unfolding nn_poller_wait_kqueue_def
  by (subst kq_wait_loop_retry) simp_all

lemma retry_poll:
  "pl_compact p = Inr p1 \<Longrightarrow>
   nn_poller_wait_poll True p t (replicate n (KErr EINTR) @ KOk revs # cs) =
     Inr (RC0, p1\<lparr>pl_index := 0,
                  pl_pollset := poll_write (pl_pollset p1) (nat (pl_size p1)) revs,
                  pl_klog := pl_klog p1 @ replicate (Suc n) (Poll (pl_size p1) t)\<rparr>)"
  unfolding nn_poller_wait_poll_def
  by (simp add: pl_poll_loop_retry)

text \<open>
  Claim C7: what \<^verbatim>\<open>nn_poller_wait\<close> does when the wait of the operating system fails with
  \<^verbatim>\<open>EINTR\<close> depends on the build only, not on the call.

  The epoll backend, and the kqueue and poll backends built with \<^verbatim>\<open>NN_IGNORE_EINTR\<close>,
  retry inside the same call: after \<open>n\<close> interrupted requests and one that succeeds the
  call returns \<open>0\<close>, the log holds the \<open>n + 1\<close> requests, all with the same arguments, and
  the buffer holds the batch of the last one. Such a build never returns an error code.

  The kqueue and poll backends built without \<^verbatim>\<open>NN_IGNORE_EINTR\<close> return \<^verbatim>\<open>-EINTR\<close> after the
  first interrupted request, which is the only request of the call; that is the only
  error code they return, and they return it only for an interrupted wait. In no build
  does an interrupted wait abort.
\<close>

theorem interrupted_wait_policy:
  "nn_poller_wait_epoll s t (replicate n (KErr EINTR) @ KOk batch # as) =
     Inr (RC0, s\<lparr>ep_nevents := int (length (take (nat NN_POLLER_MAX_EVENTS) batch)), ep_index := 0,
                 ep_events := take (nat NN_POLLER_MAX_EVENTS) batch @
                    drop (length (take (nat NN_POLLER_MAX_EVENTS) batch)) (ep_events s),
                 ep_klog := ep_klog s @ replicate (Suc n) (EpollWait NN_POLLER_MAX_EVENTS t)\<rparr>) \<and>
   nn_poller_wait_epoll s t (KErr EINTR # as) =
     nn_poller_wait_epoll (s\<lparr>ep_klog := ep_klog s @ [EpollWait NN_POLLER_MAX_EVENTS t]\<rparr>) t as \<and>
   (nn_poller_wait_epoll s t as = Inr (rc, s') \<longrightarrow> rc = RC0) \<and>
   nn_poller_wait_kqueue True q t (replicate n (KErr EINTR) @ KOk kbatch # bs) =
     Inr (RC0, q\<lparr>kq_nevents := int (length (take (nat NN_POLLER_MAX_EVENTS) kbatch)), kq_index := 0,
                 kq_events := take (nat NN_POLLER_MAX_EVENTS) kbatch @
                    drop (length (take (nat NN_POLLER_MAX_EVENTS) kbatch)) (kq_events q),
                 kq_klog := kq_klog q @ replicate (Suc n)
                    (KeventWait NN_POLLER_MAX_EVENTS
                       (if 0 \<le> t then Some (c_div t 1000, c_mod t 1000 * 1000000) else None))\<rparr>) \<and>
   nn_poller_wait_kqueue True q t (KErr EINTR # bs) =
     nn_poller_wait_kqueue True (q\<lparr>kq_klog := kq_klog q @
        [KeventWait NN_POLLER_MAX_EVENTS
           (if 0 \<le> t then Some (c_div t 1000, c_mod t 1000 * 1000000) else None)]\<rparr>) t bs \<and>
   (nn_poller_wait_kqueue True q t bs = Inr (rc, q') \<longrightarrow> rc = RC0) \<and>
   nn_poller_wait_kqueue False q t (KErr EINTR # bs) =
     Inr (RCneg EINTR, q\<lparr>kq_nevents := 0, kq_index := 0, kq_klog := kq_klog q @
        [KeventWait NN_POLLER_MAX_EVENTS
           (if 0 \<le> t then Some (c_div t 1000, c_mod t 1000 * 1000000) else None)]\<rparr>) \<and>
   (nn_poller_wait_kqueue False q t bs = Inr (rc, q') \<longrightarrow>
      rc = RC0 \<or> rc = RCneg EINTR \<and> (\<exists>as'. bs = KErr EINTR # as')) \<and>
   (pl_compact p = Inr p1 \<longrightarrow>
      nn_poller_wait_poll True p t (replicate n (KErr EINTR) @ KOk revs # cs) =
        Inr (RC0, p1\<lparr>pl_index := 0,
                     pl_pollset := poll_write (pl_pollset p1) (nat (pl_size p1)) revs,
                     pl_klog := pl_klog p1 @ replicate (Suc n) (Poll (pl_size p1) t)\<rparr>) \<and>
      nn_poller_wait_poll True p t (KErr EINTR # cs) =
        nn_poller_wait_poll True (p1\<lparr>pl_klog := pl_klog p1 @ [Poll (pl_size p1) t]\<rparr>) t cs \<and>
      nn_poller_wait_poll False p t (KErr EINTR # cs) =
        Inr (RCneg EINTR, p1\<lparr>pl_index := 0, pl_klog := pl_klog p1 @ [Poll (pl_size p1) t]\<rparr>)) \<and>
   (nn_poller_wait_poll True p t cs = Inr (rc, p') \<longrightarrow> rc = RC0) \<and>
   (nn_poller_wait_poll False p t cs = Inr (rc, p') \<longrightarrow>
      rc = RC0 \<or> rc = RCneg EINTR \<and> (\<exists>as'. cs = KErr EINTR # as'))"
  using interrupted_wait_step[of s t as rc s' q bs q' p p1 cs p']
    retry_epoll[of s t n batch as] retry_kqueue[of q t n kbatch bs]
    retry_poll[of p p1 t n revs cs]
  by (simp only: simp_thms) blast

text \<open>The theorem at the example contexts: two interrupted requests, then a batch.\<close>

theorem interrupted_wait_policy_witness:
  "pl_compact pl_w10 = Inr pl_w10 \<and>
   nn_poller_wait_epoll ep_ex 10 [KErr EINTR, KErr EINTR, KOk [\<lparr>ee_events = 1, ee_ptr = 7\<rparr>]] =
     Inr (RC0, ep_ex\<lparr>ep_nevents := 1,
            ep_events := \<lparr>ee_events = 1, ee_ptr = 7\<rparr> # replicate 31 \<lparr>ee_events = 0, ee_ptr = 0\<rparr>,
            ep_klog := [EpollWait 32 10, EpollWait 32 10, EpollWait 32 10]\<rparr>) \<and>
   (\<forall>e s'. nn_poller_wait_epoll ep_ex 10 [KErr EINTR, KErr EINTR, KOk [\<lparr>ee_events = 1, ee_ptr = 7\<rparr>]]
        \<noteq> Inr (RCneg e, s')) \<and>
   nn_poller_wait_kqueue True kq_ex 10
       [KErr EINTR, KErr EINTR,
        KOk [\<lparr>ke_ident = 3, ke_filter = EVFILT_READ, ke_flags = 0, ke_udata = Some 7\<rparr>]] =
     Inr (RC0, kq_ex\<lparr>kq_nevents := 1,
            kq_events := \<lparr>ke_ident = 3, ke_filter = EVFILT_READ, ke_flags = 0, ke_udata = Some 7\<rparr> #
               replicate 31 \<lparr>ke_ident = 0, ke_filter = 0, ke_flags = 0, ke_udata = None\<rparr>,
            kq_klog := [KeventWait 32 (Some (0, 10000000)), KeventWait 32 (Some (0, 10000000)),
                        KeventWait 32 (Some (0, 10000000))]\<rparr>) \<and>
   (\<forall>e q'. nn_poller_wait_kqueue True kq_ex 10
       [KErr EINTR, KErr EINTR,
        KOk [\<lparr>ke_ident = 3, ke_filter = EVFILT_READ, ke_flags = 0, ke_udata = Some 7\<rparr>]]
        \<noteq> Inr (RCneg e, q')) \<and>
   nn_poller_wait_kqueue False kq_ex 10
       [KErr EINTR, KErr EINTR,
        KOk [\<lparr>ke_ident = 3, ke_filter = EVFILT_READ, ke_flags = 0, ke_udata = Some 7\<rparr>]] =
     Inr (RCneg EINTR, kq_ex\<lparr>kq_klog := [KeventWait 32 (Some (0, 10000000))]\<rparr>) \<and>
   nn_poller_wait_poll True pl_w10 10 [KErr EINTR, KErr EINTR, KOk [4, 0]] =
     Inr (RC0, pl_w10\<lparr>
            pl_pollset := [\<lparr>pf_fd = 3, pf_events = 5, pf_revents = 4\<rparr>,
                           \<lparr>pf_fd = 4, pf_events = 1, pf_revents = 0\<rparr>]
                          @ replicate 14 \<lparr>pf_fd = 0, pf_events = 0, pf_revents = 0\<rparr>,
            pl_klog := [Poll 2 10, Poll 2 10, Poll 2 10]\<rparr>) \<and>
   (\<forall>e p'. nn_poller_wait_poll True pl_w10 10 [KErr EINTR, KErr EINTR, KOk [4, 0]] \<noteq> Inr (RCneg e, p')) \<and>
   nn_poller_wait_poll False pl_w10 10 [KErr EINTR, KErr EINTR, KOk [4, 0]] =
     Inr (RCneg EINTR, pl_w10\<lparr>pl_klog := [Poll 2 10]\<rparr>)"
proof -
  have c: "pl_compact pl_w10 = Inr pl_w10" by (rule pl_compact_idle) (simp add: pl_w10_def pl_ex_def)
  note T = interrupted_wait_policy[where s=ep_ex and t=10 and n=2
      and batch="[\<lparr>ee_events = 1, ee_ptr = 7\<rparr>]" and as="[]"
      and q=kq_ex and kbatch="[\<lparr>ke_ident = 3, ke_filter = EVFILT_READ, ke_flags = 0, ke_udata = Some 7\<rparr>]"
      and bs="[]" and p=pl_w10 and ?p1.0=pl_w10 and revs="[4, 0]" and cs="[]"]
  note V = interrupted_wait_policy[where t=10 and q=kq_ex
      and bs="[KErr EINTR, KOk [\<lparr>ke_ident = 3, ke_filter = EVFILT_READ, ke_flags = 0, ke_udata = Some 7\<rparr>]]"
      and p=pl_w10 and ?p1.0=pl_w10 and cs="[KErr EINTR, KOk [4, 0]]"]
  note U = interrupted_wait_policy[where s=ep_ex and t=10
      and as="[KErr EINTR, KErr EINTR, KOk [\<lparr>ee_events = 1, ee_ptr = 7\<rparr>]]"
      and q=kq_ex
      and bs="[KErr EINTR, KErr EINTR,
               KOk [\<lparr>ke_ident = 3, ke_filter = EVFILT_READ, ke_flags = 0, ke_udata = Some 7\<rparr>]]"
      and p=pl_w10 and cs="[KErr EINTR, KErr EINTR, KOk [4, 0]]"]
  have m: "nat NN_POLLER_MAX_EVENTS = 32" "NN_POLLER_MAX_EVENTS = 32" by (simp_all add: NN_POLLER_MAX_EVENTS_def)
  have r2: "replicate 2 x = [x, x]" "replicate 3 x = [x, x, x]" for x :: 'a
    by (simp_all add: numeral_2_eq_2 numeral_3_eq_3)
  have ts: "c_div 10 1000 = 0" "c_mod 10 1000 * 1000000 = 10000000"
    by (simp_all add: c_div_def c_mod_def)
  have e1: "nn_poller_wait_epoll ep_ex 10 [KErr EINTR, KErr EINTR, KOk [\<lparr>ee_events = 1, ee_ptr = 7\<rparr>]] =
     Inr (RC0, ep_ex\<lparr>ep_nevents := 1,
            ep_events := \<lparr>ee_events = 1, ee_ptr = 7\<rparr> # replicate 31 \<lparr>ee_events = 0, ee_ptr = 0\<rparr>,
            ep_klog := [EpollWait 32 10, EpollWait 32 10, EpollWait 32 10]\<rparr>)"
    using T[THEN conjunct1] by (simp add: m r2 ep_ex_def)
  have e2: "\<forall>e s'. nn_poller_wait_epoll ep_ex 10 [KErr EINTR, KErr EINTR, KOk [\<lparr>ee_events = 1, ee_ptr = 7\<rparr>]]
        \<noteq> Inr (RCneg e, s')"
    using U[THEN conjunct2, THEN conjunct2, THEN conjunct1] by blast
  note Tk = T[THEN conjunct2, THEN conjunct2, THEN conjunct2]
  note Uk = U[THEN conjunct2, THEN conjunct2, THEN conjunct2]
  note Vk = V[THEN conjunct2, THEN conjunct2, THEN conjunct2]
  have k1: "nn_poller_wait_kqueue True kq_ex 10
       [KErr EINTR, KErr EINTR,
        KOk [\<lparr>ke_ident = 3, ke_filter = EVFILT_READ, ke_flags = 0, ke_udata = Some 7\<rparr>]] =
     Inr (RC0, kq_ex\<lparr>kq_nevents := 1,
            kq_events := \<lparr>ke_ident = 3, ke_filter = EVFILT_READ, ke_flags = 0, ke_udata = Some 7\<rparr> #
               replicate 31 \<lparr>ke_ident = 0, ke_filter = 0, ke_flags = 0, ke_udata = None\<rparr>,
            kq_klog := [KeventWait 32 (Some (0, 10000000)), KeventWait 32 (Some (0, 10000000)),
                        KeventWait 32 (Some (0, 10000000))]\<rparr>)"
    using Tk[THEN conjunct1] by (simp add: m r2 ts kq_ex_def)
  have k2: "\<forall>e q'. nn_poller_wait_kqueue True kq_ex 10
       [KErr EINTR, KErr EINTR,
        KOk [\<lparr>ke_ident = 3, ke_filter = EVFILT_READ, ke_flags = 0, ke_udata = Some 7\<rparr>]]
        \<noteq> Inr (RCneg e, q')"
    using Uk[THEN conjunct2, THEN conjunct2, THEN conjunct1] by blast
  have k3: "nn_poller_wait_kqueue False kq_ex 10
       [KErr EINTR, KErr EINTR,
        KOk [\<lparr>ke_ident = 3, ke_filter = EVFILT_READ, ke_flags = 0, ke_udata = Some 7\<rparr>]] =
     Inr (RCneg EINTR, kq_ex\<lparr>kq_klog := [KeventWait 32 (Some (0, 10000000))]\<rparr>)"
    using Vk[THEN conjunct2, THEN conjunct2, THEN conjunct2, THEN conjunct1]
    by (simp add: m ts kq_ex_def)
  note Tp = Tk[THEN conjunct2, THEN conjunct2, THEN conjunct2, THEN conjunct2, THEN conjunct2]
  note Up = Uk[THEN conjunct2, THEN conjunct2, THEN conjunct2, THEN conjunct2, THEN conjunct2]
  note Vp = Vk[THEN conjunct2, THEN conjunct2, THEN conjunct2, THEN conjunct2, THEN conjunct2]
  note P = Tp[THEN conjunct1, THEN mp, OF c]
  note Q = Vp[THEN conjunct1, THEN mp, OF c]
  have pw: "poll_write (pl_pollset pl_w10) (nat (pl_size pl_w10)) [4, 0] =
       [\<lparr>pf_fd = 3, pf_events = 5, pf_revents = 4\<rparr>, \<lparr>pf_fd = 4, pf_events = 1, pf_revents = 0\<rparr>]
       @ replicate 14 \<lparr>pf_fd = 0, pf_events = 0, pf_revents = 0\<rparr>"
    by (simp add: poll_write_def pl_w10_def pl_ex_def)
  have p1: "nn_poller_wait_poll True pl_w10 10 [KErr EINTR, KErr EINTR, KOk [4, 0]] =
     Inr (RC0, pl_w10\<lparr>
            pl_pollset := [\<lparr>pf_fd = 3, pf_events = 5, pf_revents = 4\<rparr>,
                           \<lparr>pf_fd = 4, pf_events = 1, pf_revents = 0\<rparr>]
                          @ replicate 14 \<lparr>pf_fd = 0, pf_events = 0, pf_revents = 0\<rparr>,
            pl_klog := [Poll 2 10, Poll 2 10, Poll 2 10]\<rparr>)"
    using P[THEN conjunct1] unfolding pw by (simp add: r2) (simp add: pl_w10_def pl_ex_def)
  have p2: "\<forall>e p'. nn_poller_wait_poll True pl_w10 10 [KErr EINTR, KErr EINTR, KOk [4, 0]] \<noteq> Inr (RCneg e, p')"
    using Up[THEN conjunct2, THEN conjunct1] by blast
  have p3: "nn_poller_wait_poll False pl_w10 10 [KErr EINTR, KErr EINTR, KOk [4, 0]] =
     Inr (RCneg EINTR, pl_w10\<lparr>pl_klog := [Poll 2 10]\<rparr>)"
    using Q[THEN conjunct2, THEN conjunct2] by (simp add: pl_w10_def pl_ex_def)
  show ?thesis by (intro conjI c e1 e2 k1 k2 k3 p1 p2 p3)
qed

lemma poll_write_length: "length (poll_write ps n revs) = length ps"
  by (simp add: poll_write_def min_def)

lemma poll_write_nth:
  assumes "k < n" "n \<le> length ps"
  shows "poll_write ps n revs ! k = (ps ! k)\<lparr>pf_revents := (revs @ replicate n 0) ! k\<rparr>"
proof -
  let ?z = "zip (take n ps) (take n (revs @ replicate n 0))"
  have l: "length ?z = n" using assms by (simp add: min_def)
  have "poll_write ps n revs ! k = map (\<lambda>(p, r). p\<lparr>pf_revents := r\<rparr>) ?z ! k"
    using assms l by (simp add: poll_write_def nth_append del: length_zip)
  also have "\<dots> = (\<lambda>(p, r). p\<lparr>pf_revents := r\<rparr>) (?z ! k)"
    using assms l by (intro nth_map) simp
  also have "?z ! k = (take n ps ! k, take n (revs @ replicate n 0) ! k)"
    using assms by (intro nth_zip) (simp_all add: min_def)
  also have "take n ps ! k = ps ! k" using assms by simp
  also have "take n (revs @ replicate n 0) ! k = (revs @ replicate n 0) ! k"
    using assms by (intro nth_take)
  finally show ?thesis by simp
qed

lemma poll_write_nth_beyond:
  assumes "n \<le> k" "n \<le> length ps"
  shows "poll_write ps n revs ! k = ps ! k"
proof -
  let ?z = "zip (take n ps) (take n (revs @ replicate n 0))"
  have l: "length ?z = n" using assms by (simp add: min_def)
  show ?thesis using assms l by (simp add: poll_write_def nth_append del: length_zip)
qed

lemma c_div_nonneg: "0 \<le> a \<Longrightarrow> 0 < b \<Longrightarrow> c_div a b = a div b \<and> c_mod a b = a mod b"
  by (cases "a = 0") (auto simp: c_div_def c_mod_def minus_mult_div_eq_mod)

lemma kq_wait_ok:
  "\<exists>s'. nn_poller_wait_kqueue ig s t (KOk batch # rest) = Inr (RC0, s') \<and>
     ((\<forall>e \<in> set batch. kq_known e) \<longrightarrow> kq_wf s') \<and>
     kq_live s' = take (nat NN_POLLER_MAX_EVENTS) batch \<and> kq_index s' = 0 \<and>
     kq_nevents s' = int (length (take (nat NN_POLLER_MAX_EVENTS) batch)) \<and>
     kq_hmem s' = kq_hmem s \<and>
     kq_klog s' = kq_klog s @ [KeventWait NN_POLLER_MAX_EVENTS
        (if 0 \<le> t then Some (c_div t 1000, c_mod t 1000 * 1000000) else None)]"
proof -
  let ?b = "take (nat NN_POLLER_MAX_EVENTS) batch"
  let ?s' = "s\<lparr>kq_nevents := 0, kq_index := 0,
      kq_klog := kq_klog s @ [KeventWait NN_POLLER_MAX_EVENTS
        (if 0 \<le> t then Some (c_div t 1000, c_mod t 1000 * 1000000) else None)],
      kq_events := ?b @ drop (length ?b) (kq_events s), kq_nevents := int (length ?b)\<rparr>"
  have w: "nn_poller_wait_kqueue ig s t (KOk batch # rest) = Inr (RC0, ?s')"
    by (simp add: nn_poller_wait_kqueue_def Let_def)
  have l: "kq_live ?s' = ?b" by (simp add: kq_live_def min_def)
  have "kq_wf ?s'" if "\<forall>e \<in> set batch. kq_known e"
    unfolding kq_wf_def l using that by (auto dest: in_set_takeD)
  with w l show ?thesis by simp
qed

text \<open>
  Every call of \<^verbatim>\<open>nn_poller_wait\<close> that returns leaves the cursor at zero. When the wait
  of the operating system succeeds, the call returns \<open>0\<close> and the buffer holds the batch
  that the operating system reported and nothing else: in the two queue backends the
  records from the cursor to the count are that batch (at most \<^verbatim>\<open>NN_POLLER_MAX_EVENTS\<close>
  records), in the poll backend every slot below the size has the reported events of
  that call. The time limit is handed over as given in the epoll and poll backends; the
  kqueue backend hands over no limit for a negative value, a zero \<^verbatim>\<open>timespec\<close> for zero,
  and the seconds and nanoseconds of the milliseconds otherwise. What the operating
  system does with the limit is not part of \<^verbatim>\<open>poller.c\<close>.
\<close>

lemma wait_success_refills_buffer:
  "(nn_poller_wait_epoll s t as = Inr (rc, s') \<longrightarrow> ep_index s' = 0) \<and>
   (\<exists>s1. nn_poller_wait_epoll s t (KOk batch # as) = Inr (RC0, s1) \<and>
      ep_index s1 = 0 \<and>
      ep_nevents s1 = int (length (take (nat NN_POLLER_MAX_EVENTS) batch)) \<and>
      ep_live s1 = take (nat NN_POLLER_MAX_EVENTS) batch \<and>
      ep_klog s1 = ep_klog s @ [EpollWait NN_POLLER_MAX_EVENTS t]) \<and>
   (nn_poller_wait_kqueue ig q t bs = Inr (rc, q') \<longrightarrow> kq_index q' = 0) \<and>
   (\<exists>q1. nn_poller_wait_kqueue ig q t (KOk kbatch # bs) = Inr (RC0, q1) \<and>
      kq_index q1 = 0 \<and>
      kq_nevents q1 = int (length (take (nat NN_POLLER_MAX_EVENTS) kbatch)) \<and>
      kq_live q1 = take (nat NN_POLLER_MAX_EVENTS) kbatch \<and>
      kq_klog q1 = kq_klog q @ [KeventWait NN_POLLER_MAX_EVENTS
        (if t < 0 then None
         else if t = 0 then Some (0, 0)
         else Some (t div 1000, (t mod 1000) * 1000000))]) \<and>
   (nn_poller_wait_poll ig p t cs = Inr (rc, p') \<longrightarrow> pl_index p' = 0) \<and>
   (pl_compact p = Inr p1 \<and> pl_size p1 \<le> int (length (pl_pollset p1)) \<and>
    length revs = nat (pl_size p1) \<longrightarrow>
      (\<exists>p2. nn_poller_wait_poll ig p t (KOk revs # cs) = Inr (RC0, p2) \<and>
         pl_index p2 = 0 \<and> pl_size p2 = pl_size p1 \<and> pl_hndls p2 = pl_hndls p1 \<and>
         length (pl_pollset p2) = length (pl_pollset p1) \<and>
         (\<forall>k < nat (pl_size p1). pl_pollset p2 ! k = (pl_pollset p1 ! k)\<lparr>pf_revents := revs ! k\<rparr>) \<and>
         pl_klog p2 = pl_klog p1 @ [Poll (pl_size p1) t]))"
proof (intro conjI impI)
  show "ep_index s' = 0" if "nn_poller_wait_epoll s t as = Inr (rc, s')"
    using ep_wait_loop_rc[OF that[unfolded nn_poller_wait_epoll_def]] by simp
  show "kq_index q' = 0" if "nn_poller_wait_kqueue ig q t bs = Inr (rc, q')"
    using kq_wait_loop_rc[OF that[unfolded nn_poller_wait_kqueue_def]] by simp
  show "pl_index p' = 0" if w: "nn_poller_wait_poll ig p t cs = Inr (rc, p')"
  proof -
    from w obtain p0 where "pl_poll_loop ig (p0\<lparr>pl_index := 0\<rparr>) t cs = Inr (rc, p')"
      unfolding nn_poller_wait_poll_def by (auto split: sum.splits)
    from pl_poll_loop_rc[OF this] show ?thesis by simp
  qed
  show "\<exists>s1. nn_poller_wait_epoll s t (KOk batch # as) = Inr (RC0, s1) \<and>
      ep_index s1 = 0 \<and>
      ep_nevents s1 = int (length (take (nat NN_POLLER_MAX_EVENTS) batch)) \<and>
      ep_live s1 = take (nat NN_POLLER_MAX_EVENTS) batch \<and>
      ep_klog s1 = ep_klog s @ [EpollWait NN_POLLER_MAX_EVENTS t]"
    using ep_wait_ok[of s t batch as] by blast
  have ts: "(if 0 \<le> t then Some (c_div t 1000, c_mod t 1000 * 1000000) else None) =
        (if t < 0 then None
         else if t = 0 then Some (0, 0)
         else Some (t div 1000, (t mod 1000) * 1000000))"
    using c_div_nonneg[of t 1000] by auto
  show "\<exists>q1. nn_poller_wait_kqueue ig q t (KOk kbatch # bs) = Inr (RC0, q1) \<and>
      kq_index q1 = 0 \<and>
      kq_nevents q1 = int (length (take (nat NN_POLLER_MAX_EVENTS) kbatch)) \<and>
      kq_live q1 = take (nat NN_POLLER_MAX_EVENTS) kbatch \<and>
      kq_klog q1 = kq_klog q @ [KeventWait NN_POLLER_MAX_EVENTS
        (if t < 0 then None
         else if t = 0 then Some (0, 0)
         else Some (t div 1000, (t mod 1000) * 1000000))]"
    using kq_wait_ok[of ig q t kbatch bs] unfolding ts by blast
next
  assume a: "pl_compact p = Inr p1 \<and> pl_size p1 \<le> int (length (pl_pollset p1)) \<and>
    length revs = nat (pl_size p1)"
  let ?n = "nat (pl_size p1)"
  let ?p2 = "p1\<lparr>pl_index := 0, pl_klog := pl_klog p1 @ [Poll (pl_size p1) t],
               pl_pollset := poll_write (pl_pollset p1) ?n revs\<rparr>"
  from a have nl: "?n \<le> length (pl_pollset p1)" by auto
  have w: "nn_poller_wait_poll ig p t (KOk revs # cs) = Inr (RC0, ?p2)"
    using a by (simp add: nn_poller_wait_poll_def Let_def)
  have nth: "\<forall>k < ?n. pl_pollset ?p2 ! k = (pl_pollset p1 ! k)\<lparr>pf_revents := revs ! k\<rparr>"
  proof (intro allI impI)
    fix k assume k: "k < ?n"
    with a have "(revs @ replicate ?n 0) ! k = revs ! k" by (simp add: nth_append)
    with poll_write_nth[OF k nl, of revs]
    show "pl_pollset ?p2 ! k = (pl_pollset p1 ! k)\<lparr>pf_revents := revs ! k\<rparr>" by simp
  qed
  show "\<exists>p2. nn_poller_wait_poll ig p t (KOk revs # cs) = Inr (RC0, p2) \<and>
         pl_index p2 = 0 \<and> pl_size p2 = pl_size p1 \<and> pl_hndls p2 = pl_hndls p1 \<and>
         length (pl_pollset p2) = length (pl_pollset p1) \<and>
         (\<forall>k < nat (pl_size p1). pl_pollset p2 ! k = (pl_pollset p1 ! k)\<lparr>pf_revents := revs ! k\<rparr>) \<and>
         pl_klog p2 = pl_klog p1 @ [Poll (pl_size p1) t]"
    by (rule exI[of _ ?p2]) (use w nth in \<open>simp add: poll_write_length\<close>)
qed

text \<open>The lemma at the example contexts, with a time limit of 10 milliseconds.\<close>

lemma wait_success_refills_buffer_example:
  "(\<exists>s'. nn_poller_wait_epoll ep_ex 10 [KErr EINTR, KOk []] = Inr (RC0, s') \<and> ep_index s' = 0) \<and>
   (\<exists>s1. nn_poller_wait_epoll ep_ex 10 [KOk [\<lparr>ee_events = 1, ee_ptr = 7\<rparr>], KErr EINTR, KOk []]
            = Inr (RC0, s1) \<and>
      ep_index s1 = 0 \<and> ep_nevents s1 = 1 \<and>
      ep_live s1 = [\<lparr>ee_events = 1, ee_ptr = 7\<rparr>] \<and>
      ep_klog s1 = [EpollWait NN_POLLER_MAX_EVENTS 10]) \<and>
   (\<exists>q'. nn_poller_wait_kqueue False kq_ex 10 [KErr EINTR] = Inr (RCneg EINTR, q') \<and> kq_index q' = 0) \<and>
   (\<exists>q1. nn_poller_wait_kqueue False kq_ex 10
              [KOk [\<lparr>ke_ident = 3, ke_filter = EVFILT_READ, ke_flags = 0, ke_udata = Some 7\<rparr>],
               KErr EINTR]
            = Inr (RC0, q1) \<and>
      kq_index q1 = 0 \<and> kq_nevents q1 = 1 \<and>
      kq_live q1 = [\<lparr>ke_ident = 3, ke_filter = EVFILT_READ, ke_flags = 0, ke_udata = Some 7\<rparr>] \<and>
      kq_klog q1 = [KeventWait NN_POLLER_MAX_EVENTS (Some (0, 10000000))]) \<and>
   (\<exists>p'. nn_poller_wait_poll False pl_w10 10 [KErr EINTR] = Inr (RCneg EINTR, p') \<and> pl_index p' = 0) \<and>
   pl_compact pl_w10 = Inr pl_w10 \<and> pl_size pl_w10 \<le> int (length (pl_pollset pl_w10)) \<and>
   length [4, 0 :: 16 word] = nat (pl_size pl_w10) \<and>
   (\<exists>p2. nn_poller_wait_poll False pl_w10 10 [KOk [4, 0], KErr EINTR] = Inr (RC0, p2) \<and>
         pl_index p2 = 0 \<and> pl_size p2 = 2 \<and>
         pf_revents (pl_pollset p2 ! 0) = 4 \<and> pf_revents (pl_pollset p2 ! Suc 0) = 0 \<and>
         pl_klog p2 = [Poll 2 10])"
proof -
  have c: "pl_compact pl_w10 = Inr pl_w10" by (rule pl_compact_idle) (simp add: pl_w10_def pl_ex_def)
  have f: "pl_size pl_w10 = 2" "length (pl_pollset pl_w10) = 16" "pl_klog pl_w10 = []"
    "ep_klog ep_ex = []" "kq_klog kq_ex = []"
    by (simp_all add: pl_w10_def pl_ex_def ep_ex_def kq_ex_def)
  have m: "nat NN_POLLER_MAX_EVENTS = 32" by (simp add: NN_POLLER_MAX_EVENTS_def)
  obtain s' where e: "nn_poller_wait_epoll ep_ex 10 [KErr EINTR, KOk []] = Inr (RC0, s')"
    by (simp add: nn_poller_wait_epoll_def Let_def)
  obtain q' where k: "nn_poller_wait_kqueue False kq_ex 10 [KErr EINTR] = Inr (RCneg EINTR, q')"
    by (simp add: nn_poller_wait_kqueue_def Let_def)
  obtain p' where p: "nn_poller_wait_poll False pl_w10 10 [KErr EINTR] = Inr (RCneg EINTR, p')"
    by (simp add: nn_poller_wait_poll_def c Let_def)
  have two: "(\<forall>k<2. P k) \<longleftrightarrow> P 0 \<and> P (Suc 0)" for P :: "nat \<Rightarrow> bool"
    by (auto simp: less_Suc_eq numeral_2_eq_2)
  note T1 = wait_success_refills_buffer[where s=ep_ex and t=10 and as="[KErr EINTR, KOk []]" and rc=RC0 and s'=s'
      and batch="[\<lparr>ee_events = 1, ee_ptr = 7\<rparr>]"
      and q=kq_ex and ig=False and bs="[KErr EINTR]" and q'=q'
      and kbatch="[\<lparr>ke_ident = 3, ke_filter = EVFILT_READ, ke_flags = 0, ke_udata = Some 7\<rparr>]"
      and p=pl_w10 and cs="[KErr EINTR]" and p'=p' and ?p1.0=pl_w10 and revs="[4, 0]"]
  note T2 = wait_success_refills_buffer[where s=ep_ex and t=10 and as="[KErr EINTR, KOk []]" and rc="RCneg EINTR" and s'=s'
      and batch="[\<lparr>ee_events = 1, ee_ptr = 7\<rparr>]"
      and q=kq_ex and ig=False and bs="[KErr EINTR]" and q'=q'
      and kbatch="[\<lparr>ke_ident = 3, ke_filter = EVFILT_READ, ke_flags = 0, ke_udata = Some 7\<rparr>]"
      and p=pl_w10 and cs="[KErr EINTR]" and p'=p' and ?p1.0=pl_w10 and revs="[4, 0]"]
  from T1 e have a1: "ep_index s' = 0" by (elim conjE) simp
  from T2 k have a2: "kq_index q' = 0" by (elim conjE) simp
  from T2 p have a3: "pl_index p' = 0" by (elim conjE) simp
  from T1 have a4: "\<exists>s1. nn_poller_wait_epoll ep_ex 10 [KOk [\<lparr>ee_events = 1, ee_ptr = 7\<rparr>], KErr EINTR, KOk []]
            = Inr (RC0, s1) \<and>
      ep_index s1 = 0 \<and> ep_nevents s1 = 1 \<and>
      ep_live s1 = [\<lparr>ee_events = 1, ee_ptr = 7\<rparr>] \<and>
      ep_klog s1 = [EpollWait NN_POLLER_MAX_EVENTS 10]"
    by (elim conjE) (simp add: m f)
  from T1 have a5: "\<exists>q1. nn_poller_wait_kqueue False kq_ex 10
              [KOk [\<lparr>ke_ident = 3, ke_filter = EVFILT_READ, ke_flags = 0, ke_udata = Some 7\<rparr>],
               KErr EINTR]
            = Inr (RC0, q1) \<and>
      kq_index q1 = 0 \<and> kq_nevents q1 = 1 \<and>
      kq_live q1 = [\<lparr>ke_ident = 3, ke_filter = EVFILT_READ, ke_flags = 0, ke_udata = Some 7\<rparr>] \<and>
      kq_klog q1 = [KeventWait NN_POLLER_MAX_EVENTS (Some (0, 10000000))]"
    by (elim conjE) (simp add: m f)
  have h: "pl_compact pl_w10 = Inr pl_w10 \<and> pl_size pl_w10 \<le> int (length (pl_pollset pl_w10)) \<and>
      length [4, 0 :: 16 word] = nat (pl_size pl_w10)"
    using c f by simp
  from T1[THEN conjunct2, THEN conjunct2, THEN conjunct2, THEN conjunct2, THEN conjunct2, THEN mp, OF h]
  obtain p2 where p2: "nn_poller_wait_poll False pl_w10 10 [KOk [4, 0], KErr EINTR] = Inr (RC0, p2)"
    "pl_index p2 = 0" "pl_size p2 = pl_size pl_w10"
    "\<forall>k<nat (pl_size pl_w10). pl_pollset p2 ! k = (pl_pollset pl_w10 ! k)\<lparr>pf_revents := [4, 0] ! k\<rparr>"
    "pl_klog p2 = pl_klog pl_w10 @ [Poll (pl_size pl_w10) 10]"
    by blast
  from p2(4)[rule_format, of 0] p2(4)[rule_format, of "Suc 0"] f
  have r: "pf_revents (pl_pollset p2 ! 0) = 4" "pf_revents (pl_pollset p2 ! Suc 0) = 0" by simp_all
  have a6: "\<exists>p2. nn_poller_wait_poll False pl_w10 10 [KOk [4, 0], KErr EINTR] = Inr (RC0, p2) \<and>
         pl_index p2 = 0 \<and> pl_size p2 = 2 \<and>
         pf_revents (pl_pollset p2 ! 0) = 4 \<and> pf_revents (pl_pollset p2 ! Suc 0) = 0 \<and>
         pl_klog p2 = [Poll 2 10]"
    by (rule exI[of _ p2]) (use p2 r f in simp)
  have b1: "\<exists>s'. nn_poller_wait_epoll ep_ex 10 [KErr EINTR, KOk []] = Inr (RC0, s') \<and> ep_index s' = 0"
    using e a1 by blast
  have b2: "\<exists>q'. nn_poller_wait_kqueue False kq_ex 10 [KErr EINTR] = Inr (RCneg EINTR, q') \<and> kq_index q' = 0"
    using k a2 by blast
  have b3: "\<exists>p'. nn_poller_wait_poll False pl_w10 10 [KErr EINTR] = Inr (RCneg EINTR, p') \<and> pl_index p' = 0"
    using p a3 by blast
  show ?thesis
    by (intro conjI b1 b2 b3 a4 a5 a6 c) (simp_all add: f)
qed

definition pl_c6 :: pl_poller where
  "pl_c6 = pl_ex\<lparr>pl_size := 1, pl_index := 1,
     pl_pollset := [\<lparr>pf_fd = 3, pf_events = 1, pf_revents = 0x10\<rparr>]
                  @ replicate 15 \<lparr>pf_fd = 0, pf_events = 0, pf_revents = 0\<rparr>,
     pl_hndls := [\<lparr>hi_hndl = Some 7, hi_prev = 0, hi_next = 0\<rparr>]
                  @ replicate 15 \<lparr>hi_hndl = None, hi_prev = 0, hi_next = 0\<rparr>\<rparr>"

lemma ep_invalidate_overrun:
  "n < i \<Longrightarrow> 0 \<le> i \<Longrightarrow> ep_invalidate f h i n evs = Inl OutOfBounds"
proof (induction f h i n evs rule: ep_invalidate.induct)
  case (1 f hndl i n evs)
  show ?case
  proof (cases "int (length evs) \<le> i")
    case True
    with "1.prems" show ?thesis by (subst ep_invalidate.simps) simp
  next
    case False
    let ?evs = "(if ee_ptr (evs ! nat i) = hndl
              then evs[nat i := (evs ! nat i)\<lparr>ee_events := f (ee_events (evs ! nat i))\<rparr>]
              else evs)"
    from "1.prems" False have "ep_invalidate f hndl (i + 1) n ?evs = Inl OutOfBounds"
      by (intro "1.IH") auto
    with "1.prems" False show ?thesis by (subst ep_invalidate.simps) simp
  qed
qed

text \<open>
  Claim C6 (every call of \<^verbatim>\<open>nn_poller_wait\<close> resets the cursor and replaces the contents of
  the buffer by a fresh batch) does not hold for two calls in which the wait of the
  operating system fails.

  In the epoll backend the assertion after the loop reads \<^verbatim>\<open>self->nevents\<close>, which was set
  to zero four lines above, and not the local \<^verbatim>\<open>nevents\<close>. When \<^verbatim>\<open>epoll_wait\<close> fails with
  an error other than \<^verbatim>\<open>EINTR\<close> (here \<^verbatim>\<open>EBADF\<close>) the call stores \<open>-1\<close> as the count and
  returns \<open>0\<close>; the loop of the next \<^verbatim>\<open>nn_poller_rm\<close>, which runs until the cursor equals the
  count, leaves the array. The kqueue and the poll backend abort on the same failure.

  In the poll backend built without \<^verbatim>\<open>NN_IGNORE_EINTR\<close> a call that returns \<^verbatim>\<open>-EINTR\<close> has
  set the cursor to zero and left the reported events of the last batch in the array,
  where the kqueue backend has set the count to zero. In the context \<open>pl_c6\<close> the batch
  is drained (the cursor is at the size); the hang-up of handle 7 was delivered as ERR,
  which does not clear the reported events. After the interrupted call the same event
  is delivered again.
\<close>

theorem wait_without_fresh_batch:
  "nn_poller_wait_epoll s t (KErr EBADF # as) =
     Inr (RC0, s\<lparr>ep_nevents := - 1, ep_index := 0,
                 ep_klog := ep_klog s @ [EpollWait NN_POLLER_MAX_EVENTS t]\<rparr>) \<and>
   nn_poller_rm_epoll (s\<lparr>ep_nevents := - 1, ep_index := 0,
                 ep_klog := ep_klog s @ [EpollWait NN_POLLER_MAX_EVENTS t]\<rparr>) h = Inl OutOfBounds \<and>
   nn_poller_wait_kqueue ig q t (KErr EBADF # bs) = Inl Abort \<and>
   nn_poller_wait_poll ig pl_c6 t (KErr EBADF # cs) = Inl Abort \<and>
   kq_pending (q\<lparr>kq_nevents := 0, kq_index := 0, kq_klog := kq_klog q @
        [KeventWait NN_POLLER_MAX_EVENTS
           (if 0 \<le> t then Some (c_div t 1000, c_mod t 1000 * 1000000) else None)]\<rparr>) = [] \<and>
   nn_poller_wait_kqueue False q t (KErr EINTR # bs) =
     Inr (RCneg EINTR, q\<lparr>kq_nevents := 0, kq_index := 0, kq_klog := kq_klog q @
        [KeventWait NN_POLLER_MAX_EVENTS
           (if 0 \<le> t then Some (c_div t 1000, c_mod t 1000 * 1000000) else None)]\<rparr>) \<and>
   delivered nn_poller_event_poll 2 pl_c6 = [] \<and>
   nn_poller_wait_poll False pl_c6 0 [KErr EINTR] =
     Inr (RCneg EINTR, pl_c6\<lparr>pl_index := 0, pl_klog := [Poll 1 0]\<rparr>) \<and>
   delivered nn_poller_event_poll 2 (pl_c6\<lparr>pl_index := 0, pl_klog := [Poll 1 0]\<rparr>)
     = [(NN_POLLER_ERR, Some 7)]"
proof -
  have c: "pl_compact pl_c6 = Inr pl_c6" by (rule pl_compact_idle) (simp add: pl_c6_def pl_ex_def)
  have wf: "pl_wf pl_c6" "pl_wf (pl_c6\<lparr>pl_index := 0, pl_klog := [Poll 1 0]\<rparr>)"
    by (simp_all add: pl_wf_def pl_c6_def pl_ex_def)
  have w: "(0x10 :: 16 word) AND POLLIN = 0" "(0x10 :: 16 word) AND POLLOUT = 0"
    by (simp_all add: POLLIN_def POLLOUT_def)
  have p0: "pl_pending pl_c6 = []" by (simp add: pl_pending_def pl_c6_def)
  have p1: "pl_pending (pl_c6\<lparr>pl_index := 0, pl_klog := [Poll 1 0]\<rparr>) = [(NN_POLLER_ERR, Some 7)]"
    using pl_pend1_err[of "\<lparr>pf_fd = 3, pf_events = 1, pf_revents = 0x10\<rparr>"
        "\<lparr>hi_hndl = Some 7, hi_prev = 0, hi_next = 0\<rparr>"] w
    by (simp add: pl_pending_def pl_slot_def pl_c6_def pl_ex_def)
  have a1: "nn_poller_wait_epoll s t (KErr EBADF # as) =
     Inr (RC0, s\<lparr>ep_nevents := - 1, ep_index := 0,
                 ep_klog := ep_klog s @ [EpollWait NN_POLLER_MAX_EVENTS t]\<rparr>)"
    by (simp add: nn_poller_wait_epoll_def Let_def)
  have a2: "nn_poller_rm_epoll (s\<lparr>ep_nevents := - 1, ep_index := 0,
                 ep_klog := ep_klog s @ [EpollWait NN_POLLER_MAX_EVENTS t]\<rparr>) h = Inl OutOfBounds"
    by (simp add: nn_poller_rm_epoll_def Let_def ep_invalidate_overrun)
  have a3: "nn_poller_wait_kqueue ig q t (KErr EBADF # bs) = Inl Abort"
    by (simp add: nn_poller_wait_kqueue_def Let_def)
  have a4: "nn_poller_wait_poll ig pl_c6 t (KErr EBADF # cs) = Inl Abort"
    by (simp add: nn_poller_wait_poll_def c Let_def)
  have a5: "kq_pending (q\<lparr>kq_nevents := 0, kq_index := 0, kq_klog := kq_klog q @
        [KeventWait NN_POLLER_MAX_EVENTS
           (if 0 \<le> t then Some (c_div t 1000, c_mod t 1000 * 1000000) else None)]\<rparr>) = []"
    by (simp add: kq_pending_def kq_live_def)
  have a6: "nn_poller_wait_kqueue False q t (KErr EINTR # bs) =
     Inr (RCneg EINTR, q\<lparr>kq_nevents := 0, kq_index := 0, kq_klog := kq_klog q @
        [KeventWait NN_POLLER_MAX_EVENTS
           (if 0 \<le> t then Some (c_div t 1000, c_mod t 1000 * 1000000) else None)]\<rparr>)"
    by (simp add: nn_poller_wait_kqueue_def Let_def)
  have a7: "nn_poller_wait_poll False pl_c6 0 [KErr EINTR] =
     Inr (RCneg EINTR, pl_c6\<lparr>pl_index := 0, pl_klog := [Poll 1 0]\<rparr>)"
    by (simp add: nn_poller_wait_poll_def c Let_def) (simp add: pl_c6_def pl_ex_def)
  have a8: "delivered nn_poller_event_poll 2 pl_c6 = []"
    by (simp add: pl_delivered[OF wf(1)] p0)
  have a9: "delivered nn_poller_event_poll 2 (pl_c6\<lparr>pl_index := 0, pl_klog := [Poll 1 0]\<rparr>)
     = [(NN_POLLER_ERR, Some 7)]"
    by (simp add: pl_delivered[OF wf(2)] p1)
  show ?thesis by (intro conjI a1 a2 a3 a4 a5 a6 a7 a8 a9)
qed

section \<open>Removal in two phases in the poll backend\<close>

text \<open>
  The list of removed slots of the poll backend, as the list \<open>xs\<close> of its slots from the
  head \<^verbatim>\<open>self->removed\<close> on: the slots below the size without a handle are exactly those
  of the list, each once; \<^verbatim>\<open>next\<close> of a slot of the list is the following slot, or \<open>-1\<close>
  at the end; \<^verbatim>\<open>prev\<close> of a slot that is not the head is the slot before it. In the loop of
  \<^verbatim>\<open>nn_poller_wait\<close> the \<^verbatim>\<open>prev\<close> field of the head is \<open>-1\<close> or names a slot that the loop
  has dropped already (at or above the size, inside the array).
\<close>

definition pl_free :: "pl_poller \<Rightarrow> nat list \<Rightarrow> bool" where
  "pl_free s xs \<longleftrightarrow>
     distinct xs \<and>
     (\<forall>k. k \<in> set xs \<longleftrightarrow> k < nat (pl_size s) \<and> hi_hndl (pl_hndls s ! k) = None) \<and>
     pl_removed s = (if xs = [] then - 1 else int (hd xs)) \<and>
     (\<forall>j. j < length xs \<longrightarrow>
        hi_next (pl_hndls s ! (xs ! j)) = (if Suc j < length xs then int (xs ! Suc j) else - 1)) \<and>
     (\<forall>j. Suc j < length xs \<longrightarrow> hi_prev (pl_hndls s ! (xs ! Suc j)) = int (xs ! j)) \<and>
     (xs \<noteq> [] \<longrightarrow>
        hi_prev (pl_hndls s ! hd xs) = - 1 \<or>
        (pl_size s \<le> hi_prev (pl_hndls s ! hd xs) \<and>
         hi_prev (pl_hndls s ! hd xs) < int (length (pl_hndls s))))"

text \<open>The invariant of a context of the poll backend: the size is within the two arrays,
  a handle in a slot below the size stores the index of that slot, and the removed slots
  form the list.\<close>

definition pl_inv :: "pl_poller \<Rightarrow> nat list \<Rightarrow> bool" where
  "pl_inv s xs \<longleftrightarrow>
     0 \<le> pl_size s \<and> pl_size s \<le> int (length (pl_pollset s)) \<and>
     pl_size s \<le> int (length (pl_hndls s)) \<and> pl_slots s \<and> pl_free s xs"

lemma pl_inv_head:
  assumes "pl_inv s (i # xs)"
  shows "pl_removed s = int i" "i < nat (pl_size s)" "0 < pl_size s"
    "pl_size s \<le> int (length (pl_pollset s))" "pl_size s \<le> int (length (pl_hndls s))"
    "hi_hndl (pl_hndls s ! i) = None"
    "hi_next (pl_hndls s ! i) = (if xs = [] then - 1 else int (hd xs))"
    "i \<notin> set xs" "distinct xs"
    "\<And>k. k \<in> set xs \<Longrightarrow> k < nat (pl_size s) \<and> hi_hndl (pl_hndls s ! k) = None"
    "\<And>k. k < nat (pl_size s) \<Longrightarrow> hi_hndl (pl_hndls s ! k) = None \<Longrightarrow> k \<noteq> i \<Longrightarrow> k \<in> set xs"
    "\<And>j. j < length xs \<Longrightarrow>
       hi_next (pl_hndls s ! (xs ! j)) = (if Suc j < length xs then int (xs ! Suc j) else - 1)"
    "\<And>j. Suc j < length xs \<Longrightarrow> hi_prev (pl_hndls s ! (xs ! Suc j)) = int (xs ! j)"
    "xs \<noteq> [] \<Longrightarrow> hi_prev (pl_hndls s ! hd xs) = int i"
    "hi_prev (pl_hndls s ! i) = - 1 \<or>
       (pl_size s \<le> hi_prev (pl_hndls s ! i) \<and> hi_prev (pl_hndls s ! i) < int (length (pl_hndls s)))"
    "pl_slots s"
proof -
  from assms have f: "pl_free s (i # xs)" and sl: "pl_slots s" and
    b: "0 \<le> pl_size s" "pl_size s \<le> int (length (pl_pollset s))"
       "pl_size s \<le> int (length (pl_hndls s))"
    by (simp_all add: pl_inv_def)
  from f have d: "distinct (i # xs)"
    and m: "\<And>k. k \<in> set (i # xs) \<longleftrightarrow> k < nat (pl_size s) \<and> hi_hndl (pl_hndls s ! k) = None"
    and r: "pl_removed s = int i"
    and nx: "\<And>j. j < length (i # xs) \<Longrightarrow>
        hi_next (pl_hndls s ! ((i # xs) ! j)) =
          (if Suc j < length (i # xs) then int ((i # xs) ! Suc j) else - 1)"
    and pv: "\<And>j. Suc j < length (i # xs) \<Longrightarrow>
        hi_prev (pl_hndls s ! ((i # xs) ! Suc j)) = int ((i # xs) ! j)"
    and hp: "hi_prev (pl_hndls s ! i) = - 1 \<or>
       (pl_size s \<le> hi_prev (pl_hndls s ! i) \<and> hi_prev (pl_hndls s ! i) < int (length (pl_hndls s)))"
    unfolding pl_free_def by simp_all
  show "pl_removed s = int i" by (rule r)
  from m[of i] show i: "i < nat (pl_size s)" and "hi_hndl (pl_hndls s ! i) = None" by simp_all
  from i show "0 < pl_size s" by simp
  show "pl_size s \<le> int (length (pl_pollset s))" "pl_size s \<le> int (length (pl_hndls s))"
    by (rule b)+
  from nx[of 0] show "hi_next (pl_hndls s ! i) = (if xs = [] then - 1 else int (hd xs))"
    by (cases xs) simp_all
  from d show "i \<notin> set xs" "distinct xs" by simp_all
  show "k < nat (pl_size s) \<and> hi_hndl (pl_hndls s ! k) = None" if "k \<in> set xs" for k
    using m[of k] that by simp
  show "k \<in> set xs" if "k < nat (pl_size s)" "hi_hndl (pl_hndls s ! k) = None" "k \<noteq> i" for k
    using m[of k] that by simp
  show "hi_next (pl_hndls s ! (xs ! j)) = (if Suc j < length xs then int (xs ! Suc j) else - 1)"
    if "j < length xs" for j
    using nx[of "Suc j"] that by simp
  show "hi_prev (pl_hndls s ! (xs ! Suc j)) = int (xs ! j)" if "Suc j < length xs" for j
    using pv[of "Suc j"] that by simp
  show "hi_prev (pl_hndls s ! hd xs) = int i" if "xs \<noteq> []"
    using pv[of 0] that by (cases xs) simp_all
  show "hi_prev (pl_hndls s ! i) = - 1 \<or>
       (pl_size s \<le> hi_prev (pl_hndls s ! i) \<and> hi_prev (pl_hndls s ! i) < int (length (pl_hndls s)))"
    by (rule hp)
  show "pl_slots s" by (rule sl)
qed

text \<open>What the two parts of the loop body compute when all the indices they read are
  within the array.\<close>

lemma pl_move_eq:
  assumes sz: "pl_size s = int n" and b: "n < length (pl_pollset s)" "n < length (pl_hndls s)" "i < n"
    and nx: "hi_next (pl_hndls s ! i) = nx" "nx = - 1 \<or> (0 \<le> nx \<and> nat nx < length (pl_hndls s))"
    and hs1: "hs1 = (if nx \<noteq> - 1 then (pl_hndls s)[nat nx := (pl_hndls s ! nat nx)\<lparr>hi_prev := - 1\<rparr>]
                     else pl_hndls s)"
  shows "pl_move s (int i) =
           Inr (s\<lparr>pl_pollset := (pl_pollset s)[i := pl_pollset s ! n],
                  pl_hndls := hs1[i := hs1 ! n],
                  pl_hmem := (case hi_hndl (hs1 ! n) of None \<Rightarrow> pl_hmem s
                              | Some g \<Rightarrow> (pl_hmem s)(g := int i))\<rparr>)"
proof (cases "nx = - 1")
  case True
  with sz b nx hs1 show ?thesis
    by (simp add: pl_move_def Let_def inb_def)
next
  case False
  with nx have "0 \<le> nx" "nat nx < length (pl_hndls s)" "nx < int (length (pl_hndls s))" by auto
  with False sz b nx(1) hs1 show ?thesis
    by (simp add: pl_move_def Let_def inb_def)
qed

lemma pl_fixup_eq:
  assumes b: "i < length (pl_hndls s)"
    and pv: "hi_prev (pl_hndls s ! i) = pv" "pv = - 1 \<or> (0 \<le> pv \<and> nat pv < length (pl_hndls s) \<and> nat pv \<noteq> i)"
    and nx: "hi_next (pl_hndls s ! i) = nx" "nx = - 1 \<or> (0 \<le> nx \<and> nat nx < length (pl_hndls s))"
    and hs1: "hs1 = (if pv \<noteq> - 1 then (pl_hndls s)[nat pv := (pl_hndls s ! nat pv)\<lparr>hi_next := int i\<rparr>]
                     else pl_hndls s)"
  shows "pl_fixup s (int i) =
           Inr (s\<lparr>pl_hndls := (if nx \<noteq> - 1 then hs1[nat nx := (hs1 ! nat nx)\<lparr>hi_prev := int i\<rparr>] else hs1),
                  pl_removed := (if pl_removed s = pl_size s then int i else pl_removed s)\<rparr>)"
proof -
  have l: "length hs1 = length (pl_hndls s)" using hs1 by simp
  have n1: "hi_next (hs1 ! i) = nx" using hs1 pv nx(1) by (auto simp: nth_list_update)
  have p1: "pv \<noteq> - 1 \<Longrightarrow> 0 \<le> pv \<and> pv < int (length (pl_hndls s))" using pv(2) by auto
  have p2: "nx \<noteq> - 1 \<Longrightarrow> 0 \<le> nx \<and> nx < int (length (pl_hndls s))" using nx(2) by auto
  have ib: "inb (pl_hndls s) (int i)" using b by (simp add: inb_def)
  have pb: "\<not> (pv \<noteq> - 1 \<and> \<not> inb (pl_hndls s) pv)" using p1 by (auto simp: inb_def)
  have nb: "\<not> (nx \<noteq> - 1 \<and> \<not> inb hs1 nx)" using p2 l by (auto simp: inb_def)
  show ?thesis
    unfolding pl_fixup_def Let_def nat_int pv(1) hs1[symmetric] n1 using ib pb nb by simp
qed

lemma pl_invI:
  assumes "0 \<le> pl_size s" "pl_size s \<le> int (length (pl_pollset s))"
    "pl_size s \<le> int (length (pl_hndls s))" "pl_slots s" "distinct xs"
    "\<And>k. k \<in> set xs \<longleftrightarrow> k < nat (pl_size s) \<and> hi_hndl (pl_hndls s ! k) = None"
    "pl_removed s = (if xs = [] then - 1 else int (hd xs))"
    "\<And>j. j < length xs \<Longrightarrow>
        hi_next (pl_hndls s ! (xs ! j)) = (if Suc j < length xs then int (xs ! Suc j) else - 1)"
    "\<And>j. Suc j < length xs \<Longrightarrow> hi_prev (pl_hndls s ! (xs ! Suc j)) = int (xs ! j)"
    "xs \<noteq> [] \<Longrightarrow>
        hi_prev (pl_hndls s ! hd xs) = - 1 \<or>
        (pl_size s \<le> hi_prev (pl_hndls s ! hd xs) \<and>
         hi_prev (pl_hndls s ! hd xs) < int (length (pl_hndls s)))"
  shows "pl_inv s xs"
  unfolding pl_inv_def pl_free_def using assms by blast

text \<open>A removed slot at the head, a live last slot: the last slot moves into the head's place.\<close>

lemma pl_step_live:
  assumes inv: "pl_inv s (i # xs)"
    and n: "n = nat (pl_size s - 1)" and ne: "i \<noteq> n"
    and g: "hi_hndl (pl_hndls s ! n) = Some g"
  shows "\<exists>s'. pl_compact_step s = Inr s' \<and> pl_inv s' xs \<and>
           pl_index s' = pl_index s \<and> pl_klog s' = pl_klog s \<and> pl_capacity s' = pl_capacity s \<and>
           (\<forall>h. pl_registered s h \<longrightarrow> pl_registered s' h \<and>
                pl_pollset s' ! nat (pl_hmem s' h) = pl_pollset s ! nat (pl_hmem s h))"
proof -
  note H = pl_inv_head[OF inv]
  let ?hs = "pl_hndls s" and ?ps = "pl_pollset s"
  let ?nx = "hi_next (?hs ! i)"
  from H(2) n ne have in': "i < n" and nlt: "n < nat (pl_size s)" and sz: "pl_size s - 1 = int n"
    by linarith+
  from nlt H(4,5) have nl: "n < length ?ps" "n < length ?hs" by linarith+
  have nnot: "n \<notin> set xs" using H(10)[of n] g by auto
  have nxn: "?nx \<noteq> - 1 \<Longrightarrow> xs \<noteq> [] \<and> ?nx = int (hd xs) \<and> hd xs \<in> set xs"
    using H(7) by (auto split: if_splits)
  have nxb: "nat ?nx < length ?hs \<and> nat ?nx \<noteq> n \<and> nat ?nx \<noteq> i \<and> 0 \<le> ?nx" if "?nx \<noteq> - 1"
  proof -
    from nxn[OF that] have a: "?nx = int (hd xs)" "hd xs \<in> set xs" by simp_all
    from H(10)[OF a(2)] H(5) have "hd xs < length ?hs" by linarith
    moreover from a(2) nnot H(8) have "hd xs \<noteq> n" "hd xs \<noteq> i" by auto
    ultimately show ?thesis using a(1) by simp
  qed
  define hs1 where "hs1 = (if ?nx \<noteq> - 1 then ?hs[nat ?nx := (?hs ! nat ?nx)\<lparr>hi_prev := - 1\<rparr>] else ?hs)"
  define s2 where "s2 = s\<lparr>pl_removed := ?nx, pl_size := int n\<rparr>"
  define s' where "s' = s2\<lparr>pl_pollset := ?ps[i := ?ps ! n], pl_hndls := hs1[i := ?hs ! n],
               pl_hmem := (pl_hmem s)(g := int i)\<rparr>"
  have l1: "length hs1 = length ?hs" by (simp add: hs1_def)
  have h1n: "hs1 ! n = ?hs ! n" using nxb by (auto simp: hs1_def nth_list_update)
  have mv: "pl_move s2 (int i) = Inr s'"
  proof -
    have "pl_move s2 (int i) =
           Inr (s2\<lparr>pl_pollset := (pl_pollset s2)[i := pl_pollset s2 ! n],
                  pl_hndls := hs1[i := hs1 ! n],
                  pl_hmem := (case hi_hndl (hs1 ! n) of None \<Rightarrow> pl_hmem s2
                              | Some g \<Rightarrow> (pl_hmem s2)(g := int i))\<rparr>)"
    proof (rule pl_move_eq[where nx = ?nx])
      show "pl_size s2 = int n" by (simp add: s2_def)
      show "n < length (pl_pollset s2)" "n < length (pl_hndls s2)" using nl by (simp_all add: s2_def)
      show "i < n" by (rule in')
      show "hi_next (pl_hndls s2 ! i) = ?nx" by (simp add: s2_def)
      show "?nx = - 1 \<or> (0 \<le> ?nx \<and> nat ?nx < length (pl_hndls s2))"
        using nxb by (auto simp: s2_def)
      show "hs1 = (if ?nx \<noteq> - 1 then (pl_hndls s2)[nat ?nx := (pl_hndls s2 ! nat ?nx)\<lparr>hi_prev := - 1\<rparr>]
                     else pl_hndls s2)" by (simp add: hs1_def s2_def)
    qed
    then show ?thesis unfolding h1n g s'_def by (simp add: s2_def)
  qed
  have hi: "hi_hndl (pl_hndls s' ! i) = Some g"
    using in' nl g l1 by (simp add: s'_def)
  have step: "pl_compact_step s = Inr s'"
  proof -
    have "inb (pl_hndls s) (pl_removed s)" using H(1) in' nl by (simp add: inb_def)
    moreover have "s\<lparr>pl_removed := ?nx, pl_size := pl_size s - 1\<rparr> = s2"
      by (simp add: s2_def sz)
    moreover have "inb (pl_hndls s') (int i)" using in' nl l1 by (simp add: inb_def s'_def)
    moreover have "int i \<noteq> pl_size s2" using in' by (simp add: s2_def)
    ultimately show ?thesis
      using mv hi unfolding pl_compact_step_def Let_def H(1) nat_int
      by simp
  qed
  have f: "pl_size s' = int n" "pl_pollset s' = ?ps[i := ?ps ! n]" "pl_hndls s' = hs1[i := ?hs ! n]"
    "pl_hmem s' = (pl_hmem s)(g := int i)" "pl_removed s' = ?nx"
    "pl_index s' = pl_index s" "pl_klog s' = pl_klog s" "pl_capacity s' = pl_capacity s"
    by (simp_all add: s'_def s2_def)
  have hk: "pl_hndls s' ! k = (if k = i then ?hs ! n else hs1 ! k)" if "k < length ?hs" for k
    using that l1 by (simp add: f nth_list_update)
  have hh: "hi_hndl (hs1 ! k) = hi_hndl (?hs ! k)" "hi_next (hs1 ! k) = hi_next (?hs ! k)" for k
    using nxb by (auto simp: hs1_def nth_list_update)
  have hp: "hi_prev (hs1 ! k) = (if ?nx \<noteq> - 1 \<and> k = nat ?nx then - 1 else hi_prev (?hs ! k))" for k
    using nxb by (auto simp: hs1_def nth_list_update)
  have hmg: "pl_hmem s g = int n" using H(16) nlt g by (simp add: pl_slots_def)
  have inv': "pl_inv s' xs"
  proof (rule pl_invI)
    show "0 \<le> pl_size s'" by (simp add: f)
    show "pl_size s' \<le> int (length (pl_pollset s'))" using nl by (simp add: f)
    show "pl_size s' \<le> int (length (pl_hndls s'))" using nl l1 by (simp add: f)
    show "pl_slots s'" unfolding pl_slots_def
    proof (intro allI impI)
      fix k g' assume a: "k < nat (pl_size s') \<and> hi_hndl (pl_hndls s' ! k) = Some g'"
      then have kn: "k < n" by (simp add: f)
      with nl have kl: "k < length ?hs" by simp
      show "pl_hmem s' g' = int k"
      proof (cases "k = i")
        case True
        with a kl g show ?thesis by (simp add: hk f(4))
      next
        case False
        with a kl have "hi_hndl (?hs ! k) = Some g'" by (simp add: hk hh)
        moreover from kn nlt have "k < nat (pl_size s)" by simp
        ultimately have "pl_hmem s g' = int k" using H(16) by (simp add: pl_slots_def)
        moreover from this hmg kn have "g' \<noteq> g" by auto
        ultimately show ?thesis by (simp add: f(4))
      qed
    qed
    show "distinct xs" by (rule H(9))
    show "k \<in> set xs \<longleftrightarrow> k < nat (pl_size s') \<and> hi_hndl (pl_hndls s' ! k) = None" for k
    proof
      assume k: "k \<in> set xs"
      from H(10)[OF k] have k1: "k < nat (pl_size s)" "hi_hndl (?hs ! k) = None" by simp_all
      from k nnot H(8) have k2: "k \<noteq> n" "k \<noteq> i" by auto
      from k1(1) k2(1) sz have "k < n" by linarith
      moreover from this nl have "k < length ?hs" by simp
      ultimately show "k < nat (pl_size s') \<and> hi_hndl (pl_hndls s' ! k) = None"
        using k1(2) k2(2) by (simp add: hk hh f(1))
    next
      assume a: "k < nat (pl_size s') \<and> hi_hndl (pl_hndls s' ! k) = None"
      then have kn: "k < n" by (simp add: f)
      with nl have kl: "k < length ?hs" by simp
      from a kl g have ki: "k \<noteq> i" by (auto simp: hk)
      with a kl have "hi_hndl (?hs ! k) = None" by (simp add: hk hh)
      moreover from kn nlt have "k < nat (pl_size s)" by simp
      ultimately show "k \<in> set xs" using ki H(11)[of k] by simp
    qed
    show "pl_removed s' = (if xs = [] then - 1 else int (hd xs))" using H(7) by (simp add: f)
    show "hi_next (pl_hndls s' ! (xs ! j)) = (if Suc j < length xs then int (xs ! Suc j) else - 1)"
      if "j < length xs" for j
    proof -
      from that have m: "xs ! j \<in> set xs" by simp
      from H(10)[OF m] H(5) have "xs ! j < length ?hs" by linarith
      moreover from m H(8) have "xs ! j \<noteq> i" by auto
      ultimately show ?thesis using H(12)[OF that] by (simp add: hk hh)
    qed
    show "hi_prev (pl_hndls s' ! (xs ! Suc j)) = int (xs ! j)" if "Suc j < length xs" for j
    proof -
      from that have m: "xs ! Suc j \<in> set xs" by simp
      from H(10)[OF m] H(5) have "xs ! Suc j < length ?hs" by linarith
      moreover from m H(8) have "xs ! Suc j \<noteq> i" by auto
      moreover have "xs ! Suc j \<noteq> hd xs"
        using that H(9) by (cases xs) (auto simp: nth_eq_iff_index_eq)
      then have "\<not> (?nx \<noteq> - 1 \<and> xs ! Suc j = nat ?nx)" using nxn by auto
      ultimately show ?thesis using H(13)[OF that] by (simp add: hk hp)
    qed
    show "hi_prev (pl_hndls s' ! hd xs) = - 1 \<or>
        (pl_size s' \<le> hi_prev (pl_hndls s' ! hd xs) \<and>
         hi_prev (pl_hndls s' ! hd xs) < int (length (pl_hndls s')))" if "xs \<noteq> []"
    proof -
      from that have m: "hd xs \<in> set xs" by simp
      from H(10)[OF m] H(5) have "hd xs < length ?hs" by linarith
      moreover from m H(8) have "hd xs \<noteq> i" by auto
      moreover from that H(7) have "?nx \<noteq> - 1 \<and> hd xs = nat ?nx" by simp
      ultimately show ?thesis by (simp add: hk hp)
    qed
  qed
  have reg: "pl_registered s' h \<and> pl_pollset s' ! nat (pl_hmem s' h) = ?ps ! nat (pl_hmem s h)"
    if r: "pl_registered s h" for h
  proof (cases "h = g")
    case True
    with hmg in' nl g l1 show ?thesis by (simp add: pl_registered_def f)
  next
    case False
    from r have a: "0 \<le> pl_hmem s h" "pl_hmem s h < pl_size s"
      "hi_hndl (?hs ! nat (pl_hmem s h)) = Some h" by (simp_all add: pl_registered_def)
    let ?k = "nat (pl_hmem s h)"
    from a(3) g False have kn: "?k \<noteq> n" by auto
    from a(3) H(6) have ki: "?k \<noteq> i" by auto
    from a(1,2) kn sz have klt: "?k < n" by linarith
    with nl have kl: "?k < length ?hs" by simp
    from False have hm: "pl_hmem s' h = pl_hmem s h" by (simp add: f)
    show ?thesis unfolding pl_registered_def hm
      using a klt ki kl by (simp add: hk hh f(1,2))
  qed
  from step inv' reg f(6,7,8) show ?thesis by blast
qed

text \<open>The head of the list is the last slot: the size shrinks, nothing moves.\<close>

lemma pl_step_last:
  assumes inv: "pl_inv s (i # xs)"
    and n: "i = nat (pl_size s - 1)"
  shows "\<exists>s'. pl_compact_step s = Inr s' \<and> pl_inv s' xs \<and>
           pl_index s' = pl_index s \<and> pl_klog s' = pl_klog s \<and> pl_capacity s' = pl_capacity s \<and>
           (\<forall>h. pl_registered s h \<longrightarrow> pl_registered s' h \<and>
                pl_pollset s' ! nat (pl_hmem s' h) = pl_pollset s ! nat (pl_hmem s h))"
proof -
  note H = pl_inv_head[OF inv]
  let ?hs = "pl_hndls s" and ?ps = "pl_pollset s"
  let ?nx = "hi_next (?hs ! i)" and ?pv = "hi_prev (?hs ! i)"
  from H(2,3) n have sz: "pl_size s - 1 = int i" "pl_size s = int i + 1" by linarith+
  from sz have szn: "nat (pl_size s) = Suc i" by simp
  from H(2,4,5) have nl: "i < length ?ps" "i < length ?hs" by linarith+
  have nxn: "?nx \<noteq> - 1 \<Longrightarrow> xs \<noteq> [] \<and> ?nx = int (hd xs) \<and> hd xs \<in> set xs"
    using H(7) by (auto split: if_splits)
  have xlt: "k < i" if "k \<in> set xs" for k
  proof -
    from H(10)[OF that] szn have "k < i + 1" by simp
    moreover from that H(8) have "k \<noteq> i" by auto
    ultimately show ?thesis by simp
  qed
  have nxb: "nat ?nx < i \<and> 0 \<le> ?nx \<and> nat ?nx \<in> set xs" if "?nx \<noteq> - 1"
    using nxn[OF that] xlt[of "hd xs"] by simp
  have pvb: "i < nat ?pv \<and> 0 \<le> ?pv \<and> nat ?pv < length ?hs" if "?pv \<noteq> - 1"
    using H(15) that sz by auto
  define hs1 where "hs1 = (if ?pv \<noteq> - 1 then ?hs[nat ?pv := (?hs ! nat ?pv)\<lparr>hi_next := int i\<rparr>] else ?hs)"
  define hs2 where "hs2 = (if ?nx \<noteq> - 1 then hs1[nat ?nx := (hs1 ! nat ?nx)\<lparr>hi_prev := int i\<rparr>] else hs1)"
  define s2 where "s2 = s\<lparr>pl_removed := ?nx, pl_size := int i\<rparr>"
  define s' where "s' = s2\<lparr>pl_hndls := hs2\<rparr>"
  have l1: "length hs1 = length ?hs" "length hs2 = length ?hs" by (simp_all add: hs1_def hs2_def)
  have fx: "pl_fixup s2 (int i) = Inr s'"
  proof -
    have "pl_fixup s2 (int i) =
           Inr (s2\<lparr>pl_hndls := (if ?nx \<noteq> - 1 then hs1[nat ?nx := (hs1 ! nat ?nx)\<lparr>hi_prev := int i\<rparr>] else hs1),
                  pl_removed := (if pl_removed s2 = pl_size s2 then int i else pl_removed s2)\<rparr>)"
    proof (rule pl_fixup_eq[where pv = ?pv])
      show "i < length (pl_hndls s2)" using nl by (simp add: s2_def)
      show "hi_prev (pl_hndls s2 ! i) = ?pv" by (simp add: s2_def)
      show "?pv = - 1 \<or> (0 \<le> ?pv \<and> nat ?pv < length (pl_hndls s2) \<and> nat ?pv \<noteq> i)"
        using pvb by (auto simp: s2_def)
      show "hi_next (pl_hndls s2 ! i) = ?nx" by (simp add: s2_def)
      show "?nx = - 1 \<or> (0 \<le> ?nx \<and> nat ?nx < length (pl_hndls s2))"
        using nxb nl by (auto simp: s2_def)
      show "hs1 = (if ?pv \<noteq> - 1 then (pl_hndls s2)[nat ?pv := (pl_hndls s2 ! nat ?pv)\<lparr>hi_next := int i\<rparr>]
                     else pl_hndls s2)" by (simp add: hs1_def s2_def)
    qed
    moreover have "(if pl_removed s2 = pl_size s2 then int i else pl_removed s2) = pl_removed s2"
      by (simp add: s2_def)
    ultimately show ?thesis unfolding s'_def hs2_def[symmetric] by simp
  qed
  have step: "pl_compact_step s = Inr s'"
  proof -
    have "inb (pl_hndls s) (pl_removed s)" using H(1) nl by (simp add: inb_def)
    moreover have "s\<lparr>pl_removed := ?nx, pl_size := pl_size s - 1\<rparr> = s2"
      by (simp add: s2_def sz)
    moreover have "inb (pl_hndls s2) (int i)" using nl by (simp add: inb_def s2_def)
    moreover have "int i = pl_size s2" by (simp add: s2_def)
    moreover have "hi_hndl (pl_hndls s2 ! i) = None" using H(6) by (simp add: s2_def)
    ultimately show ?thesis
      using fx unfolding pl_compact_step_def Let_def H(1) nat_int
      by simp
  qed
  have f: "pl_size s' = int i" "pl_pollset s' = ?ps" "pl_hndls s' = hs2"
    "pl_hmem s' = pl_hmem s" "pl_removed s' = ?nx"
    "pl_index s' = pl_index s" "pl_klog s' = pl_klog s" "pl_capacity s' = pl_capacity s"
    by (simp_all add: s'_def s2_def)
  have hh: "hi_hndl (hs2 ! k) = hi_hndl (?hs ! k)" for k
    using nxb pvb nl by (auto simp: hs1_def hs2_def nth_list_update)
  have hn: "hi_next (hs2 ! k) = hi_next (?hs ! k)" if "k < i" for k
    using nxb pvb nl that by (auto simp: hs1_def hs2_def nth_list_update)
  have hp: "hi_prev (hs2 ! k) = (if ?nx \<noteq> - 1 \<and> k = nat ?nx then int i else hi_prev (?hs ! k))"
    if "k < i" for k
    using nxb pvb nl that by (auto simp: hs1_def hs2_def nth_list_update)
  have inv': "pl_inv s' xs"
  proof (rule pl_invI)
    show "0 \<le> pl_size s'" by (simp add: f)
    show "pl_size s' \<le> int (length (pl_pollset s'))" using nl by (simp add: f)
    show "pl_size s' \<le> int (length (pl_hndls s'))" using nl l1 by (simp add: f)
    show "pl_slots s'" unfolding pl_slots_def
    proof (intro allI impI)
      fix k g' assume a: "k < nat (pl_size s') \<and> hi_hndl (pl_hndls s' ! k) = Some g'"
      then have "k < nat (pl_size s)" "hi_hndl (?hs ! k) = Some g'" using szn by (simp_all add: f hh)
      then show "pl_hmem s' g' = int k" using H(16) by (simp add: pl_slots_def f)
    qed
    show "distinct xs" by (rule H(9))
    show "k \<in> set xs \<longleftrightarrow> k < nat (pl_size s') \<and> hi_hndl (pl_hndls s' ! k) = None" for k
    proof
      assume k: "k \<in> set xs"
      from H(10)[OF k] xlt[OF k]
      show "k < nat (pl_size s') \<and> hi_hndl (pl_hndls s' ! k) = None" by (simp add: f hh)
    next
      assume a: "k < nat (pl_size s') \<and> hi_hndl (pl_hndls s' ! k) = None"
      then have "k < i" "hi_hndl (?hs ! k) = None" by (simp_all add: f hh)
      then show "k \<in> set xs" using H(11)[of k] szn by simp
    qed
    show "pl_removed s' = (if xs = [] then - 1 else int (hd xs))" using H(7) by (simp add: f)
    show "hi_next (pl_hndls s' ! (xs ! j)) = (if Suc j < length xs then int (xs ! Suc j) else - 1)"
      if "j < length xs" for j
    proof -
      from that have m: "xs ! j \<in> set xs" by simp
      from xlt[OF m] H(12)[OF that] show ?thesis by (simp add: f hn)
    qed
    show "hi_prev (pl_hndls s' ! (xs ! Suc j)) = int (xs ! j)" if "Suc j < length xs" for j
    proof -
      from that have m: "xs ! Suc j \<in> set xs" by simp
      have "xs ! Suc j \<noteq> hd xs"
        using that H(9) by (cases xs) (auto simp: nth_eq_iff_index_eq)
      then have "\<not> (?nx \<noteq> - 1 \<and> xs ! Suc j = nat ?nx)" using nxn by auto
      then show ?thesis using H(13)[OF that] xlt[OF m] by (auto simp add: f hp)
    qed
    show "hi_prev (pl_hndls s' ! hd xs) = - 1 \<or>
        (pl_size s' \<le> hi_prev (pl_hndls s' ! hd xs) \<and>
         hi_prev (pl_hndls s' ! hd xs) < int (length (pl_hndls s')))" if "xs \<noteq> []"
    proof -
      from that have m: "hd xs \<in> set xs" by simp
      moreover from that H(7) have "?nx \<noteq> - 1 \<and> hd xs = nat ?nx" by simp
      ultimately show ?thesis using xlt[OF m] nl l1 by (simp add: f hp)
    qed
  qed
  have reg: "pl_registered s' h \<and> pl_pollset s' ! nat (pl_hmem s' h) = ?ps ! nat (pl_hmem s h)"
    if r: "pl_registered s h" for h
  proof -
    from r have a: "0 \<le> pl_hmem s h" "pl_hmem s h < pl_size s"
      "hi_hndl (?hs ! nat (pl_hmem s h)) = Some h" by (simp_all add: pl_registered_def)
    from a(3) H(6) have "nat (pl_hmem s h) \<noteq> i" by auto
    with a(1,2) sz have "pl_hmem s h < int i" by linarith
    with a show ?thesis by (simp add: pl_registered_def f hh)
  qed
  from step inv' reg f(6,7,8) show ?thesis by blast
qed

text \<open>
  A removed slot at the head, and the last slot is a removed slot too: the last slot
  moves into the head's place and its neighbours in the list are told.
\<close>

lemma pl_step_dead:
  assumes inv: "pl_inv s (i # xs)"
    and n: "n = nat (pl_size s - 1)" and ne: "i \<noteq> n"
    and g: "hi_hndl (pl_hndls s ! n) = None"
  shows "\<exists>s'. pl_compact_step s = Inr s' \<and> pl_inv s' (map (\<lambda>x. if x = n then i else x) xs) \<and>
           pl_index s' = pl_index s \<and> pl_klog s' = pl_klog s \<and> pl_capacity s' = pl_capacity s \<and>
           (\<forall>h. pl_registered s h \<longrightarrow> pl_registered s' h \<and>
                pl_pollset s' ! nat (pl_hmem s' h) = pl_pollset s ! nat (pl_hmem s h))"
proof -
  note H = pl_inv_head[OF inv]
  let ?hs = "pl_hndls s" and ?ps = "pl_pollset s"
  let ?xs' = "map (\<lambda>x. if x = n then i else x) xs"
  from H(2) n ne have in': "i < n" and nlt: "n < nat (pl_size s)" and sz: "pl_size s - 1 = int n"
    and szn: "nat (pl_size s) = Suc n"
    by linarith+
  from nlt H(4,5) have nl: "n < length ?ps" "n < length ?hs" by linarith+
  from in' nl have il: "i < length ?ps" "i < length ?hs" by simp_all
  have nin: "n \<in> set xs" using H(11)[of n] nlt g ne by simp
  then obtain m where m: "m < length xs" "xs ! m = n" by (auto simp: in_set_conv_nth)
  from nin have xne: "xs \<noteq> []" by auto
  then have hd0: "hd xs = xs ! 0" by (simp add: hd_conv_nth)
  from xne have l0: "0 < length xs" by simp
  have dist: "(xs ! a = xs ! b) = (a = b)" if "a < length xs" "b < length xs" for a b
    using nth_eq_iff_index_eq[OF H(9) that] .
  have xb: "xs ! j \<le> n \<and> xs ! j \<noteq> i \<and> xs ! j < length ?hs \<and> hi_hndl (?hs ! (xs ! j)) = None"
    if "j < length xs" for j
  proof -
    from that have a: "xs ! j \<in> set xs" by simp
    from H(10)[OF a] szn have "xs ! j \<le> n" "hi_hndl (?hs ! (xs ! j)) = None" by simp_all
    moreover from a H(8) have "xs ! j \<noteq> i" by auto
    ultimately show ?thesis using nl by simp
  qed
  have nxi: "hi_next (?hs ! i) = int (xs ! 0)" using H(7) xne hd0 by simp

  define hs1 where "hs1 = ?hs[xs ! 0 := (?hs ! (xs ! 0))\<lparr>hi_prev := - 1\<rparr>]"
  define hs3 where "hs3 = hs1[i := hs1 ! n]"
  define pv3 where "pv3 = (if m = 0 then - 1 else int (xs ! (m - 1)))"
  define nx3 where "nx3 = (if Suc m < length xs then int (xs ! Suc m) else - 1)"
  define hs4 where "hs4 = (if pv3 \<noteq> - 1 then hs3[nat pv3 := (hs3 ! nat pv3)\<lparr>hi_next := int i\<rparr>] else hs3)"
  define hs5 where "hs5 = (if nx3 \<noteq> - 1 then hs4[nat nx3 := (hs4 ! nat nx3)\<lparr>hi_prev := int i\<rparr>] else hs4)"
  define s2 where "s2 = s\<lparr>pl_removed := int (xs ! 0), pl_size := int n\<rparr>"
  define s3 where "s3 = s2\<lparr>pl_pollset := ?ps[i := ?ps ! n], pl_hndls := hs3\<rparr>"
  define s' where "s' = s3\<lparr>pl_hndls := hs5, pl_removed := (if m = 0 then int i else int (xs ! 0))\<rparr>"
  have len: "length hs1 = length ?hs" "length hs3 = length ?hs" "length hs4 = length ?hs"
    "length hs5 = length ?hs"
    by (simp_all add: hs1_def hs3_def hs4_def hs5_def)
  have pvc: "(pv3 \<noteq> - 1) = (m \<noteq> 0)" "m \<noteq> 0 \<Longrightarrow> nat pv3 = xs ! (m - 1)"
    by (simp_all add: pv3_def)
  have nxc: "(nx3 \<noteq> - 1) = (Suc m < length xs)" "Suc m < length xs \<Longrightarrow> nat nx3 = xs ! Suc m"
    by (simp_all add: nx3_def)

  have h1: "hs1 ! k = (if k = xs ! 0 then (?hs ! k)\<lparr>hi_prev := - 1\<rparr> else ?hs ! k)"
    if "k < length ?hs" for k
    using that by (simp add: hs1_def nth_list_update)
  have h1n: "hi_hndl (hs1 ! n) = None" "hi_next (hs1 ! n) = nx3" "hi_prev (hs1 ! n) = pv3"
  proof -
    show "hi_hndl (hs1 ! n) = None" using g nl by (auto simp add: h1)
    show "hi_next (hs1 ! n) = nx3" using H(12)[OF m(1)] m nl by (auto simp add: h1 nx3_def)
    show "hi_prev (hs1 ! n) = pv3"
    proof (cases "m = 0")
      case True
      with m nl show ?thesis by (auto simp add: h1 pv3_def)
    next
      case False
      then obtain j where j: "m = Suc j" by (cases m) auto
      with m(1) have "hi_prev (?hs ! (xs ! Suc j)) = int (xs ! j)" by (intro H(13)) simp
      moreover from dist[of m 0] m l0 False have "n \<noteq> xs ! 0" by auto
      ultimately show ?thesis using j m nl by (auto simp add: h1 pv3_def)
    qed
  qed
  have h3: "hs3 ! k = (if k = i then hs1 ! n else hs1 ! k)" if "k < length ?hs" for k
    using that len by (simp add: hs3_def nth_list_update)

  have mv: "pl_move s2 (int i) = Inr s3"
  proof -
    have "pl_move s2 (int i) =
           Inr (s2\<lparr>pl_pollset := (pl_pollset s2)[i := pl_pollset s2 ! n],
                  pl_hndls := hs1[i := hs1 ! n],
                  pl_hmem := (case hi_hndl (hs1 ! n) of None \<Rightarrow> pl_hmem s2
                              | Some g \<Rightarrow> (pl_hmem s2)(g := int i))\<rparr>)"
    proof (rule pl_move_eq[where nx = "int (xs ! 0)"])
      show "pl_size s2 = int n" by (simp add: s2_def)
      show "n < length (pl_pollset s2)" "n < length (pl_hndls s2)" using nl by (simp_all add: s2_def)
      show "i < n" by (rule in')
      show "hi_next (pl_hndls s2 ! i) = int (xs ! 0)" using nxi by (simp add: s2_def)
      show "int (xs ! 0) = - 1 \<or> (0 \<le> int (xs ! 0) \<and> nat (int (xs ! 0)) < length (pl_hndls s2))"
        using xb[OF l0] by (simp add: s2_def)
      show "hs1 = (if int (xs ! 0) \<noteq> - 1
                   then (pl_hndls s2)[nat (int (xs ! 0)) := (pl_hndls s2 ! nat (int (xs ! 0)))\<lparr>hi_prev := - 1\<rparr>]
                   else pl_hndls s2)" by (simp add: hs1_def s2_def)
    qed
    then show ?thesis unfolding h1n s3_def hs3_def by (simp add: s2_def)
  qed
  have fx: "pl_fixup s3 (int i) = Inr s'"
  proof -
    have "pl_fixup s3 (int i) =
           Inr (s3\<lparr>pl_hndls := (if nx3 \<noteq> - 1 then hs4[nat nx3 := (hs4 ! nat nx3)\<lparr>hi_prev := int i\<rparr>] else hs4),
                  pl_removed := (if pl_removed s3 = pl_size s3 then int i else pl_removed s3)\<rparr>)"
    proof (rule pl_fixup_eq[where pv = pv3])
      show "i < length (pl_hndls s3)" using il len by (simp add: s3_def)
      show "hi_prev (pl_hndls s3 ! i) = pv3" using il h1n by (simp add: s3_def h3)
      show "hi_next (pl_hndls s3 ! i) = nx3" using il h1n by (simp add: s3_def h3)
      show "pv3 = - 1 \<or> (0 \<le> pv3 \<and> nat pv3 < length (pl_hndls s3) \<and> nat pv3 \<noteq> i)"
      proof (cases "m = 0")
        case True
        then show ?thesis by (simp add: pv3_def)
      next
        case False
        with m(1) have "m - 1 < length xs" by simp
        from xb[OF this] False len show ?thesis by (simp add: pv3_def s3_def)
      qed
      show "nx3 = - 1 \<or> (0 \<le> nx3 \<and> nat nx3 < length (pl_hndls s3))"
        using xb[of "Suc m"] len by (simp add: nx3_def s3_def)
      show "hs4 = (if pv3 \<noteq> - 1 then (pl_hndls s3)[nat pv3 := (pl_hndls s3 ! nat pv3)\<lparr>hi_next := int i\<rparr>]
                     else pl_hndls s3)" by (simp add: hs4_def s3_def)
    qed
    moreover have "(if pl_removed s3 = pl_size s3 then int i else pl_removed s3) =
                   (if m = 0 then int i else int (xs ! 0))"
      using dist[of 0 m] m l0 by (auto simp: s3_def s2_def)
    ultimately show ?thesis unfolding s'_def hs5_def[symmetric] by simp
  qed
  have step: "pl_compact_step s = Inr s'"
  proof -
    have "inb (pl_hndls s) (pl_removed s)" using H(1) il by (simp add: inb_def)
    moreover have "s\<lparr>pl_removed := hi_next (?hs ! i), pl_size := pl_size s - 1\<rparr> = s2"
      by (simp add: s2_def sz nxi)
    moreover have "inb (pl_hndls s3) (int i)" using il len by (simp add: inb_def s3_def)
    moreover have "int i \<noteq> pl_size s2" using in' by (simp add: s2_def)
    moreover have "hi_hndl (pl_hndls s3 ! i) = None" using il h1n by (simp add: s3_def h3)
    ultimately show ?thesis
      using mv fx unfolding pl_compact_step_def Let_def H(1) nat_int
      by simp
  qed
  have f: "pl_size s' = int n" "pl_pollset s' = ?ps[i := ?ps ! n]" "pl_hndls s' = hs5"
    "pl_hmem s' = pl_hmem s" "pl_removed s' = (if m = 0 then int i else int (xs ! 0))"
    "pl_index s' = pl_index s" "pl_klog s' = pl_klog s" "pl_capacity s' = pl_capacity s"
    by (simp_all add: s'_def s3_def s2_def)
  have pvl: "nat pv3 < length ?hs \<and> nat pv3 \<noteq> i" if "m \<noteq> 0"
  proof -
    from that m(1) have "m - 1 < length xs" by simp
    from xb[OF this] that show ?thesis by (simp add: pvc)
  qed
  have nxl: "nat nx3 < length ?hs \<and> nat nx3 \<noteq> i" if "Suc m < length xs"
    using xb[OF that] that by (simp add: nxc)
  have h4: "hs4 ! k = (if m \<noteq> 0 \<and> k = xs ! (m - 1) then (hs3 ! k)\<lparr>hi_next := int i\<rparr> else hs3 ! k)"
    if "k < length ?hs" for k
    using that len pvc by (auto simp: hs4_def nth_list_update)
  have h5: "hs5 ! k = (if Suc m < length xs \<and> k = xs ! Suc m then (hs4 ! k)\<lparr>hi_prev := int i\<rparr> else hs4 ! k)"
    if "k < length ?hs" for k
    using that len nxc by (auto simp: hs5_def nth_list_update)
  have d3: "hi_hndl (hs3 ! k) = (if k = i then None else hi_hndl (?hs ! k))"
    and n3: "hi_next (hs3 ! k) = (if k = i then nx3 else hi_next (?hs ! k))"
    and p3: "hi_prev (hs3 ! k) =
       (if k = i then pv3 else if k = xs ! 0 then - 1 else hi_prev (?hs ! k))"
    if "k < length ?hs" for k
  proof -
    show "hi_hndl (hs3 ! k) = (if k = i then None else hi_hndl (?hs ! k))"
    proof (cases "k = i")
      case True
      with that h1n(1) show ?thesis by (simp add: h3)
    next
      case False
      with that show ?thesis by (cases "k = xs ! 0") (simp_all add: h3 h1)
    qed
    show "hi_next (hs3 ! k) = (if k = i then nx3 else hi_next (?hs ! k))"
    proof (cases "k = i")
      case True
      with that h1n(2) show ?thesis by (simp add: h3)
    next
      case False
      with that show ?thesis by (cases "k = xs ! 0") (simp_all add: h3 h1)
    qed
    show "hi_prev (hs3 ! k) =
       (if k = i then pv3 else if k = xs ! 0 then - 1 else hi_prev (?hs ! k))"
    proof (cases "k = i")
      case True
      with that h1n(3) show ?thesis by (simp add: h3)
    next
      case False
      with that show ?thesis by (cases "k = xs ! 0") (simp_all add: h3 h1)
    qed
  qed
  have d4: "hi_hndl (hs4 ! k) = hi_hndl (hs3 ! k)"
    and n4: "hi_next (hs4 ! k) = (if m \<noteq> 0 \<and> k = xs ! (m - 1) then int i else hi_next (hs3 ! k))"
    and p4: "hi_prev (hs4 ! k) = hi_prev (hs3 ! k)"
    if "k < length ?hs" for k
  proof -
    show "hi_hndl (hs4 ! k) = hi_hndl (hs3 ! k)"
      using that by (cases "m \<noteq> 0 \<and> k = xs ! (m - 1)") (simp_all only: h4 if_True if_False, simp)
    show "hi_next (hs4 ! k) = (if m \<noteq> 0 \<and> k = xs ! (m - 1) then int i else hi_next (hs3 ! k))"
      using that by (cases "m \<noteq> 0 \<and> k = xs ! (m - 1)") (simp_all only: h4 if_True if_False, simp)
    show "hi_prev (hs4 ! k) = hi_prev (hs3 ! k)"
      using that by (cases "m \<noteq> 0 \<and> k = xs ! (m - 1)") (simp_all only: h4 if_True if_False, simp)
  qed
  have d5: "hi_hndl (hs5 ! k) = hi_hndl (hs4 ! k)"
    and n5: "hi_next (hs5 ! k) = hi_next (hs4 ! k)"
    and p5: "hi_prev (hs5 ! k) = (if Suc m < length xs \<and> k = xs ! Suc m then int i else hi_prev (hs4 ! k))"
    if "k < length ?hs" for k
  proof -
    show "hi_hndl (hs5 ! k) = hi_hndl (hs4 ! k)"
      using that by (cases "Suc m < length xs \<and> k = xs ! Suc m") (simp_all only: h5 if_True if_False, simp)
    show "hi_next (hs5 ! k) = hi_next (hs4 ! k)"
      using that by (cases "Suc m < length xs \<and> k = xs ! Suc m") (simp_all only: h5 if_True if_False, simp)
    show "hi_prev (hs5 ! k) = (if Suc m < length xs \<and> k = xs ! Suc m then int i else hi_prev (hs4 ! k))"
      using that by (cases "Suc m < length xs \<and> k = xs ! Suc m") (simp_all only: h5 if_True if_False, simp)
  qed
  have hndl5: "hi_hndl (hs5 ! k) = (if k = i then None else hi_hndl (?hs ! k))"
    if "k < length ?hs" for k
    unfolding d5[OF that] d4[OF that] d3[OF that] ..
  have next5: "hi_next (hs5 ! k) =
      (if m \<noteq> 0 \<and> k = xs ! (m - 1) then int i else if k = i then nx3 else hi_next (?hs ! k))"
    if "k < length ?hs" for k
    unfolding n5[OF that] n4[OF that] n3[OF that] ..
  have prev5: "hi_prev (hs5 ! k) =
      (if Suc m < length xs \<and> k = xs ! Suc m then int i else if k = i then pv3
       else if k = xs ! 0 then - 1 else hi_prev (?hs ! k))"
    if "k < length ?hs" for k
    unfolding p5[OF that] p4[OF that] p3[OF that] ..
  have X: "?xs' ! j = (if j = m then i else xs ! j)" if "j < length xs" for j
    using that dist[OF that m(1)] m(2) by simp
  have inv': "pl_inv s' ?xs'"
  proof (rule pl_invI)
    show "0 \<le> pl_size s'" by (simp add: f)
    show "pl_size s' \<le> int (length (pl_pollset s'))" using nl by (simp add: f)
    show "pl_size s' \<le> int (length (pl_hndls s'))" using nl len by (simp add: f)
    show "pl_slots s'" unfolding pl_slots_def
    proof (intro allI impI)
      fix k g' assume a: "k < nat (pl_size s') \<and> hi_hndl (pl_hndls s' ! k) = Some g'"
      then have kn: "k < n" by (simp add: f)
      with nl have kl: "k < length ?hs" by simp
      from a kl have "k \<noteq> i" "hi_hndl (?hs ! k) = Some g'" by (auto simp: f hndl5 split: if_splits)
      moreover from kn szn have "k < nat (pl_size s)" by simp
      ultimately show "pl_hmem s' g' = int k" using H(16) by (simp add: pl_slots_def f)
    qed
    show "distinct ?xs'" unfolding distinct_conv_nth
    proof (intro allI impI)
      fix a b assume ab: "a < length ?xs'" "b < length ?xs'" "a \<noteq> b"
      then have l: "a < length xs" "b < length xs" by simp_all
      from xb[OF l(1)] xb[OF l(2)] dist[OF l] ab(3) show "?xs' ! a \<noteq> ?xs' ! b"
        unfolding X[OF l(1)] X[OF l(2)] by auto
    qed
    show "k \<in> set ?xs' \<longleftrightarrow> k < nat (pl_size s') \<and> hi_hndl (pl_hndls s' ! k) = None" for k
    proof
      assume "k \<in> set ?xs'"
      then obtain j where j: "j < length xs" "k = ?xs' ! j" by (auto simp: in_set_conv_nth)
      show "k < nat (pl_size s') \<and> hi_hndl (pl_hndls s' ! k) = None"
      proof (cases "j = m")
        case True
        with j X[OF j(1)] have "k = i" by simp
        with in' il show ?thesis by (simp add: f hndl5)
      next
        case False
        with j X[OF j(1)] have k: "k = xs ! j" by simp
        from dist[OF j(1) m(1)] False m(2) have "xs ! j \<noteq> n" by simp
        with xb[OF j(1)] show ?thesis unfolding k by (simp add: f hndl5)
      qed
    next
      assume a: "k < nat (pl_size s') \<and> hi_hndl (pl_hndls s' ! k) = None"
      then have kn: "k < n" by (simp add: f)
      with nl have kl: "k < length ?hs" by simp
      show "k \<in> set ?xs'"
      proof (cases "k = i")
        case True
        with X[OF m(1)] have "k = ?xs' ! m" by simp
        with m(1) show ?thesis by (metis length_map nth_mem)
      next
        case False
        with a kl have "hi_hndl (?hs ! k) = None" by (simp add: f hndl5)
        with kn szn False H(11)[of k] have "k \<in> set xs" by simp
        with kn show ?thesis by auto
      qed
    qed
    show "pl_removed s' = (if ?xs' = [] then - 1 else int (hd ?xs'))"
      using xne X[OF l0] by (simp add: f hd_conv_nth)
    show "hi_next (pl_hndls s' ! (?xs' ! j)) = (if Suc j < length ?xs' then int (?xs' ! Suc j) else - 1)"
      if "j < length ?xs'" for j
    proof -
      from that have jl: "j < length xs" by simp
      show ?thesis
      proof (cases "j = m")
        case True
        have "m \<noteq> 0 \<Longrightarrow> i \<noteq> xs ! (m - 1)" using pvl pvc by auto
        then have "hi_next (hs5 ! i) = nx3" using il by (auto simp: next5)
        moreover have "Suc m < length xs \<Longrightarrow> ?xs' ! Suc m = xs ! Suc m"
          using X[of "Suc m"] by simp
        ultimately show ?thesis unfolding X[OF jl] f(3) using True
          by (simp add: nx3_def del: nth_map)
      next
        case False
        note xj = xb[OF jl]
        show ?thesis
        proof (cases "Suc j = m")
          case True
          then have "m \<noteq> 0 \<and> xs ! j = xs ! (m - 1)" by auto
          then have "hi_next (hs5 ! (xs ! j)) = int i" using xj by (auto simp add: next5)
          moreover have "?xs' ! Suc j = i" using X[OF m(1)] True by simp
          ultimately show ?thesis unfolding X[OF jl] f(3) using False True m(1)
            by (simp del: nth_map)
        next
          case F2: False
          have "\<not> (m \<noteq> 0 \<and> xs ! j = xs ! (m - 1))"
          proof
            assume c: "m \<noteq> 0 \<and> xs ! j = xs ! (m - 1)"
            with m(1) have "m - 1 < length xs" by simp
            from dist[OF jl this] c have "j = m - 1" by simp
            with c F2 show False by simp
          qed
          then have "hi_next (hs5 ! (xs ! j)) = hi_next (?hs ! (xs ! j))" using xj by (auto simp add: next5)
          moreover have "Suc j < length xs \<Longrightarrow> ?xs' ! Suc j = xs ! Suc j"
            using X[of "Suc j"] F2 by simp
          ultimately show ?thesis unfolding X[OF jl] f(3) using False H(12)[OF jl]
            by (simp del: nth_map)
        qed
      qed
    qed
    show "hi_prev (pl_hndls s' ! (?xs' ! Suc j)) = int (?xs' ! j)" if "Suc j < length ?xs'" for j
    proof -
      from that have sl: "Suc j < length xs" and jl: "j < length xs" by simp_all
      show ?thesis
      proof (cases "Suc j = m")
        case True
        have "Suc m < length xs \<Longrightarrow> i \<noteq> xs ! Suc m" using nxl nxc by auto
        then have "hi_prev (hs5 ! i) = pv3" using il by (auto simp: prev5)
        moreover from True have "pv3 = int (xs ! j)" by (auto simp: pv3_def)
        moreover from True have "j \<noteq> m" by simp
        ultimately show ?thesis unfolding X[OF sl] X[OF jl] f(3) using True by simp
      next
        case False
        note xj = xb[OF sl]
        from dist[OF sl l0] have n0: "xs ! Suc j \<noteq> xs ! 0" by simp
        show ?thesis
        proof (cases "j = m")
          case True
          then have "hi_prev (hs5 ! (xs ! Suc j)) = int i" using xj sl by (auto simp add: prev5)
          then show ?thesis unfolding X[OF sl] X[OF jl] f(3) using False True by simp
        next
          case F2: False
          have "\<not> (Suc m < length xs \<and> xs ! Suc j = xs ! Suc m)"
          proof
            assume c: "Suc m < length xs \<and> xs ! Suc j = xs ! Suc m"
            from dist[OF sl] c have "Suc j = Suc m" by blast
            with F2 show False by simp
          qed
          then have "hi_prev (hs5 ! (xs ! Suc j)) = hi_prev (?hs ! (xs ! Suc j))"
            using xj n0 by (auto simp add: prev5)
          then show ?thesis unfolding X[OF sl] X[OF jl] f(3) using False F2 H(13)[OF sl] by simp
        qed
      qed
    qed
    show "hi_prev (pl_hndls s' ! hd ?xs') = - 1 \<or>
        (pl_size s' \<le> hi_prev (pl_hndls s' ! hd ?xs') \<and>
         hi_prev (pl_hndls s' ! hd ?xs') < int (length (pl_hndls s')))" if "?xs' \<noteq> []"
    proof -
      have hx: "hd ?xs' = (if m = 0 then i else xs ! 0)"
        using xne X[OF l0] by (simp add: hd_conv_nth del: nth_map) 
      show ?thesis
      proof (cases "m = 0")
        case True
        have "Suc m < length xs \<Longrightarrow> i \<noteq> xs ! Suc m" using nxl nxc by auto
        then have "hi_prev (hs5 ! i) = pv3" using il by (auto simp: prev5)
        with True show ?thesis unfolding hx f(3) by (simp add: pv3_def)
      next
        case False
        have "\<not> (Suc m < length xs \<and> xs ! 0 = xs ! Suc m)"
        proof
          assume c: "Suc m < length xs \<and> xs ! 0 = xs ! Suc m"
          from dist[OF l0] c have "0 = Suc m" by blast
          then show False by simp
        qed
        then have "hi_prev (hs5 ! (xs ! 0)) = - 1" using xb[OF l0] by (auto simp add: prev5)
        with False show ?thesis unfolding hx f(3) by simp
      qed
    qed
  qed
  have reg: "pl_registered s' h \<and> pl_pollset s' ! nat (pl_hmem s' h) = ?ps ! nat (pl_hmem s h)"
    if r: "pl_registered s h" for h
  proof -
    from r have a: "0 \<le> pl_hmem s h" "pl_hmem s h < pl_size s"
      "hi_hndl (?hs ! nat (pl_hmem s h)) = Some h" by (simp_all add: pl_registered_def)
    let ?k = "nat (pl_hmem s h)"
    from a(3) g have kn: "?k \<noteq> n" by auto
    from a(3) H(6) have ki: "?k \<noteq> i" by auto
    from a(1,2) kn sz have klt: "?k < n" by linarith
    with nl have kl: "?k < length ?hs" by simp
    show ?thesis unfolding pl_registered_def f(4)
      using a klt ki kl by (simp add: hndl5 f(1,2,3))
  qed
  from step inv' reg f(6,7,8) show ?thesis by blast
qed

lemma pl_step_spec:
  assumes inv: "pl_inv s (i # xs)"
  shows "\<exists>s' xs'. pl_compact_step s = Inr s' \<and> pl_inv s' xs' \<and> length xs' = length xs \<and>
           pl_index s' = pl_index s \<and> pl_klog s' = pl_klog s \<and> pl_capacity s' = pl_capacity s \<and>
           (\<forall>h. pl_registered s h \<longrightarrow> pl_registered s' h \<and>
                pl_pollset s' ! nat (pl_hmem s' h) = pl_pollset s ! nat (pl_hmem s h))"
proof (cases "i = nat (pl_size s - 1)")
  case True
  from pl_step_last[OF inv True] show ?thesis by blast
next
  case False
  show ?thesis
  proof (cases "hi_hndl (pl_hndls s ! nat (pl_size s - 1))")
    case None
    from pl_step_dead[OF inv refl False None] obtain s' where
      "pl_compact_step s = Inr s'"
      "pl_inv s' (map (\<lambda>x. if x = nat (pl_size s - 1) then i else x) xs)"
      "pl_index s' = pl_index s" "pl_klog s' = pl_klog s" "pl_capacity s' = pl_capacity s"
      "\<forall>h. pl_registered s h \<longrightarrow> pl_registered s' h \<and>
                pl_pollset s' ! nat (pl_hmem s' h) = pl_pollset s ! nat (pl_hmem s h)"
      by blast
    moreover have "length (map (\<lambda>x. if x = nat (pl_size s - 1) then i else x) xs) = length xs"
      by simp
    ultimately show ?thesis by blast
  next
    case (Some g)
    from pl_step_live[OF inv refl False Some] show ?thesis by blast
  qed
qed

text \<open>
  The loop of \<^verbatim>\<open>nn_poller_wait\<close> ends without touching memory outside the arrays, with
  an empty list of removed slots; the size has dropped by the length of the list, and
  every registered handle is still registered, with the entry it had.
\<close>

lemma pl_compact_spec:
  "pl_inv s xs \<Longrightarrow>
   \<exists>s1. pl_compact s = Inr s1 \<and> pl_inv s1 [] \<and> pl_size s1 = pl_size s - int (length xs) \<and>
        pl_index s1 = pl_index s \<and> pl_klog s1 = pl_klog s \<and> pl_capacity s1 = pl_capacity s \<and>
        (\<forall>h. pl_registered s h \<longrightarrow> pl_registered s1 h \<and>
             pl_pollset s1 ! nat (pl_hmem s1 h) = pl_pollset s ! nat (pl_hmem s h))"
proof (induction "length xs" arbitrary: s xs)
  case 0
  then have "xs = []" by simp
  with "0.prems" have "pl_removed s = - 1" by (simp add: pl_inv_def pl_free_def)
  from pl_compact_idle[OF this] "0.prems" \<open>xs = []\<close> show ?case by simp
next
  case (Suc l)
  then obtain i ys where xs: "xs = i # ys" by (cases xs) auto
  with Suc.prems have inv: "pl_inv s (i # ys)" by simp
  from pl_step_spec[OF inv] obtain s' xs' where
    st: "pl_compact_step s = Inr s'" and inv': "pl_inv s' xs'" and len: "length xs' = length ys"
    and fr: "pl_index s' = pl_index s" "pl_klog s' = pl_klog s" "pl_capacity s' = pl_capacity s"
    and reg: "\<And>h. pl_registered s h \<Longrightarrow> pl_registered s' h \<and>
                pl_pollset s' ! nat (pl_hmem s' h) = pl_pollset s ! nat (pl_hmem s h)"
    by blast
  from Suc.hyps(2) xs len have l: "l = length xs'" by simp
  from Suc.hyps(1)[OF l inv'] obtain s1 where
    c: "pl_compact s' = Inr s1" and inv1: "pl_inv s1 []"
    and sz1: "pl_size s1 = pl_size s' - int (length xs')"
    and fr1: "pl_index s1 = pl_index s'" "pl_klog s1 = pl_klog s'" "pl_capacity s1 = pl_capacity s'"
    and reg1: "\<And>h. pl_registered s' h \<Longrightarrow> pl_registered s1 h \<and>
                pl_pollset s1 ! nat (pl_hmem s1 h) = pl_pollset s' ! nat (pl_hmem s' h)"
    by blast
  from pl_inv_head(1)[OF inv] have "pl_removed s \<noteq> - 1" by simp
  then have "pl_compact s = pl_compact s'" using st by (subst pl_compact.simps) simp
  with c have c1: "pl_compact s = Inr s1" by simp
  from pl_compact_step_size[OF st] sz1 len xs
  have sz: "pl_size s1 = pl_size s - int (length xs)" by simp
  have "pl_registered s1 h \<and> pl_pollset s1 ! nat (pl_hmem s1 h) = pl_pollset s ! nat (pl_hmem s h)"
    if "pl_registered s h" for h
    using reg[OF that] reg1[of h] by simp
  with c1 inv1 sz fr fr1 show ?case by simp
qed



lemma pl_inv_frame:
  assumes "pl_inv s xs" "pl_size s' = pl_size s" "pl_hndls s' = pl_hndls s"
    "pl_removed s' = pl_removed s" "pl_hmem s' = pl_hmem s"
    "length (pl_pollset s') = length (pl_pollset s)"
  shows "pl_inv s' xs"
  using assms unfolding pl_inv_def pl_free_def pl_slots_def by simp

text \<open>
  The four changes of interest and \<^verbatim>\<open>nn_poller_event\<close> touch only the entries of the
  pollset and the cursor.
\<close>

lemma pl_interest_frame:
  assumes "nn_poller_set_in_poll s g = Inr s' \<or> nn_poller_reset_in_poll s g = Inr s' \<or>
           nn_poller_set_out_poll s g = Inr s' \<or> nn_poller_reset_out_poll s g = Inr s'"
  shows "pl_size s' = pl_size s \<and> pl_hndls s' = pl_hndls s \<and> pl_removed s' = pl_removed s \<and>
         pl_hmem s' = pl_hmem s \<and> length (pl_pollset s') = length (pl_pollset s)"
  using assms
  by (auto simp: nn_poller_set_in_poll_def nn_poller_reset_in_poll_def
      nn_poller_set_out_poll_def nn_poller_reset_out_poll_def Let_def split: if_splits)

lemma pl_event_frame:
  assumes "nn_poller_event_poll s = Inr (r, s')"
  shows "pl_size s' = pl_size s \<and> pl_hndls s' = pl_hndls s \<and> pl_removed s' = pl_removed s \<and>
         pl_hmem s' = pl_hmem s \<and> length (pl_pollset s') = length (pl_pollset s)"
  using assms
  by (auto simp: nn_poller_event_poll_def Let_def split: sum.splits if_splits)


text \<open>\<^verbatim>\<open>nn_poller_add\<close> fills the slot at the size; the slots below it and the list of
  removed slots stay as they are.\<close>

lemma pl_add_frame:
  assumes "nn_poller_add_poll s fd g m1 m2 = Inr s'" and "pl_size s \<le> int (length (pl_hndls s))"
    and "pl_size s \<le> int (length (pl_pollset s))"
  shows "pl_size s' = pl_size s + 1 \<and> pl_removed s' = pl_removed s \<and>
         (\<forall>k. k < nat (pl_size s) \<longrightarrow> pl_hndls s' ! k = pl_hndls s ! k \<and>
                                        pl_pollset s' ! k = pl_pollset s ! k)"
  using assms
  by (auto simp: nn_poller_add_poll_def Let_def inb_def nth_append
      split: if_splits option.splits sum.splits)

text \<open>
  The invariant holds from the start: \<^verbatim>\<open>nn_poller_init\<close> gives an empty context with an
  empty list of removed slots, and \<^verbatim>\<open>nn_poller_add\<close> of a handle that no slot holds keeps
  the invariant and the list, and registers the handle. (Outside \<^verbatim>\<open>nn_poller_wait\<close> the
  head of the list has no predecessor.)
\<close>

lemma pl_init_inv:
  "nn_poller_init_poll m1 m2 s = Inr (rc, s') \<Longrightarrow> rc = RC0 \<and> pl_inv s' [] \<and> pl_size s' = 0"
  by (auto simp: nn_poller_init_poll_def Let_def pl_inv_def pl_free_def pl_slots_def
      split: option.splits)

lemma pl_add_slot:
  assumes "nn_poller_add_poll s fd g m1 m2 = Inr s'" and "0 \<le> pl_size s"
  shows "nat (pl_size s) < length (pl_hndls s') \<and> nat (pl_size s) < length (pl_pollset s') \<and>
         hi_hndl (pl_hndls s' ! nat (pl_size s)) = Some g \<and>
         pl_pollset s' ! nat (pl_size s) = \<lparr>pf_fd = fd, pf_events = 0, pf_revents = 0\<rparr> \<and>
         pl_hmem s' = (pl_hmem s)(g := pl_size s)"
  using assms
  by (auto simp: nn_poller_add_poll_def Let_def inb_def
      split: if_splits option.splits sum.splits)

lemma pl_add_inv:
  assumes inv: "pl_inv s xs" and clean: "xs \<noteq> [] \<longrightarrow> hi_prev (pl_hndls s ! hd xs) = - 1"
    and fresh: "\<forall>k. k < nat (pl_size s) \<longrightarrow> hi_hndl (pl_hndls s ! k) \<noteq> Some g"
    and add: "nn_poller_add_poll s fd g m1 m2 = Inr s'"
  shows "pl_inv s' xs \<and> pl_registered s' g \<and>
         (xs \<noteq> [] \<longrightarrow> hi_prev (pl_hndls s' ! hd xs) = - 1) \<and>
         (\<forall>h. pl_registered s h \<longrightarrow> pl_registered s' h)"
proof -
  let ?n = "nat (pl_size s)"
  from inv have b: "0 \<le> pl_size s" "pl_size s \<le> int (length (pl_pollset s))"
      "pl_size s \<le> int (length (pl_hndls s))"
    and sl: "pl_slots s" and fr: "pl_free s xs" by (simp_all add: pl_inv_def)
  from fr have d: "distinct xs"
    and mem: "\<And>j. j \<in> set xs \<longleftrightarrow> j < ?n \<and> hi_hndl (pl_hndls s ! j) = None"
    and r: "pl_removed s = (if xs = [] then - 1 else int (hd xs))"
    and nx: "\<And>j. j < length xs \<Longrightarrow>
        hi_next (pl_hndls s ! (xs ! j)) = (if Suc j < length xs then int (xs ! Suc j) else - 1)"
    and pv: "\<And>j. Suc j < length xs \<Longrightarrow> hi_prev (pl_hndls s ! (xs ! Suc j)) = int (xs ! j)"
    unfolding pl_free_def by simp_all
  from pl_add_frame[OF add b(3,2)] have f: "pl_size s' = pl_size s + 1" "pl_removed s' = pl_removed s"
    and same: "\<And>k. k < ?n \<Longrightarrow> pl_hndls s' ! k = pl_hndls s ! k \<and> pl_pollset s' ! k = pl_pollset s ! k"
    by simp_all
  from pl_add_slot[OF add b(1)] have sl': "?n < length (pl_hndls s')" "?n < length (pl_pollset s')"
    "hi_hndl (pl_hndls s' ! ?n) = Some g" "pl_hmem s' = (pl_hmem s)(g := pl_size s)"
    by simp_all
  from b(1) f have n1: "nat (pl_size s') = Suc ?n" by simp
  have xb: "j < ?n" if "j \<in> set xs" for j using mem[of j] that by simp
  have inv': "pl_inv s' xs"
  proof (rule pl_invI)
    show "0 \<le> pl_size s'" using b f by simp
    show "pl_size s' \<le> int (length (pl_pollset s'))" "pl_size s' \<le> int (length (pl_hndls s'))"
      using sl' f b(1) by linarith+
    show "pl_slots s'" unfolding pl_slots_def
    proof (intro allI impI)
      fix k g' assume a: "k < nat (pl_size s') \<and> hi_hndl (pl_hndls s' ! k) = Some g'"
      show "pl_hmem s' g' = int k"
      proof (cases "k = ?n")
        case True
        with a sl'(3) b(1) show ?thesis by (simp add: sl'(4))
      next
        case False
        with a n1 have k: "k < ?n" by simp
        with a same[OF k] have h: "hi_hndl (pl_hndls s ! k) = Some g'" by simp
        with fresh k have "g' \<noteq> g" by auto
        moreover from sl k h have "pl_hmem s g' = int k" by (simp add: pl_slots_def)
        ultimately show ?thesis by (simp add: sl'(4))
      qed
    qed
    show "distinct xs" by (rule d)
    show "k \<in> set xs \<longleftrightarrow> k < nat (pl_size s') \<and> hi_hndl (pl_hndls s' ! k) = None" for k
    proof (cases "k < ?n")
      case True
      with same[OF True] mem[of k] n1 show ?thesis by simp
    next
      case False
      with mem[of k] sl'(3) n1 show ?thesis by (cases "k = ?n") auto
    qed
    show "pl_removed s' = (if xs = [] then - 1 else int (hd xs))" using r f by simp
    show "hi_next (pl_hndls s' ! (xs ! j)) = (if Suc j < length xs then int (xs ! Suc j) else - 1)"
      if "j < length xs" for j
      using nx[OF that] same[OF xb[of "xs ! j"]] that by simp
    show "hi_prev (pl_hndls s' ! (xs ! Suc j)) = int (xs ! j)" if "Suc j < length xs" for j
      using pv[OF that] same[OF xb[of "xs ! Suc j"]] that by simp
    show "hi_prev (pl_hndls s' ! hd xs) = - 1 \<or>
        (pl_size s' \<le> hi_prev (pl_hndls s' ! hd xs) \<and>
         hi_prev (pl_hndls s' ! hd xs) < int (length (pl_hndls s')))" if "xs \<noteq> []"
      using clean that same[OF xb[of "hd xs"]] by simp
  qed
  have reg: "pl_registered s' g"
    using sl'(3) b(1) f by (simp add: pl_registered_def sl'(4))
  have cl: "xs \<noteq> [] \<longrightarrow> hi_prev (pl_hndls s' ! hd xs) = - 1"
    using clean same[OF xb[of "hd xs"]] by simp
  have keep: "pl_registered s' h" if h: "pl_registered s h" for h
  proof -
    from h have a: "0 \<le> pl_hmem s h" "pl_hmem s h < pl_size s"
      "hi_hndl (pl_hndls s ! nat (pl_hmem s h)) = Some h" by (simp_all add: pl_registered_def)
    from a have k: "nat (pl_hmem s h) < ?n" by simp
    with fresh a(3) have "h \<noteq> g" by auto
    with a same[OF k] f show ?thesis by (simp add: pl_registered_def sl'(4))
  qed
  from inv' reg cl keep show ?thesis by blast
qed





section \<open>A handle that asks for nothing\<close>

text \<open>
  What the operating system guarantees for a batch of the kqueue backend: a record is
  reported for a filter that is registered, so it names a handle whose mask has the bit
  of that filter.
\<close>

definition kq_honours :: "(hptr \<Rightarrow> kq_hndl) \<Rightarrow> kevent list \<Rightarrow> bool" where
  "kq_honours hm evs \<longleftrightarrow>
     (\<forall>e \<in> set evs. \<forall>g. ke_udata e = Some g \<longrightarrow>
        (ke_filter e = EVFILT_READ \<and> kh_events (hm g) AND NN_POLLER_EVENT_IN \<noteq> 0) \<or>
        (ke_filter e = EVFILT_WRITE \<and> kh_events (hm g) AND NN_POLLER_EVENT_OUT \<noteq> 0))"

text \<open>
  What \<^verbatim>\<open>poll\<close> guarantees for the reported events: the read and the write bit are
  reported only for an entry that asked for them.
\<close>

definition pl_honours :: "pollfd list \<Rightarrow> 16 word list \<Rightarrow> bool" where
  "pl_honours ps revs \<longleftrightarrow>
     (\<forall>(p, r) \<in> set (zip ps revs).
        (r AND POLLIN \<noteq> 0 \<longrightarrow> pf_events p AND POLLIN \<noteq> 0) \<and>
        (r AND POLLOUT \<noteq> 0 \<longrightarrow> pf_events p AND POLLOUT \<noteq> 0))"

lemma two_not_delivered:
  assumes "\<exists>rs s'. drains ev n s = Inr (rs, s') \<and> (\<forall>x. Some x \<in> set rs \<longrightarrow> x \<in> set pend)"
    and "x \<notin> set pend" and "y \<notin> set pend"
  shows "\<exists>rs s'. drains ev n s = Inr (rs, s') \<and> Some x \<notin> set rs \<and> Some y \<notin> set rs"
  using assms by blast

lemma ep_zero_interest:
  assumes wf: "ep_wf s" and co: "ep_consistent s"
    and z: "eh_events (ep_hmem s h) AND EPOLLIN = 0" "eh_events (ep_hmem s h) AND EPOLLOUT = 0"
  shows "\<exists>rs s'. drains nn_poller_event_epoll n s = Inr (rs, s') \<and>
           Some (NN_POLLER_IN, h) \<notin> set rs \<and> Some (NN_POLLER_OUT, h) \<notin> set rs"
  by (rule two_not_delivered[OF ep_drains_subset[OF wf]
        ep_consistent_no_in[OF co z(1)] ep_consistent_no_out[OF co z(2)]])

lemma ep_honours_take: "ep_honours hm evs \<Longrightarrow> ep_honours hm (take k evs)"
  by (auto simp: ep_honours_def dest: in_set_takeD)

lemma ep_wait_zero_interest:
  assumes ho: "ep_honours (ep_hmem s) batch"
    and z: "eh_events (ep_hmem s h) AND EPOLLIN = 0" "eh_events (ep_hmem s h) AND EPOLLOUT = 0"
  shows "\<exists>s2. nn_poller_wait_epoll s t (KOk batch # rest) = Inr (RC0, s2) \<and>
           ep_wf s2 \<and> ep_consistent s2 \<and> ep_hmem s2 = ep_hmem s \<and>
           (\<forall>n. \<exists>rs s3. drains nn_poller_event_epoll n s2 = Inr (rs, s3) \<and>
              Some (NN_POLLER_IN, h) \<notin> set rs \<and> Some (NN_POLLER_OUT, h) \<notin> set rs)"
proof -
  from ep_wait_ok[of s t batch rest] obtain s2 where
    s2: "nn_poller_wait_epoll s t (KOk batch # rest) = Inr (RC0, s2)" "ep_wf s2"
      "ep_live s2 = take (nat NN_POLLER_MAX_EVENTS) batch" "ep_hmem s2 = ep_hmem s" by blast
  from ho have co: "ep_consistent s2"
    unfolding ep_consistent_def s2(3,4) by (rule ep_honours_take)
  from z have z2: "eh_events (ep_hmem s2 h) AND EPOLLIN = 0" "eh_events (ep_hmem s2 h) AND EPOLLOUT = 0"
    by (simp_all add: s2(4))
  have "\<forall>n. \<exists>rs s3. drains nn_poller_event_epoll n s2 = Inr (rs, s3) \<and>
              Some (NN_POLLER_IN, h) \<notin> set rs \<and> Some (NN_POLLER_OUT, h) \<notin> set rs"
    using ep_zero_interest[OF s2(2) co z2] by blast
  with s2 co show ?thesis by blast
qed

lemma kq_zero_pending:
  assumes ho: "kq_honours (kq_hmem s) (kq_live s)"
    and z: "kh_events (kq_hmem s h) AND NN_POLLER_EVENT_IN = 0"
           "kh_events (kq_hmem s h) AND NN_POLLER_EVENT_OUT = 0"
  shows "\<forall>x \<in> set (kq_pending s). snd x \<noteq> Some h"
proof
  fix x assume "x \<in> set (kq_pending s)"
  then obtain e where e: "e \<in> set (kq_live s)" "x \<in> set (kq_pend1 e)"
    unfolding kq_pending_def by auto
  show "snd x \<noteq> Some h"
  proof
    assume "snd x = Some h"
    with e(2) have "ke_udata e = Some h" by (auto simp: kq_pend1_def split: option.splits)
    with ho e(1) z show False unfolding kq_honours_def by blast
  qed
qed

lemma kq_zero_interest:
  assumes wf: "kq_wf s" and ho: "kq_honours (kq_hmem s) (kq_live s)"
    and z: "kh_events (kq_hmem s h) AND NN_POLLER_EVENT_IN = 0"
           "kh_events (kq_hmem s h) AND NN_POLLER_EVENT_OUT = 0"
  shows "\<exists>rs s'. drains nn_poller_event_kqueue n s = Inr (rs, s') \<and> (\<forall>k. Some (k, Some h) \<notin> set rs)"
  by (rule no_handle_delivered[OF kq_drains_subset[OF wf] kq_zero_pending[OF ho z]])

lemma kq_honours_take: "kq_honours hm evs \<Longrightarrow> kq_honours hm (take k evs)"
  unfolding kq_honours_def by (meson in_set_takeD)

lemma kq_honours_known: "kq_honours hm evs \<Longrightarrow> e \<in> set evs \<Longrightarrow> ke_udata e \<noteq> None \<Longrightarrow> kq_known e"
  unfolding kq_honours_def kq_known_def by blast

lemma kq_wait_zero_interest:
  assumes ho: "kq_honours (kq_hmem s) batch" and kn: "\<forall>e \<in> set batch. kq_known e"
    and z: "kh_events (kq_hmem s h) AND NN_POLLER_EVENT_IN = 0"
           "kh_events (kq_hmem s h) AND NN_POLLER_EVENT_OUT = 0"
  shows "\<exists>s2. nn_poller_wait_kqueue ig s t (KOk batch # rest) = Inr (RC0, s2) \<and>
           kq_wf s2 \<and> kq_honours (kq_hmem s2) (kq_live s2) \<and> kq_hmem s2 = kq_hmem s \<and>
           (\<forall>n. \<exists>rs s3. drains nn_poller_event_kqueue n s2 = Inr (rs, s3) \<and>
              (\<forall>k. Some (k, Some h) \<notin> set rs))"
proof -
  from kq_wait_ok[of ig s t batch rest] kn obtain s2 where
    s2: "nn_poller_wait_kqueue ig s t (KOk batch # rest) = Inr (RC0, s2)" "kq_wf s2"
      "kq_live s2 = take (nat NN_POLLER_MAX_EVENTS) batch" "kq_hmem s2 = kq_hmem s" by blast
  from ho have h2: "kq_honours (kq_hmem s2) (kq_live s2)"
    unfolding s2(3,4) by (rule kq_honours_take)
  from z have z2: "kh_events (kq_hmem s2 h) AND NN_POLLER_EVENT_IN = 0"
      "kh_events (kq_hmem s2 h) AND NN_POLLER_EVENT_OUT = 0"
    by (simp_all add: s2(4))
  have "\<forall>n. \<exists>rs s3. drains nn_poller_event_kqueue n s2 = Inr (rs, s3) \<and>
              (\<forall>k. Some (k, Some h) \<notin> set rs)"
    using kq_zero_interest[OF s2(2) h2 z2] by blast
  with s2 h2 show ?thesis by blast
qed

lemma pl_zero_pending:
  assumes sl: "pl_slots s" and reg: "pl_registered s h"
    and z: "pf_revents (pl_pollset s ! nat (pl_hmem s h)) AND POLLIN = 0"
           "pf_revents (pl_pollset s ! nat (pl_hmem s h)) AND POLLOUT = 0"
  shows "(NN_POLLER_IN, Some h) \<notin> set (pl_pending s)" "(NN_POLLER_OUT, Some h) \<notin> set (pl_pending s)"
proof -
  have "k \<noteq> NN_POLLER_IN \<and> k \<noteq> NN_POLLER_OUT" if x: "(k, Some h) \<in> set (pl_pending s)" for k
  proof -
    from pl_pending_set[OF x] obtain j where
      j: "j < nat (pl_size s)" "(k, Some h) \<in> set (pl_pend1 (pl_pollset s ! j) (pl_hndls s ! j))"
      by blast
    from pl_pend1_snd[OF j(2)] have "hi_hndl (pl_hndls s ! j) = Some h" by simp
    with sl j(1) have "pl_hmem s h = int j" by (simp add: pl_slots_def)
    then have "nat (pl_hmem s h) = j" by simp
    with z j(2) show ?thesis by (auto simp: pl_pend1_def split: if_splits)
  qed
  then show "(NN_POLLER_IN, Some h) \<notin> set (pl_pending s)"
    "(NN_POLLER_OUT, Some h) \<notin> set (pl_pending s)" by blast+
qed

lemma pl_zero_interest:
  assumes wf: "pl_wf s" and sl: "pl_slots s" and reg: "pl_registered s h"
    and z: "pf_revents (pl_pollset s ! nat (pl_hmem s h)) AND POLLIN = 0"
           "pf_revents (pl_pollset s ! nat (pl_hmem s h)) AND POLLOUT = 0"
  shows "\<exists>rs s'. drains nn_poller_event_poll n s = Inr (rs, s') \<and>
           Some (NN_POLLER_IN, Some h) \<notin> set rs \<and> Some (NN_POLLER_OUT, Some h) \<notin> set rs"
  by (rule two_not_delivered[OF pl_drains_subset[OF wf] pl_zero_pending[OF sl reg z]])

lemma pl_honours_nth:
  assumes "pl_honours ps revs" "k < length ps" "k < length revs"
  shows "(revs ! k AND POLLIN \<noteq> 0 \<longrightarrow> pf_events (ps ! k) AND POLLIN \<noteq> 0) \<and>
         (revs ! k AND POLLOUT \<noteq> 0 \<longrightarrow> pf_events (ps ! k) AND POLLOUT \<noteq> 0)"
proof -
  from assms(2,3) have "(ps ! k, revs ! k) \<in> set (zip ps revs)"
    by (auto simp: set_zip)
  with assms(1) show ?thesis unfolding pl_honours_def by blast
qed

lemma pl_wait_zero_interest:
  assumes inv: "pl_inv s xs" and reg: "pl_registered s h"
    and z: "pf_events (pl_pollset s ! nat (pl_hmem s h)) AND POLLIN = 0"
           "pf_events (pl_pollset s ! nat (pl_hmem s h)) AND POLLOUT = 0"
    and c: "pl_compact s = Inr p1" and len: "length revs = nat (pl_size p1)"
    and ho: "pl_honours (pl_pollset p1) revs"
  shows "\<exists>p2. nn_poller_wait_poll ig s t (KOk revs # cs) = Inr (RC0, p2) \<and>
           pl_inv p2 [] \<and> pl_registered p2 h \<and>
           pf_events (pl_pollset p2 ! nat (pl_hmem p2 h)) = pf_events (pl_pollset s ! nat (pl_hmem s h)) \<and>
           (\<forall>n. \<exists>rs p3. drains nn_poller_event_poll n p2 = Inr (rs, p3) \<and>
              Some (NN_POLLER_IN, Some h) \<notin> set rs \<and> Some (NN_POLLER_OUT, Some h) \<notin> set rs)"
proof -
  from pl_compact_spec[OF inv] c have i1: "pl_inv p1 []" and r1: "pl_registered p1 h"
    and e1: "pl_pollset p1 ! nat (pl_hmem p1 h) = pl_pollset s ! nat (pl_hmem s h)"
    using reg by auto
  let ?n = "nat (pl_size p1)"
  let ?k = "nat (pl_hmem p1 h)"
  define p2 where "p2 = p1\<lparr>pl_index := 0, pl_klog := pl_klog p1 @ [Poll (pl_size p1) t],
               pl_pollset := poll_write (pl_pollset p1) ?n revs\<rparr>"
  from i1 have b: "0 \<le> pl_size p1" "pl_size p1 \<le> int (length (pl_pollset p1))"
    "pl_size p1 \<le> int (length (pl_hndls p1))" and sl1: "pl_slots p1"
    by (simp_all add: pl_inv_def)
  from b have nl: "?n \<le> length (pl_pollset p1)" by simp
  from r1 have kb: "0 \<le> pl_hmem p1 h" "?k < ?n" by (simp_all add: pl_registered_def)
  have w: "nn_poller_wait_poll ig s t (KOk revs # cs) = Inr (RC0, p2)"
    using c by (simp add: nn_poller_wait_poll_def Let_def p2_def)
  have f: "pl_size p2 = pl_size p1" "pl_hndls p2 = pl_hndls p1" "pl_hmem p2 = pl_hmem p1"
    "pl_removed p2 = pl_removed p1" "pl_index p2 = 0"
    "length (pl_pollset p2) = length (pl_pollset p1)"
    by (simp_all add: p2_def poll_write_length)
  have i2: "pl_inv p2 []" by (rule pl_inv_frame[OF i1 f(1,2,4,3,6)])
  then have sl2: "pl_slots p2" by (simp add: pl_inv_def)
  have wf2: "pl_wf p2" using b by (simp add: pl_wf_def f)
  have r2: "pl_registered p2 h" using r1 by (simp add: pl_registered_def f)
  have pk: "pl_pollset p2 ! ?k = (pl_pollset p1 ! ?k)\<lparr>pf_revents := revs ! ?k\<rparr>"
  proof -
    from kb len have "(revs @ replicate ?n 0) ! ?k = revs ! ?k" by (simp add: nth_append)
    with poll_write_nth[OF kb(2) nl, of revs] show ?thesis by (simp add: p2_def)
  qed
  have ev: "pf_events (pl_pollset p2 ! nat (pl_hmem p2 h)) = pf_events (pl_pollset s ! nat (pl_hmem s h))"
    unfolding f(3) pk using e1 by simp
  from kb nl len have "?k < length (pl_pollset p1)" "?k < length revs" by linarith+
  from pl_honours_nth[OF ho this] z e1
  have rz: "revs ! ?k AND POLLIN = 0" "revs ! ?k AND POLLOUT = 0" by auto
  have z2: "pf_revents (pl_pollset p2 ! nat (pl_hmem p2 h)) AND POLLIN = 0"
    "pf_revents (pl_pollset p2 ! nat (pl_hmem p2 h)) AND POLLOUT = 0"
    unfolding f(3) pk using rz by simp_all
  have "\<forall>n. \<exists>rs p3. drains nn_poller_event_poll n p2 = Inr (rs, p3) \<and>
              Some (NN_POLLER_IN, Some h) \<notin> set rs \<and> Some (NN_POLLER_OUT, Some h) \<notin> set rs"
    using pl_zero_interest[OF wf2 sl2 r2 z2] by blast
  with w i2 r2 ev show ?thesis by blast
qed

text \<open>The handle asks for nothing: its mask has neither the read nor the write bit.\<close>

definition ep_quiet :: "ep_poller \<Rightarrow> hptr \<Rightarrow> bool" where
  "ep_quiet s h \<longleftrightarrow>
     eh_events (ep_hmem s h) AND EPOLLIN = 0 \<and> eh_events (ep_hmem s h) AND EPOLLOUT = 0"

definition kq_quiet :: "kq_poller \<Rightarrow> hptr \<Rightarrow> bool" where
  "kq_quiet s h \<longleftrightarrow>
     kh_events (kq_hmem s h) AND NN_POLLER_EVENT_IN = 0 \<and>
     kh_events (kq_hmem s h) AND NN_POLLER_EVENT_OUT = 0"

definition pl_quiet :: "pl_poller \<Rightarrow> hptr \<Rightarrow> bool" where
  "pl_quiet s h \<longleftrightarrow>
     pf_events (pl_pollset s ! nat (pl_hmem s h)) AND POLLIN = 0 \<and>
     pf_events (pl_pollset s ! nat (pl_hmem s h)) AND POLLOUT = 0"

lemma word_and_not_zero: "x AND m = 0 \<Longrightarrow> (x AND NOT a) AND m = (0 :: 'a :: len word)"
proof -
  assume "x AND m = 0"
  have "(x AND NOT a) AND m = (x AND m) AND NOT a" by (simp add: ac_simps)
  with \<open>x AND m = 0\<close> show ?thesis by simp
qed

lemma ep_wait_loop_hmem: "ep_wait_loop s t as = Inr (rc, s') \<Longrightarrow> ep_hmem s' = ep_hmem s"
  by (induction as arbitrary: s) (auto simp: Let_def split: kres.splits if_splits)

lemma ep_quiet_kept:
  assumes q: "ep_quiet s h"
  shows "g \<noteq> h \<Longrightarrow> ep_quiet (nn_poller_set_in_epoll s g) h"
    and "g \<noteq> h \<Longrightarrow> ep_quiet (nn_poller_set_out_epoll s g) h"
    and "g \<noteq> h \<Longrightarrow> ep_quiet (nn_poller_add_epoll s fd g) h"
    and "nn_poller_reset_in_epoll s g = Inr s' \<Longrightarrow> ep_quiet s' h"
    and "nn_poller_reset_out_epoll s g = Inr s' \<Longrightarrow> ep_quiet s' h"
    and "nn_poller_rm_epoll s g = Inr s' \<Longrightarrow> ep_quiet s' h"
    and "nn_poller_wait_epoll s t as = Inr (rc, s') \<Longrightarrow> ep_quiet s' h"
    and "nn_poller_event_epoll s = Inr (r, s') \<Longrightarrow> ep_quiet s' h"
proof -
  show "g \<noteq> h \<Longrightarrow> ep_quiet (nn_poller_set_in_epoll s g) h"
    using q by (simp add: ep_quiet_def nn_poller_set_in_epoll_def Let_def)
  show "g \<noteq> h \<Longrightarrow> ep_quiet (nn_poller_set_out_epoll s g) h"
    using q by (simp add: ep_quiet_def nn_poller_set_out_epoll_def Let_def)
  show "g \<noteq> h \<Longrightarrow> ep_quiet (nn_poller_add_epoll s fd g) h"
    using q by (simp add: ep_quiet_def nn_poller_add_epoll_def)
  show "ep_quiet s' h" if "nn_poller_reset_in_epoll s g = Inr s'"
    using that q
    by (auto simp: ep_quiet_def nn_poller_reset_in_epoll_def Let_def word_and_not_zero
        split: if_splits sum.splits)
  show "ep_quiet s' h" if "nn_poller_reset_out_epoll s g = Inr s'"
    using that q
    by (auto simp: ep_quiet_def nn_poller_reset_out_epoll_def Let_def word_and_not_zero
        split: if_splits sum.splits)
  show "ep_quiet s' h" if "nn_poller_rm_epoll s g = Inr s'"
    using that q
    by (auto simp: ep_quiet_def nn_poller_rm_epoll_def Let_def split: sum.splits)
  show "ep_quiet s' h" if "nn_poller_wait_epoll s t as = Inr (rc, s')"
    using ep_wait_loop_hmem[OF that[unfolded nn_poller_wait_epoll_def]] q
    by (simp add: ep_quiet_def)
  show "ep_quiet s' h" if "nn_poller_event_epoll s = Inr (r, s')"
    using that q
    by (auto simp: ep_quiet_def nn_poller_event_epoll_def Let_def split: sum.splits if_splits)
qed

lemma kq_wait_loop_hmem: "kq_wait_loop ig s t as = Inr (rc, s') \<Longrightarrow> kq_hmem s' = kq_hmem s"
proof (induction as arbitrary: s)
  case Nil
  then show ?case by simp
next
  case (Cons a as)
  define s1 where "s1 = s\<lparr>kq_klog := kq_klog s @
     [KeventWait NN_POLLER_MAX_EVENTS (if 0 \<le> t then Some (c_div t 1000, c_mod t 1000 * 1000000) else None)]\<rparr>"
  have h1: "kq_hmem s1 = kq_hmem s" by (simp add: s1_def)
  show ?case
  proof (cases a)
    case (KOk b)
    have "kq_wait_loop ig s t (a # as) =
       Inr (RC0, s1\<lparr>kq_events := take (nat NN_POLLER_MAX_EVENTS) b @
                   drop (length (take (nat NN_POLLER_MAX_EVENTS) b)) (kq_events s1),
                 kq_nevents := int (length (take (nat NN_POLLER_MAX_EVENTS) b))\<rparr>)"
      unfolding KOk s1_def by (simp add: Let_def)
    with Cons.prems h1 show ?thesis by auto
  next
    case (KErr e)
    have st: "kq_wait_loop ig s t (a # as) =
       (if e = EINTR then (if ig then kq_wait_loop ig s1 t as else Inr (RCneg EINTR, s1)) else Inl Abort)"
      unfolding KErr s1_def by (simp add: Let_def)
    show ?thesis
    proof (cases "e = EINTR \<and> ig")
      case True
      with st Cons.prems have "kq_wait_loop ig s1 t as = Inr (rc, s')" by simp
      from Cons.IH[OF this] h1 show ?thesis by simp
    next
      case False
      with st Cons.prems h1 show ?thesis by (auto split: if_splits)
    qed
  qed
qed

lemma kq_quiet_kept:
  assumes q: "kq_quiet s h"
  shows "g \<noteq> h \<Longrightarrow> kq_quiet (nn_poller_set_in_kqueue s g ans) h"
    and "g \<noteq> h \<Longrightarrow> kq_quiet (nn_poller_set_out_kqueue s g ans) h"
    and "g \<noteq> h \<Longrightarrow> kq_quiet (nn_poller_add_kqueue s fd g) h"
    and "nn_poller_reset_in_kqueue s g = Inr s' \<Longrightarrow> kq_quiet s' h"
    and "nn_poller_reset_out_kqueue s g ans = Inr s' \<Longrightarrow> kq_quiet s' h"
    and "nn_poller_rm_kqueue s g = Inr s' \<Longrightarrow> kq_quiet s' h"
    and "nn_poller_wait_kqueue ig s t as = Inr (rc, s') \<Longrightarrow> kq_quiet s' h"
    and "nn_poller_event_kqueue s = Inr (r, s') \<Longrightarrow> kq_quiet s' h"
proof -
  show "g \<noteq> h \<Longrightarrow> kq_quiet (nn_poller_set_in_kqueue s g ans) h"
    using q by (simp add: kq_quiet_def nn_poller_set_in_kqueue_def Let_def)
  show "g \<noteq> h \<Longrightarrow> kq_quiet (nn_poller_set_out_kqueue s g ans) h"
    using q by (simp add: kq_quiet_def nn_poller_set_out_kqueue_def Let_def)
  show "g \<noteq> h \<Longrightarrow> kq_quiet (nn_poller_add_kqueue s fd g) h"
    using q by (simp add: kq_quiet_def nn_poller_add_kqueue_def)
  show "kq_quiet s' h" if "nn_poller_reset_in_kqueue s g = Inr s'"
    using that q
    by (auto simp: kq_quiet_def nn_poller_reset_in_kqueue_def Let_def word_and_not_zero
        split: if_splits sum.splits)
  show "kq_quiet s' h" if "nn_poller_reset_out_kqueue s g ans = Inr s'"
    using that q
    by (auto simp: kq_quiet_def nn_poller_reset_out_kqueue_def Let_def word_and_not_zero
        split: if_splits sum.splits)
  show "kq_quiet s' h" if "nn_poller_rm_kqueue s g = Inr s'"
    using that q
    by (auto simp: kq_quiet_def nn_poller_rm_kqueue_def Let_def split: sum.splits if_splits)
  show "kq_quiet s' h" if "nn_poller_wait_kqueue ig s t as = Inr (rc, s')"
    using kq_wait_loop_hmem[OF that[unfolded nn_poller_wait_kqueue_def]] q
    by (simp add: kq_quiet_def)
  show "kq_quiet s' h" if "nn_poller_event_kqueue s = Inr (r, s')"
    using that q
    by (auto simp: kq_quiet_def nn_poller_event_kqueue_def Let_def split: sum.splits if_splits)
qed

lemma pl_registered_slots_differ:
  "pl_registered s g \<Longrightarrow> pl_registered s h \<Longrightarrow> g \<noteq> h \<Longrightarrow> nat (pl_hmem s g) \<noteq> nat (pl_hmem s h)"
  by (auto simp: pl_registered_def)

lemma pl_event_events:
  assumes "nn_poller_event_poll s = Inr (r, s')"
  shows "pl_hmem s' = pl_hmem s \<and> pf_events (pl_pollset s' ! k) = pf_events (pl_pollset s ! k)"
proof -
  have u: "pf_events (ps[i := (ps ! i)\<lparr>pf_revents := v\<rparr>] ! k) = pf_events (ps ! k)"
    for ps :: "pollfd list" and i v
    by (cases "i < length ps") (simp_all add: nth_list_update list_update_beyond)
  from assms show ?thesis
    by (auto simp: nn_poller_event_poll_def Let_def u split: sum.splits if_splits)
qed

lemma pl_quiet_kept:
  assumes q: "pl_quiet s h" and rh: "pl_registered s h"
  shows "g \<noteq> h \<Longrightarrow> pl_registered s g \<Longrightarrow> nn_poller_set_in_poll s g = Inr s' \<Longrightarrow> pl_quiet s' h"
    and "g \<noteq> h \<Longrightarrow> pl_registered s g \<Longrightarrow> nn_poller_set_out_poll s g = Inr s' \<Longrightarrow> pl_quiet s' h"
    and "nn_poller_reset_in_poll s g = Inr s' \<Longrightarrow> pl_quiet s' h"
    and "nn_poller_reset_out_poll s g = Inr s' \<Longrightarrow> pl_quiet s' h"
    and "nn_poller_rm_poll s g = Inr s' \<Longrightarrow> pl_quiet s' h"
    and "nn_poller_event_poll s = Inr (r, s') \<Longrightarrow> pl_quiet s' h"
    and "g \<noteq> h \<Longrightarrow> pl_size s \<le> int (length (pl_pollset s)) \<Longrightarrow>
         pl_size s \<le> int (length (pl_hndls s)) \<Longrightarrow>
         nn_poller_add_poll s fd g m1 m2 = Inr s' \<Longrightarrow> pl_quiet s' h"
proof -
  let ?k = "nat (pl_hmem s h)"
  show "pl_quiet s' h"
    if "g \<noteq> h" "pl_registered s g" "nn_poller_set_in_poll s g = Inr s'"
  proof -
    from pl_registered_slots_differ[OF that(2) rh that(1)] have d: "nat (pl_hmem s g) \<noteq> ?k" .
    from that(3) have "pl_hmem s' = pl_hmem s" "pl_pollset s' ! ?k = pl_pollset s ! ?k"
      using d by (auto simp: nn_poller_set_in_poll_def Let_def split: if_splits)
    with q show ?thesis by (simp add: pl_quiet_def)
  qed
  show "pl_quiet s' h"
    if "g \<noteq> h" "pl_registered s g" "nn_poller_set_out_poll s g = Inr s'"
  proof -
    from pl_registered_slots_differ[OF that(2) rh that(1)] have d: "nat (pl_hmem s g) \<noteq> ?k" .
    from that(3) have "pl_hmem s' = pl_hmem s" "pl_pollset s' ! ?k = pl_pollset s ! ?k"
      using d by (auto simp: nn_poller_set_out_poll_def Let_def split: if_splits)
    with q show ?thesis by (simp add: pl_quiet_def)
  qed
  show "pl_quiet s' h" if "nn_poller_reset_in_poll s g = Inr s'"
  proof -
    let ?i = "nat (pl_hmem s g)"
    from that have e: "pl_hmem s' = pl_hmem s" "?i < length (pl_pollset s)"
      "pl_pollset s' = (pl_pollset s)[?i := (pl_pollset s ! ?i)
                      \<lparr>pf_events := pf_events (pl_pollset s ! ?i) AND NOT POLLIN,
                       pf_revents := pf_revents (pl_pollset s ! ?i) AND NOT POLLIN\<rparr>]"
      by (auto simp: nn_poller_reset_in_poll_def Let_def inb_def split: if_splits)
    show ?thesis
    proof (cases "?i = ?k")
      case True
      with e q show ?thesis by (simp add: pl_quiet_def word_and_not_zero)
    next
      case False
      with e q show ?thesis by (simp add: pl_quiet_def)
    qed
  qed
  show "pl_quiet s' h" if "nn_poller_reset_out_poll s g = Inr s'"
  proof -
    let ?i = "nat (pl_hmem s g)"
    from that have e: "pl_hmem s' = pl_hmem s" "?i < length (pl_pollset s)"
      "pl_pollset s' = (pl_pollset s)[?i := (pl_pollset s ! ?i)
                      \<lparr>pf_events := pf_events (pl_pollset s ! ?i) AND NOT POLLOUT,
                       pf_revents := pf_revents (pl_pollset s ! ?i) AND NOT POLLOUT\<rparr>]"
      by (auto simp: nn_poller_reset_out_poll_def Let_def inb_def split: if_splits)
    show ?thesis
    proof (cases "?i = ?k")
      case True
      with e q show ?thesis by (simp add: pl_quiet_def word_and_not_zero)
    next
      case False
      with e q show ?thesis by (simp add: pl_quiet_def)
    qed
  qed
  show "pl_quiet s' h" if "nn_poller_rm_poll s g = Inr s'"
  proof -
    let ?i = "nat (pl_hmem s g)"
    from that have e: "pl_hmem s' = pl_hmem s" "?i < length (pl_pollset s)"
      "pl_pollset s' = (pl_pollset s)[?i := (pl_pollset s ! ?i)\<lparr>pf_revents := 0\<rparr>]"
      by (auto simp: nn_poller_rm_poll_def Let_def inb_def split: if_splits)
    show ?thesis
    proof (cases "?i = ?k")
      case True
      with e q show ?thesis by (simp add: pl_quiet_def)
    next
      case False
      with e q show ?thesis by (simp add: pl_quiet_def)
    qed
  qed
  show "pl_quiet s' h" if "nn_poller_event_poll s = Inr (r, s')"
    using pl_event_events[OF that] q by (simp add: pl_quiet_def)
  show "pl_quiet s' h"
    if "g \<noteq> h" "pl_size s \<le> int (length (pl_pollset s))" "pl_size s \<le> int (length (pl_hndls s))"
      "nn_poller_add_poll s fd g m1 m2 = Inr s'"
  proof -
    from rh have k: "0 \<le> pl_hmem s h" "?k < nat (pl_size s)" by (simp_all add: pl_registered_def)
    then have b: "0 \<le> pl_size s" by simp
    from pl_add_frame[OF that(4,3,2)] k have "pl_pollset s' ! ?k = pl_pollset s ! ?k" by simp
    moreover from pl_add_slot[OF that(4) b] that(1) have "pl_hmem s' h = pl_hmem s h" by simp
    ultimately show ?thesis using q by (simp add: pl_quiet_def)
  qed
qed

lemma pl_registered_kept:
  assumes rh: "pl_registered s h"
  shows "nn_poller_set_in_poll s g = Inr s' \<or> nn_poller_reset_in_poll s g = Inr s' \<or>
         nn_poller_set_out_poll s g = Inr s' \<or> nn_poller_reset_out_poll s g = Inr s' \<Longrightarrow>
         pl_registered s' h"
    and "nn_poller_event_poll s = Inr (r, s') \<Longrightarrow> pl_registered s' h"
    and "g \<noteq> h \<Longrightarrow> pl_registered s g \<Longrightarrow> nn_poller_rm_poll s g = Inr s' \<Longrightarrow> pl_registered s' h"
    and "g \<noteq> h \<Longrightarrow> pl_size s \<le> int (length (pl_pollset s)) \<Longrightarrow>
         pl_size s \<le> int (length (pl_hndls s)) \<Longrightarrow>
         nn_poller_add_poll s fd g m1 m2 = Inr s' \<Longrightarrow> pl_registered s' h"
proof -
  let ?k = "nat (pl_hmem s h)"
  show "pl_registered s' h"
    if "nn_poller_set_in_poll s g = Inr s' \<or> nn_poller_reset_in_poll s g = Inr s' \<or>
         nn_poller_set_out_poll s g = Inr s' \<or> nn_poller_reset_out_poll s g = Inr s'"
    using pl_interest_frame[OF that] rh by (simp add: pl_registered_def)
  show "pl_registered s' h" if "nn_poller_event_poll s = Inr (r, s')"
    using pl_event_frame[OF that] rh by (simp add: pl_registered_def)
  show "pl_registered s' h" if "g \<noteq> h" "pl_registered s g" "nn_poller_rm_poll s g = Inr s'"
  proof -
    let ?i = "nat (pl_hmem s g)" and ?r = "pl_removed s"
    from pl_registered_slots_differ[OF that(2) rh that(1)] have d: "?i \<noteq> ?k" .
    define hs1 where "hs1 = (if ?r \<noteq> - 1
                             then (pl_hndls s)[nat ?r := (pl_hndls s ! nat ?r)\<lparr>hi_prev := pl_hmem s g\<rparr>]
                             else pl_hndls s)"
    from that(3) have e: "pl_hmem s' = pl_hmem s" "pl_size s' = pl_size s"
      "pl_hndls s' = hs1[?i := (hs1 ! ?i)\<lparr>hi_hndl := None, hi_prev := - 1, hi_next := ?r\<rparr>]"
      "?r \<noteq> - 1 \<Longrightarrow> nat ?r < length (pl_hndls s)"
      unfolding hs1_def
      by (auto simp: nn_poller_rm_poll_def Let_def inb_def split: if_splits)
    have "hi_hndl (hs1 ! ?k) = hi_hndl (pl_hndls s ! ?k)"
      using e(4) by (cases "?k = nat ?r") (auto simp: hs1_def)
    with d have "hi_hndl (pl_hndls s' ! ?k) = hi_hndl (pl_hndls s ! ?k)" by (simp add: e(3))
    with rh e(1,2) show ?thesis by (simp add: pl_registered_def)
  qed
  show "pl_registered s' h"
    if "g \<noteq> h" "pl_size s \<le> int (length (pl_pollset s))" "pl_size s \<le> int (length (pl_hndls s))"
      "nn_poller_add_poll s fd g m1 m2 = Inr s'"
  proof -
    from rh have k: "0 \<le> pl_hmem s h" "?k < nat (pl_size s)" by (simp_all add: pl_registered_def)
    then have b: "0 \<le> pl_size s" by simp
    from pl_add_frame[OF that(4,3,2)] k have "pl_hndls s' ! ?k = pl_hndls s ! ?k"
      "pl_size s' = pl_size s + 1" by simp_all
    moreover from pl_add_slot[OF that(4) b] that(1) have "pl_hmem s' h = pl_hmem s h" by simp
    ultimately show ?thesis using rh by (simp add: pl_registered_def)
  qed
qed

text \<open>
  Claim C3, amended. A handle that was added and has asked for nothing (\<open>ep_quiet\<close>,
  \<open>kq_quiet\<close>, \<open>pl_quiet\<close>: its mask has neither the read nor the write bit) is never
  returned with IN or OUT, as long as the operating system reports read and write
  readiness only where it was asked for.

  \<^item> \<^verbatim>\<open>nn_poller_add\<close> leaves the handle with an empty mask: the epoll backend registers
    the descriptor with the mask \<open>0\<close>, the kqueue backend calls nothing, the poll backend
    fills a slot with empty \<^verbatim>\<open>events\<close> and \<^verbatim>\<open>revents\<close> and registers the handle in it.

  \<^item> The mask stays without the two bits under every function but \<^verbatim>\<open>nn_poller_set_in\<close>
    and \<^verbatim>\<open>nn_poller_set_out\<close> of that handle: under the changes of interest, the removal
    and the addition of other handles, under its own resets, under \<^verbatim>\<open>nn_poller_wait\<close> and
    \<^verbatim>\<open>nn_poller_event\<close>. (In the poll backend the other handle of a change of interest
    or a removal is a registered one, and the handle stays registered.)

  \<^item> With such a mask no call of \<^verbatim>\<open>nn_poller_event\<close> returns IN or OUT for the handle:
    neither on a buffer that honours the masks (\<open>ep_consistent\<close>, \<open>kq_honours\<close>; in the
    poll backend the reported events of the slot have neither bit), nor on the batch of
    the next \<^verbatim>\<open>nn_poller_wait\<close> when that batch honours the masks (\<open>ep_honours\<close>,
    \<open>kq_honours\<close>, \<open>pl_honours\<close>), which gives such a buffer again.

  \<^item> In the kqueue backend a record is reported for a registered filter only, hence no
    record names the handle and no call of \<^verbatim>\<open>nn_poller_event\<close> returns it with any kind.
    In the epoll and the poll backend an error or a hang-up of the descriptor is reported
    whatever the mask, and is returned as ERR (see the counterexample below).
\<close>

theorem zero_interest_gives_no_readiness:
  "ep_quiet (nn_poller_add_epoll s fd h) h \<and>
   ep_klog (nn_poller_add_epoll s fd h) = ep_klog s @ [EpollCtlAdd fd 0 h] \<and>
   (ep_quiet s h \<longrightarrow>
      (g \<noteq> h \<longrightarrow>
         ep_quiet (nn_poller_set_in_epoll s g) h \<and> ep_quiet (nn_poller_set_out_epoll s g) h \<and>
         ep_quiet (nn_poller_add_epoll s fd2 g) h) \<and>
      (nn_poller_reset_in_epoll s g = Inr s' \<or> nn_poller_reset_out_epoll s g = Inr s' \<or>
       nn_poller_rm_epoll s g = Inr s' \<or> nn_poller_wait_epoll s t as = Inr (rc, s') \<or>
       nn_poller_event_epoll s = Inr (r, s') \<longrightarrow> ep_quiet s' h)) \<and>
   (ep_wf s \<and> ep_consistent s \<and> ep_quiet s h \<longrightarrow>
      (\<forall>n. \<exists>rs s'. drains nn_poller_event_epoll n s = Inr (rs, s') \<and>
         Some (NN_POLLER_IN, h) \<notin> set rs \<and> Some (NN_POLLER_OUT, h) \<notin> set rs)) \<and>
   (ep_honours (ep_hmem s) batch \<and> ep_quiet s h \<longrightarrow>
      (\<exists>s2. nn_poller_wait_epoll s t (KOk batch # as) = Inr (RC0, s2) \<and>
         ep_wf s2 \<and> ep_consistent s2 \<and> ep_quiet s2 h \<and>
         (\<forall>n. \<exists>rs s'. drains nn_poller_event_epoll n s2 = Inr (rs, s') \<and>
         Some (NN_POLLER_IN, h) \<notin> set rs \<and> Some (NN_POLLER_OUT, h) \<notin> set rs))) \<and>
   kq_quiet (nn_poller_add_kqueue q fd h) h \<and>
   kq_klog (nn_poller_add_kqueue q fd h) = kq_klog q \<and>
   (kq_quiet q h \<longrightarrow>
      (g \<noteq> h \<longrightarrow>
         kq_quiet (nn_poller_set_in_kqueue q g ans) h \<and> kq_quiet (nn_poller_set_out_kqueue q g ans) h \<and>
         kq_quiet (nn_poller_add_kqueue q fd2 g) h) \<and>
      (nn_poller_reset_in_kqueue q g = Inr q' \<or> nn_poller_reset_out_kqueue q g ans = Inr q' \<or>
       nn_poller_rm_kqueue q g = Inr q' \<or> nn_poller_wait_kqueue ig q t bs = Inr (rc, q') \<or>
       nn_poller_event_kqueue q = Inr (kr, q') \<longrightarrow> kq_quiet q' h)) \<and>
   (kq_wf q \<and> kq_honours (kq_hmem q) (kq_live q) \<and> kq_quiet q h \<longrightarrow>
      (\<forall>n. \<exists>rs q'. drains nn_poller_event_kqueue n q = Inr (rs, q') \<and>
         (\<forall>k. Some (k, Some h) \<notin> set rs))) \<and>
   (kq_honours (kq_hmem q) kbatch \<and> (\<forall>e \<in> set kbatch. kq_known e) \<and> kq_quiet q h \<longrightarrow>
      (\<exists>q2. nn_poller_wait_kqueue ig q t (KOk kbatch # bs) = Inr (RC0, q2) \<and>
         kq_wf q2 \<and> kq_honours (kq_hmem q2) (kq_live q2) \<and> kq_quiet q2 h \<and>
         (\<forall>n. \<exists>rs q'. drains nn_poller_event_kqueue n q2 = Inr (rs, q') \<and>
         (\<forall>k. Some (k, Some h) \<notin> set rs)))) \<and>
   (pl_inv p xs \<and> (xs \<noteq> [] \<longrightarrow> hi_prev (pl_hndls p ! hd xs) = - 1) \<and>
    (\<forall>k. k < nat (pl_size p) \<longrightarrow> hi_hndl (pl_hndls p ! k) \<noteq> Some h) \<and>
    nn_poller_add_poll p fd h m1 m2 = Inr pa \<longrightarrow>
      pl_inv pa xs \<and> pl_registered pa h \<and> pl_quiet pa h \<and>
      pl_pollset pa ! nat (pl_hmem pa h) = \<lparr>pf_fd = fd, pf_events = 0, pf_revents = 0\<rparr>) \<and>
   (pl_quiet p h \<and> pl_registered p h \<longrightarrow>
      (g \<noteq> h \<and> pl_registered p g \<and>
       (nn_poller_set_in_poll p g = Inr p' \<or> nn_poller_set_out_poll p g = Inr p' \<or>
        nn_poller_rm_poll p g = Inr p') \<longrightarrow> pl_quiet p' h \<and> pl_registered p' h) \<and>
      (nn_poller_reset_in_poll p g = Inr p' \<or> nn_poller_reset_out_poll p g = Inr p' \<or>
       nn_poller_event_poll p = Inr (pr, p') \<longrightarrow> pl_quiet p' h \<and> pl_registered p' h) \<and>
      (g \<noteq> h \<and> pl_size p \<le> int (length (pl_pollset p)) \<and>
       pl_size p \<le> int (length (pl_hndls p)) \<and>
       nn_poller_add_poll p fd2 g m1 m2 = Inr p' \<longrightarrow> pl_quiet p' h \<and> pl_registered p' h)) \<and>
   (pl_wf p \<and> pl_slots p \<and> pl_registered p h \<and>
    pf_revents (pl_pollset p ! nat (pl_hmem p h)) AND POLLIN = 0 \<and>
    pf_revents (pl_pollset p ! nat (pl_hmem p h)) AND POLLOUT = 0 \<longrightarrow>
      (\<forall>n. \<exists>rs p3. drains nn_poller_event_poll n p = Inr (rs, p3) \<and>
         Some (NN_POLLER_IN, Some h) \<notin> set rs \<and> Some (NN_POLLER_OUT, Some h) \<notin> set rs)) \<and>
   (pl_inv p xs \<and> pl_registered p h \<and> pl_quiet p h \<and>
    pl_compact p = Inr p1 \<and> length revs = nat (pl_size p1) \<and> pl_honours (pl_pollset p1) revs \<longrightarrow>
      (\<exists>p2. nn_poller_wait_poll ig p t (KOk revs # cs) = Inr (RC0, p2) \<and>
         pl_inv p2 [] \<and> pl_registered p2 h \<and> pl_quiet p2 h \<and>
         (\<forall>n. \<exists>rs p3. drains nn_poller_event_poll n p2 = Inr (rs, p3) \<and>
         Some (NN_POLLER_IN, Some h) \<notin> set rs \<and> Some (NN_POLLER_OUT, Some h) \<notin> set rs)))"
proof -
  have c1: "ep_quiet (nn_poller_add_epoll s fd h) h"
    by (simp add: ep_quiet_def nn_poller_add_epoll_def)
  have c2: "ep_klog (nn_poller_add_epoll s fd h) = ep_klog s @ [EpollCtlAdd fd 0 h]"
    by (simp add: nn_poller_add_epoll_def)
  have c3: "(ep_quiet s h \<longrightarrow>
      (g \<noteq> h \<longrightarrow>
         ep_quiet (nn_poller_set_in_epoll s g) h \<and> ep_quiet (nn_poller_set_out_epoll s g) h \<and>
         ep_quiet (nn_poller_add_epoll s fd2 g) h) \<and>
      (nn_poller_reset_in_epoll s g = Inr s' \<or> nn_poller_reset_out_epoll s g = Inr s' \<or>
       nn_poller_rm_epoll s g = Inr s' \<or> nn_poller_wait_epoll s t as = Inr (rc, s') \<or>
       nn_poller_event_epoll s = Inr (r, s') \<longrightarrow> ep_quiet s' h))"
    using ep_quiet_kept[of s h] by blast
  have c4: "(ep_wf s \<and> ep_consistent s \<and> ep_quiet s h \<longrightarrow>
      (\<forall>n. \<exists>rs s'. drains nn_poller_event_epoll n s = Inr (rs, s') \<and>
         Some (NN_POLLER_IN, h) \<notin> set rs \<and> Some (NN_POLLER_OUT, h) \<notin> set rs))"
    using ep_zero_interest[of s h] unfolding ep_quiet_def by blast
  have c5: "(ep_honours (ep_hmem s) batch \<and> ep_quiet s h \<longrightarrow>
      (\<exists>s2. nn_poller_wait_epoll s t (KOk batch # as) = Inr (RC0, s2) \<and>
         ep_wf s2 \<and> ep_consistent s2 \<and> ep_quiet s2 h \<and>
         (\<forall>n. \<exists>rs s'. drains nn_poller_event_epoll n s2 = Inr (rs, s') \<and>
         Some (NN_POLLER_IN, h) \<notin> set rs \<and> Some (NN_POLLER_OUT, h) \<notin> set rs)))"
    using ep_wait_zero_interest[of s batch h t as] unfolding ep_quiet_def by metis
  have c6: "kq_quiet (nn_poller_add_kqueue q fd h) h"
    by (simp add: kq_quiet_def nn_poller_add_kqueue_def)
  have c7: "kq_klog (nn_poller_add_kqueue q fd h) = kq_klog q"
    by (simp add: nn_poller_add_kqueue_def)
  have c8: "(kq_quiet q h \<longrightarrow>
      (g \<noteq> h \<longrightarrow>
         kq_quiet (nn_poller_set_in_kqueue q g ans) h \<and> kq_quiet (nn_poller_set_out_kqueue q g ans) h \<and>
         kq_quiet (nn_poller_add_kqueue q fd2 g) h) \<and>
      (nn_poller_reset_in_kqueue q g = Inr q' \<or> nn_poller_reset_out_kqueue q g ans = Inr q' \<or>
       nn_poller_rm_kqueue q g = Inr q' \<or> nn_poller_wait_kqueue ig q t bs = Inr (rc, q') \<or>
       nn_poller_event_kqueue q = Inr (kr, q') \<longrightarrow> kq_quiet q' h))"
    using kq_quiet_kept[of q h] by blast
  have c9: "(kq_wf q \<and> kq_honours (kq_hmem q) (kq_live q) \<and> kq_quiet q h \<longrightarrow>
      (\<forall>n. \<exists>rs q'. drains nn_poller_event_kqueue n q = Inr (rs, q') \<and>
         (\<forall>k. Some (k, Some h) \<notin> set rs)))"
    using kq_zero_interest[of q h] unfolding kq_quiet_def by blast
  have c10: "(kq_honours (kq_hmem q) kbatch \<and> (\<forall>e \<in> set kbatch. kq_known e) \<and> kq_quiet q h \<longrightarrow>
      (\<exists>q2. nn_poller_wait_kqueue ig q t (KOk kbatch # bs) = Inr (RC0, q2) \<and>
         kq_wf q2 \<and> kq_honours (kq_hmem q2) (kq_live q2) \<and> kq_quiet q2 h \<and>
         (\<forall>n. \<exists>rs q'. drains nn_poller_event_kqueue n q2 = Inr (rs, q') \<and>
         (\<forall>k. Some (k, Some h) \<notin> set rs))))"
    using kq_wait_zero_interest[of q kbatch h ig t bs] unfolding kq_quiet_def by metis
  have c12: "(pl_quiet p h \<and> pl_registered p h \<longrightarrow>
      (g \<noteq> h \<and> pl_registered p g \<and>
       (nn_poller_set_in_poll p g = Inr p' \<or> nn_poller_set_out_poll p g = Inr p' \<or>
        nn_poller_rm_poll p g = Inr p') \<longrightarrow> pl_quiet p' h \<and> pl_registered p' h) \<and>
      (nn_poller_reset_in_poll p g = Inr p' \<or> nn_poller_reset_out_poll p g = Inr p' \<or>
       nn_poller_event_poll p = Inr (pr, p') \<longrightarrow> pl_quiet p' h \<and> pl_registered p' h) \<and>
      (g \<noteq> h \<and> pl_size p \<le> int (length (pl_pollset p)) \<and>
       pl_size p \<le> int (length (pl_hndls p)) \<and>
       nn_poller_add_poll p fd2 g m1 m2 = Inr p' \<longrightarrow> pl_quiet p' h \<and> pl_registered p' h))"
    proof (intro impI)
    assume a: "pl_quiet p h \<and> pl_registered p h"
    then have q: "pl_quiet p h" and rh: "pl_registered p h" by simp_all
    note K = pl_quiet_kept[OF q rh] and R = pl_registered_kept[OF rh]
    have 1: "g \<noteq> h \<and> pl_registered p g \<and>
       (nn_poller_set_in_poll p g = Inr p' \<or> nn_poller_set_out_poll p g = Inr p' \<or>
        nn_poller_rm_poll p g = Inr p') \<longrightarrow> pl_quiet p' h \<and> pl_registered p' h"
      using K(1)[of g p'] K(2)[of g p'] K(5)[of g p'] R(1)[of g p'] R(3)[of g p'] by blast
    have 2: "nn_poller_reset_in_poll p g = Inr p' \<or> nn_poller_reset_out_poll p g = Inr p' \<or>
       nn_poller_event_poll p = Inr (pr, p') \<longrightarrow> pl_quiet p' h \<and> pl_registered p' h"
      using K(3)[of g p'] K(4)[of g p'] K(6)[of pr p'] R(1)[of g p'] R(2)[of pr p'] by blast
    have 3: "g \<noteq> h \<and> pl_size p \<le> int (length (pl_pollset p)) \<and>
       pl_size p \<le> int (length (pl_hndls p)) \<and>
       nn_poller_add_poll p fd2 g m1 m2 = Inr p' \<longrightarrow> pl_quiet p' h \<and> pl_registered p' h"
      using K(7)[of g fd2 m1 m2 p'] R(4)[of g fd2 m1 m2 p'] by blast
    from 1 2 3 show "(g \<noteq> h \<and> pl_registered p g \<and>
       (nn_poller_set_in_poll p g = Inr p' \<or> nn_poller_set_out_poll p g = Inr p' \<or>
        nn_poller_rm_poll p g = Inr p') \<longrightarrow> pl_quiet p' h \<and> pl_registered p' h) \<and>
      (nn_poller_reset_in_poll p g = Inr p' \<or> nn_poller_reset_out_poll p g = Inr p' \<or>
       nn_poller_event_poll p = Inr (pr, p') \<longrightarrow> pl_quiet p' h \<and> pl_registered p' h) \<and>
      (g \<noteq> h \<and> pl_size p \<le> int (length (pl_pollset p)) \<and>
       pl_size p \<le> int (length (pl_hndls p)) \<and>
       nn_poller_add_poll p fd2 g m1 m2 = Inr p' \<longrightarrow> pl_quiet p' h \<and> pl_registered p' h)"
      by (intro conjI)
  qed
  have c13: "(pl_wf p \<and> pl_slots p \<and> pl_registered p h \<and>
    pf_revents (pl_pollset p ! nat (pl_hmem p h)) AND POLLIN = 0 \<and>
    pf_revents (pl_pollset p ! nat (pl_hmem p h)) AND POLLOUT = 0 \<longrightarrow>
      (\<forall>n. \<exists>rs p3. drains nn_poller_event_poll n p = Inr (rs, p3) \<and>
         Some (NN_POLLER_IN, Some h) \<notin> set rs \<and> Some (NN_POLLER_OUT, Some h) \<notin> set rs))"
    using pl_zero_interest[of p h] by blast
  have c11: "(pl_inv p xs \<and> (xs \<noteq> [] \<longrightarrow> hi_prev (pl_hndls p ! hd xs) = - 1) \<and>
    (\<forall>k. k < nat (pl_size p) \<longrightarrow> hi_hndl (pl_hndls p ! k) \<noteq> Some h) \<and>
    nn_poller_add_poll p fd h m1 m2 = Inr pa \<longrightarrow>
      pl_inv pa xs \<and> pl_registered pa h \<and> pl_quiet pa h \<and>
      pl_pollset pa ! nat (pl_hmem pa h) = \<lparr>pf_fd = fd, pf_events = 0, pf_revents = 0\<rparr>)"
  proof (intro impI)
    assume a: "pl_inv p xs \<and> (xs \<noteq> [] \<longrightarrow> hi_prev (pl_hndls p ! hd xs) = - 1) \<and>
      (\<forall>k. k < nat (pl_size p) \<longrightarrow> hi_hndl (pl_hndls p ! k) \<noteq> Some h) \<and>
      nn_poller_add_poll p fd h m1 m2 = Inr pa"
    then have inv: "pl_inv p xs" and add: "nn_poller_add_poll p fd h m1 m2 = Inr pa" by simp_all
    from inv have b: "0 \<le> pl_size p" by (simp add: pl_inv_def)
    from a pl_add_inv[of p xs h fd m1 m2 pa] have i: "pl_inv pa xs" "pl_registered pa h" by blast+
    from pl_add_slot[OF add b] b
    have e: "pl_pollset pa ! nat (pl_hmem pa h) = \<lparr>pf_fd = fd, pf_events = 0, pf_revents = 0\<rparr>"
      by simp
    then have "pl_quiet pa h" by (simp add: pl_quiet_def)
    with i e show "pl_inv pa xs \<and> pl_registered pa h \<and> pl_quiet pa h \<and>
      pl_pollset pa ! nat (pl_hmem pa h) = \<lparr>pf_fd = fd, pf_events = 0, pf_revents = 0\<rparr>" by simp
  qed
  have c14: "(pl_inv p xs \<and> pl_registered p h \<and> pl_quiet p h \<and>
    pl_compact p = Inr p1 \<and> length revs = nat (pl_size p1) \<and> pl_honours (pl_pollset p1) revs \<longrightarrow>
      (\<exists>p2. nn_poller_wait_poll ig p t (KOk revs # cs) = Inr (RC0, p2) \<and>
         pl_inv p2 [] \<and> pl_registered p2 h \<and> pl_quiet p2 h \<and>
         (\<forall>n. \<exists>rs p3. drains nn_poller_event_poll n p2 = Inr (rs, p3) \<and>
         Some (NN_POLLER_IN, Some h) \<notin> set rs \<and> Some (NN_POLLER_OUT, Some h) \<notin> set rs)))"
  proof (intro impI)
    assume a: "pl_inv p xs \<and> pl_registered p h \<and> pl_quiet p h \<and>
      pl_compact p = Inr p1 \<and> length revs = nat (pl_size p1) \<and> pl_honours (pl_pollset p1) revs"
    with pl_wait_zero_interest[of p xs h p1 revs ig t cs] obtain p2 where
      p2: "nn_poller_wait_poll ig p t (KOk revs # cs) = Inr (RC0, p2)" "pl_inv p2 []"
        "pl_registered p2 h"
        "pf_events (pl_pollset p2 ! nat (pl_hmem p2 h)) = pf_events (pl_pollset p ! nat (pl_hmem p h))"
        "(\<forall>n. \<exists>rs p3. drains nn_poller_event_poll n p2 = Inr (rs, p3) \<and>
         Some (NN_POLLER_IN, Some h) \<notin> set rs \<and> Some (NN_POLLER_OUT, Some h) \<notin> set rs)"
      unfolding pl_quiet_def by blast
    from p2(4) a have "pl_quiet p2 h" by (simp add: pl_quiet_def)
    with p2 show "\<exists>p2. nn_poller_wait_poll ig p t (KOk revs # cs) = Inr (RC0, p2) \<and>
         pl_inv p2 [] \<and> pl_registered p2 h \<and> pl_quiet p2 h \<and>
         (\<forall>n. \<exists>rs p3. drains nn_poller_event_poll n p2 = Inr (rs, p3) \<and>
         Some (NN_POLLER_IN, Some h) \<notin> set rs \<and> Some (NN_POLLER_OUT, Some h) \<notin> set rs)" by blast
  qed
  show ?thesis
    by (intro conjI c1 c2 c3 c4 c5 c6 c7 c8 c9 c10 c11 c12 c13 c14)
qed

text \<open>
  Example contexts. In the epoll buffer handle 8 asked for reading and handle 9 for
  nothing; the buffer holds a hang-up of handle 9 and a read event of handle 8. The
  kqueue context is the example buffer to which handle 9 was added. The poll context is
  the example context to which handle 9 was added, in the third slot.
\<close>

definition ep_w3 :: ep_poller where
  "ep_w3 = ep_ex\<lparr>ep_nevents := 2,
     ep_events := [\<lparr>ee_events = 0x10, ee_ptr = 9\<rparr>, \<lparr>ee_events = 1, ee_ptr = 8\<rparr>]
                  @ replicate 30 \<lparr>ee_events = 0, ee_ptr = 0\<rparr>,
     ep_hmem := (\<lambda>h. if h = 8 then \<lparr>eh_fd = 4, eh_events = 1\<rparr> else \<lparr>eh_fd = 5, eh_events = 0\<rparr>)\<rparr>"

definition kq_w3 :: kq_poller where
  "kq_w3 = nn_poller_add_kqueue kq_w1 5 9"

definition pl_w3 :: pl_poller where
  "pl_w3 = pl_ex\<lparr>pl_size := 3,
     pl_pollset := [\<lparr>pf_fd = 3, pf_events = 5, pf_revents = 5\<rparr>,
                    \<lparr>pf_fd = 4, pf_events = 1, pf_revents = 1\<rparr>,
                    \<lparr>pf_fd = 5, pf_events = 0, pf_revents = 0\<rparr>]
                  @ replicate 13 \<lparr>pf_fd = 0, pf_events = 0, pf_revents = 0\<rparr>,
     pl_hndls := [\<lparr>hi_hndl = Some 7, hi_prev = 0, hi_next = 0\<rparr>,
                  \<lparr>hi_hndl = Some 8, hi_prev = 0, hi_next = 0\<rparr>,
                  \<lparr>hi_hndl = Some 9, hi_prev = 0, hi_next = 0\<rparr>]
                  @ replicate 13 \<lparr>hi_hndl = None, hi_prev = 0, hi_next = 0\<rparr>,
     pl_hmem := (\<lambda>h. if h = 9 then 2 else if h = 8 then 1 else 0)\<rparr>"

lemma ep_w3_facts:
  "ep_wf ep_w3" "ep_consistent ep_w3"
  "ep_honours (ep_hmem ep_w3) [\<lparr>ee_events = 0x10, ee_ptr = 9\<rparr>, \<lparr>ee_events = 1, ee_ptr = 8\<rparr>]"
  "eh_events (ep_hmem ep_w3 9) AND EPOLLIN = 0" "eh_events (ep_hmem ep_w3 9) AND EPOLLOUT = 0"
proof -
  have l: "ep_live ep_w3 = [\<lparr>ee_events = 0x10, ee_ptr = 9\<rparr>, \<lparr>ee_events = 1, ee_ptr = 8\<rparr>]"
    by (simp add: ep_w3_def ep_ex_def ep_live_def)
  show "ep_wf ep_w3" by (simp add: ep_w3_def ep_ex_def ep_wf_def)
  show h: "ep_honours (ep_hmem ep_w3) [\<lparr>ee_events = 0x10, ee_ptr = 9\<rparr>, \<lparr>ee_events = 1, ee_ptr = 8\<rparr>]"
    unfolding ep_honours_def by (simp add: ep_w3_def EPOLLIN_def EPOLLOUT_def)
  then show "ep_consistent ep_w3" unfolding ep_consistent_def l .
  show "eh_events (ep_hmem ep_w3 9) AND EPOLLIN = 0" "eh_events (ep_hmem ep_w3 9) AND EPOLLOUT = 0"
    by (simp_all add: ep_w3_def)
qed

lemma kq_w3_facts:
  "kq_wf kq_w3"
  "kq_live kq_w3 = [\<lparr>ke_ident = 3, ke_filter = EVFILT_READ, ke_flags = 0, ke_udata = Some 7\<rparr>,
                   \<lparr>ke_ident = 4, ke_filter = EVFILT_WRITE, ke_flags = 0, ke_udata = Some 8\<rparr>]"
  "kq_honours (kq_hmem kq_w3)
     [\<lparr>ke_ident = 3, ke_filter = EVFILT_READ, ke_flags = 0, ke_udata = Some 7\<rparr>,
      \<lparr>ke_ident = 4, ke_filter = EVFILT_WRITE, ke_flags = 0, ke_udata = Some 8\<rparr>]"
  "\<forall>e \<in> set [\<lparr>ke_ident = 3, ke_filter = EVFILT_READ, ke_flags = 0, ke_udata = Some 7\<rparr>,
              \<lparr>ke_ident = 4, ke_filter = EVFILT_WRITE, ke_flags = 0, ke_udata = Some 8\<rparr>]. kq_known e"
  "kh_events (kq_hmem kq_w3 9) AND NN_POLLER_EVENT_IN = 0"
  "kh_events (kq_hmem kq_w3 9) AND NN_POLLER_EVENT_OUT = 0"
proof -
  show l: "kq_live kq_w3 = [\<lparr>ke_ident = 3, ke_filter = EVFILT_READ, ke_flags = 0, ke_udata = Some 7\<rparr>,
                   \<lparr>ke_ident = 4, ke_filter = EVFILT_WRITE, ke_flags = 0, ke_udata = Some 8\<rparr>]"
    by (simp add: kq_w3_def nn_poller_add_kqueue_def kq_w1_def kq_ex_def kq_live_def)
  show "kq_wf kq_w3"
    unfolding kq_wf_def l
    by (simp add: kq_w3_def nn_poller_add_kqueue_def kq_w1_def kq_ex_def kq_known_def)
  show "kq_honours (kq_hmem kq_w3)
     [\<lparr>ke_ident = 3, ke_filter = EVFILT_READ, ke_flags = 0, ke_udata = Some 7\<rparr>,
      \<lparr>ke_ident = 4, ke_filter = EVFILT_WRITE, ke_flags = 0, ke_udata = Some 8\<rparr>]"
    unfolding kq_honours_def
    by (simp add: kq_w3_def nn_poller_add_kqueue_def kq_w1_def
        NN_POLLER_EVENT_IN_def NN_POLLER_EVENT_OUT_def EVFILT_READ_def EVFILT_WRITE_def)
  show "\<forall>e \<in> set [\<lparr>ke_ident = 3, ke_filter = EVFILT_READ, ke_flags = 0, ke_udata = Some 7\<rparr>,
              \<lparr>ke_ident = 4, ke_filter = EVFILT_WRITE, ke_flags = 0, ke_udata = Some 8\<rparr>]. kq_known e"
    by (simp add: kq_known_def)
  show "kh_events (kq_hmem kq_w3 9) AND NN_POLLER_EVENT_IN = 0"
    "kh_events (kq_hmem kq_w3 9) AND NN_POLLER_EVENT_OUT = 0"
    by (simp_all add: kq_w3_def nn_poller_add_kqueue_def)
qed

lemma pl_w3_facts:
  "pl_inv pl_w10 []"
  "\<forall>k. k < nat (pl_size pl_w10) \<longrightarrow> hi_hndl (pl_hndls pl_w10 ! k) \<noteq> Some 9"
  "nn_poller_add_poll pl_w10 5 9 None None = Inr pl_w3"
  "pl_compact pl_w3 = Inr pl_w3"
  "pl_honours (pl_pollset pl_w3) [1, 1, 0x10]"
  "length [1, 1, 0x10 :: 16 word] = nat (pl_size pl_w3)"
  "pl_wf pl_w3"
  "pf_revents (pl_pollset pl_w3 ! 2) AND POLLIN = 0" "pf_revents (pl_pollset pl_w3 ! 2) AND POLLOUT = 0"
  "pf_events (pl_pollset pl_w3 ! 2) AND POLLIN = 0" "pf_events (pl_pollset pl_w3 ! 2) AND POLLOUT = 0"
  "pl_hmem pl_w3 9 = 2"
proof -
  have u: "k < 2 \<Longrightarrow> k = 0 \<or> k = Suc 0" for k :: nat by auto
  have f: "pl_size pl_w10 = 2" "pl_removed pl_w10 = - 1" "length (pl_pollset pl_w10) = 16"
    "length (pl_hndls pl_w10) = 16"
    "pl_hndls pl_w10 ! 0 = \<lparr>hi_hndl = Some 7, hi_prev = 0, hi_next = 0\<rparr>"
    "pl_hndls pl_w10 ! Suc 0 = \<lparr>hi_hndl = Some 8, hi_prev = 0, hi_next = 0\<rparr>"
    by (simp_all add: pl_w10_def pl_ex_def)
  show "pl_inv pl_w10 []"
  proof (rule pl_invI)
    show "pl_slots pl_w10" by (rule pl_w10_facts(2))
    show "k \<in> set [] \<longleftrightarrow> k < nat (pl_size pl_w10) \<and> hi_hndl (pl_hndls pl_w10 ! k) = None" for k
      unfolding f by (auto dest!: u simp: f)
  qed (simp_all add: f)
  show "\<forall>k. k < nat (pl_size pl_w10) \<longrightarrow> hi_hndl (pl_hndls pl_w10 ! k) \<noteq> Some 9"
    unfolding f by (auto dest!: u simp: f)
  have fu: "(\<lambda>h. if h = 8 then 1 else (0::int))(9 := 2) = (\<lambda>h::hptr. if h = 9 then 2 else if h = 8 then 1 else 0)"
    by auto
  have r14: "replicate 14 x = x # replicate 13 x" for x :: 'a
    by (simp add: numeral_eq_Suc)
  show "nn_poller_add_poll pl_w10 5 9 None None = Inr pl_w3"
    by (simp add: nn_poller_add_poll_def pl_w10_def pl_ex_def Let_def inb_def pl_w3_def r14 fu)
  show "pl_compact pl_w3 = Inr pl_w3" by (rule pl_compact_idle) (simp add: pl_w3_def pl_ex_def)
  show "pl_honours (pl_pollset pl_w3) [1, 1, 0x10]"
    unfolding pl_honours_def by (simp add: pl_w3_def POLLIN_def POLLOUT_def)
  show "length [1, 1, 0x10 :: 16 word] = nat (pl_size pl_w3)" by (simp add: pl_w3_def)
  show "pl_wf pl_w3" by (simp add: pl_wf_def pl_w3_def pl_ex_def)
  show "pf_revents (pl_pollset pl_w3 ! 2) AND POLLIN = 0" "pf_revents (pl_pollset pl_w3 ! 2) AND POLLOUT = 0"
    "pf_events (pl_pollset pl_w3 ! 2) AND POLLIN = 0" "pf_events (pl_pollset pl_w3 ! 2) AND POLLOUT = 0"
    "pl_hmem pl_w3 9 = 2"
    by (simp_all add: pl_w3_def)
qed

text \<open>The theorem at the example contexts, for handle 9 and the other handle 8.\<close>

theorem zero_interest_gives_no_readiness_witness:
  "ep_wf ep_w3 \<and> ep_consistent ep_w3 \<and>
   ep_honours (ep_hmem ep_w3) [\<lparr>ee_events = 0x10, ee_ptr = 9\<rparr>, \<lparr>ee_events = 1, ee_ptr = 8\<rparr>] \<and>
   ep_quiet ep_w3 9 \<and>
   ep_quiet (nn_poller_set_in_epoll ep_w3 8) 9 \<and> ep_quiet (nn_poller_set_out_epoll ep_w3 8) 9 \<and>
   (\<forall>n. \<exists>rs s'. drains nn_poller_event_epoll n ep_w3 = Inr (rs, s') \<and>
         Some (NN_POLLER_IN, 9) \<notin> set rs \<and> Some (NN_POLLER_OUT, 9) \<notin> set rs) \<and>
   (\<exists>s2. nn_poller_wait_epoll ep_w3 10 [KOk [\<lparr>ee_events = 0x10, ee_ptr = 9\<rparr>, \<lparr>ee_events = 1, ee_ptr = 8\<rparr>]] = Inr (RC0, s2) \<and>
         ep_wf s2 \<and> ep_consistent s2 \<and> ep_quiet s2 9 \<and>
         (\<forall>n. \<exists>rs s'. drains nn_poller_event_epoll n s2 = Inr (rs, s') \<and>
         Some (NN_POLLER_IN, 9) \<notin> set rs \<and> Some (NN_POLLER_OUT, 9) \<notin> set rs)) \<and>
   kq_w3 = nn_poller_add_kqueue kq_w1 5 9 \<and> kq_quiet kq_w3 9 \<and>
   kq_klog kq_w3 = kq_klog kq_w1 \<and>
   kq_wf kq_w3 \<and> kq_honours (kq_hmem kq_w3) (kq_live kq_w3) \<and>
   kq_quiet (nn_poller_set_in_kqueue kq_w3 8 (KOk 0)) 9 \<and> kq_quiet (nn_poller_set_out_kqueue kq_w3 8 (KOk 0)) 9 \<and>
   (\<forall>n. \<exists>rs q'. drains nn_poller_event_kqueue n kq_w3 = Inr (rs, q') \<and>
         (\<forall>k. Some (k, Some 9) \<notin> set rs)) \<and>
   (\<exists>q2. nn_poller_wait_kqueue False kq_w3 10 [KOk [\<lparr>ke_ident = 3, ke_filter = EVFILT_READ, ke_flags = 0, ke_udata = Some 7\<rparr>, \<lparr>ke_ident = 4, ke_filter = EVFILT_WRITE, ke_flags = 0, ke_udata = Some 8\<rparr>]] = Inr (RC0, q2) \<and>
         kq_wf q2 \<and> kq_honours (kq_hmem q2) (kq_live q2) \<and> kq_quiet q2 9 \<and>
         (\<forall>n. \<exists>rs q'. drains nn_poller_event_kqueue n q2 = Inr (rs, q') \<and>
         (\<forall>k. Some (k, Some 9) \<notin> set rs))) \<and>
   pl_inv pl_w10 [] \<and>
   pl_size pl_w10 = 2 \<and> hi_hndl (pl_hndls pl_w10 ! 0) = Some 7 \<and>
   hi_hndl (pl_hndls pl_w10 ! 1) = Some 8 \<and>
   nn_poller_add_poll pl_w10 5 9 None None = Inr pl_w3 \<and>
   (pl_inv pl_w3 [] \<and> pl_registered pl_w3 9 \<and> pl_quiet pl_w3 9 \<and>
      pl_pollset pl_w3 ! nat (pl_hmem pl_w3 9) = \<lparr>pf_fd = 5, pf_events = 0, pf_revents = 0\<rparr>) \<and>
   pl_registered pl_w3 8 \<and>
   (\<exists>p'. nn_poller_set_in_poll pl_w3 8 = Inr p' \<and> pl_quiet p' 9 \<and> pl_registered p' 9) \<and>
   pl_wf pl_w3 \<and> pl_slots pl_w3 \<and>
   (\<forall>n. \<exists>rs p3. drains nn_poller_event_poll n pl_w3 = Inr (rs, p3) \<and>
         Some (NN_POLLER_IN, Some 9) \<notin> set rs \<and> Some (NN_POLLER_OUT, Some 9) \<notin> set rs) \<and>
   pl_compact pl_w3 = Inr pl_w3 \<and> pl_honours (pl_pollset pl_w3) [1, 1, 0x10] \<and>
   (\<exists>p2. nn_poller_wait_poll False pl_w3 10 [KOk [1, 1, 0x10]] = Inr (RC0, p2) \<and>
         pl_inv p2 [] \<and> pl_registered p2 9 \<and> pl_quiet p2 9 \<and>
         (\<forall>n. \<exists>rs p3. drains nn_poller_event_poll n p2 = Inr (rs, p3) \<and>
         Some (NN_POLLER_IN, Some 9) \<notin> set rs \<and> Some (NN_POLLER_OUT, Some 9) \<notin> set rs))"
proof -
  note T = zero_interest_gives_no_readiness[where s=ep_w3 and h=9 and g=8 and t=10 and as="[]"
      and batch="[\<lparr>ee_events = 0x10, ee_ptr = 9\<rparr>, \<lparr>ee_events = 1, ee_ptr = 8\<rparr>]"
      and q=kq_w1 and fd=5
      and p=pl_w10 and xs="[]" and ?m1.0=None and ?m2.0=None and pa=pl_w3]
  note e = ep_w3_facts and k = kq_w3_facts and p = pl_w3_facts
  have eq: "ep_quiet ep_w3 9" using e(4,5) by (simp add: ep_quiet_def)
  have e3: "ep_quiet (nn_poller_set_in_epoll ep_w3 8) 9 \<and> ep_quiet (nn_poller_set_out_epoll ep_w3 8) 9"
    using T[THEN conjunct2, THEN conjunct2, THEN conjunct1] eq by simp
  have e4: "(\<forall>n. \<exists>rs s'. drains nn_poller_event_epoll n ep_w3 = Inr (rs, s') \<and>
         Some (NN_POLLER_IN, 9) \<notin> set rs \<and> Some (NN_POLLER_OUT, 9) \<notin> set rs)"
    using T[THEN conjunct2, THEN conjunct2, THEN conjunct2, THEN conjunct1] e eq by blast
  have e5: "(\<exists>s2. nn_poller_wait_epoll ep_w3 10 [KOk [\<lparr>ee_events = 0x10, ee_ptr = 9\<rparr>, \<lparr>ee_events = 1, ee_ptr = 8\<rparr>]] = Inr (RC0, s2) \<and>
         ep_wf s2 \<and> ep_consistent s2 \<and> ep_quiet s2 9 \<and>
         (\<forall>n. \<exists>rs s'. drains nn_poller_event_epoll n s2 = Inr (rs, s') \<and>
         Some (NN_POLLER_IN, 9) \<notin> set rs \<and> Some (NN_POLLER_OUT, 9) \<notin> set rs))"
    using T[THEN conjunct2, THEN conjunct2, THEN conjunct2, THEN conjunct2, THEN conjunct1] e eq by blast
  have kq: "kq_quiet kq_w3 9" "kq_klog kq_w3 = kq_klog kq_w1"
    using T[THEN conjunct2, THEN conjunct2, THEN conjunct2, THEN conjunct2, THEN conjunct2, THEN conjunct1] T[THEN conjunct2, THEN conjunct2, THEN conjunct2, THEN conjunct2, THEN conjunct2, THEN conjunct2, THEN conjunct1] by (simp_all add: kq_w3_def)
  have kh: "kq_honours (kq_hmem kq_w3) (kq_live kq_w3)" unfolding k(2) by (rule k(3))
  have p11: "(pl_inv pl_w3 [] \<and> pl_registered pl_w3 9 \<and> pl_quiet pl_w3 9 \<and>
      pl_pollset pl_w3 ! nat (pl_hmem pl_w3 9) = \<lparr>pf_fd = 5, pf_events = 0, pf_revents = 0\<rparr>)"
    using T[THEN conjunct2, THEN conjunct2, THEN conjunct2, THEN conjunct2, THEN conjunct2, THEN conjunct2, THEN conjunct2, THEN conjunct2, THEN conjunct2, THEN conjunct2, THEN conjunct1] p(1,2,3) by simp
  then have sl: "pl_slots pl_w3" and rg: "pl_registered pl_w3 9" and iv: "pl_inv pl_w3 []"
    and pq: "pl_quiet pl_w3 9"
    by (simp_all add: pl_inv_def)
  have r8: "pl_registered pl_w3 8" by (simp add: pl_registered_def pl_w3_def)
  obtain p' where si: "nn_poller_set_in_poll pl_w3 8 = Inr p'"
    by (simp add: nn_poller_set_in_poll_def Let_def inb_def pl_w3_def)
  note U = zero_interest_gives_no_readiness[where h=9 and g=8 and t=10 and q=kq_w3 and ig=False and bs="[]"
      and ans="KOk 0"
      and kbatch="[\<lparr>ke_ident = 3, ke_filter = EVFILT_READ, ke_flags = 0, ke_udata = Some 7\<rparr>, \<lparr>ke_ident = 4, ke_filter = EVFILT_WRITE, ke_flags = 0, ke_udata = Some 8\<rparr>]"
      and p=pl_w3 and xs="[]" and ?p1.0=pl_w3 and revs="[1, 1, 0x10]" and cs="[]" and p'=p']
  have k8: "kq_quiet (nn_poller_set_in_kqueue kq_w3 8 (KOk 0)) 9 \<and> kq_quiet (nn_poller_set_out_kqueue kq_w3 8 (KOk 0)) 9"
    using U[THEN conjunct2, THEN conjunct2, THEN conjunct2, THEN conjunct2, THEN conjunct2, THEN conjunct2, THEN conjunct2, THEN conjunct1] kq(1) by simp
  have k9: "(\<forall>n. \<exists>rs q'. drains nn_poller_event_kqueue n kq_w3 = Inr (rs, q') \<and>
         (\<forall>k. Some (k, Some 9) \<notin> set rs))"
    using U[THEN conjunct2, THEN conjunct2, THEN conjunct2, THEN conjunct2, THEN conjunct2, THEN conjunct2, THEN conjunct2, THEN conjunct2, THEN conjunct1] k(1) kh kq(1) by blast
  have k10: "(\<exists>q2. nn_poller_wait_kqueue False kq_w3 10 [KOk [\<lparr>ke_ident = 3, ke_filter = EVFILT_READ, ke_flags = 0, ke_udata = Some 7\<rparr>, \<lparr>ke_ident = 4, ke_filter = EVFILT_WRITE, ke_flags = 0, ke_udata = Some 8\<rparr>]] = Inr (RC0, q2) \<and>
         kq_wf q2 \<and> kq_honours (kq_hmem q2) (kq_live q2) \<and> kq_quiet q2 9 \<and>
         (\<forall>n. \<exists>rs q'. drains nn_poller_event_kqueue n q2 = Inr (rs, q') \<and>
         (\<forall>k. Some (k, Some 9) \<notin> set rs)))"
    using U[THEN conjunct2, THEN conjunct2, THEN conjunct2, THEN conjunct2, THEN conjunct2, THEN conjunct2, THEN conjunct2, THEN conjunct2, THEN conjunct2, THEN conjunct1] k(3,4) kq(1) by blast
  have p12: "(\<exists>p'. nn_poller_set_in_poll pl_w3 8 = Inr p' \<and> pl_quiet p' 9 \<and> pl_registered p' 9)"
    using U[THEN conjunct2, THEN conjunct2, THEN conjunct2, THEN conjunct2, THEN conjunct2, THEN conjunct2, THEN conjunct2, THEN conjunct2, THEN conjunct2, THEN conjunct2, THEN conjunct2, THEN conjunct1] pq rg r8 si by auto
  have p13: "(\<forall>n. \<exists>rs p3. drains nn_poller_event_poll n pl_w3 = Inr (rs, p3) \<and>
         Some (NN_POLLER_IN, Some 9) \<notin> set rs \<and> Some (NN_POLLER_OUT, Some 9) \<notin> set rs)"
    using U[THEN conjunct2, THEN conjunct2, THEN conjunct2, THEN conjunct2, THEN conjunct2, THEN conjunct2, THEN conjunct2, THEN conjunct2, THEN conjunct2, THEN conjunct2, THEN conjunct2, THEN conjunct2, THEN conjunct1] p(7,8,9,12) sl rg by simp
  have p14: "(\<exists>p2. nn_poller_wait_poll False pl_w3 10 [KOk [1, 1, 0x10]] = Inr (RC0, p2) \<and>
         pl_inv p2 [] \<and> pl_registered p2 9 \<and> pl_quiet p2 9 \<and>
         (\<forall>n. \<exists>rs p3. drains nn_poller_event_poll n p2 = Inr (rs, p3) \<and>
         Some (NN_POLLER_IN, Some 9) \<notin> set rs \<and> Some (NN_POLLER_OUT, Some 9) \<notin> set rs))"
    using U[THEN conjunct2, THEN conjunct2, THEN conjunct2, THEN conjunct2, THEN conjunct2, THEN conjunct2, THEN conjunct2, THEN conjunct2, THEN conjunct2, THEN conjunct2, THEN conjunct2, THEN conjunct2, THEN conjunct2] p(4,5,6) iv rg pq by simp
  show ?thesis
    by (intro conjI e(1,2,3) eq e3[THEN conjunct1] e3[THEN conjunct2] e4 e5 kq kh k(1)
          k8[THEN conjunct1] k8[THEN conjunct2] k9 k10 p(1,3)
          p11[THEN conjunct1] p11[THEN conjunct2, THEN conjunct1]
          p11[THEN conjunct2, THEN conjunct2, THEN conjunct1]
          p11[THEN conjunct2, THEN conjunct2, THEN conjunct2]
          r8 p12 p(7) sl p13 p(4,5) p14)
       (simp_all add: kq_w3_def pl_w10_def pl_ex_def)
qed

text \<open>
  Claim C3, as stated (no event of any kind, ERR included, for a handle that was added
  and asked for nothing), fails in the epoll and in the poll backend. The operating
  system reports a hang-up or an error of a descriptor whatever was asked for (the value
  \<open>0x10\<close> below is \<^verbatim>\<open>EPOLLHUP\<close>, resp. \<^verbatim>\<open>POLLHUP\<close>), and \<^verbatim>\<open>nn_poller_event\<close> returns every
  record without the read and the write bit as ERR. Handle 7 is added to the initial
  context; the next wait reports a hang-up of its descriptor; the first call of
  \<^verbatim>\<open>nn_poller_event\<close> returns ERR for handle 7.
\<close>

theorem zero_interest_handle_gets_err_counterexample:
  "(case nn_poller_wait_epoll (nn_poller_add_epoll ep_ex 3 7) 10
           [KOk [\<lparr>ee_events = 0x10, ee_ptr = 7\<rparr>]] of
      Inl f \<Rightarrow> False
    | Inr (rc, s2) \<Rightarrow> rc = RC0 \<and> delivered nn_poller_event_epoll 1 s2 = [(NN_POLLER_ERR, 7)]) \<and>
   (case nn_poller_add_poll pl_ex 3 7 None None of
      Inl f \<Rightarrow> False
    | Inr p1 \<Rightarrow>
        (case nn_poller_wait_poll False p1 10 [KOk [0x10]] of
           Inl f \<Rightarrow> False
         | Inr (rc, p2) \<Rightarrow> rc = RC0 \<and> delivered nn_poller_event_poll 1 p2 = [(NN_POLLER_ERR, Some 7)]))"
proof -
  from ep_wait_ok[of "nn_poller_add_epoll ep_ex 3 7" 10 "[\<lparr>ee_events = 0x10, ee_ptr = 7\<rparr>]" "[]"]
  obtain s2 where s2: "nn_poller_wait_epoll (nn_poller_add_epoll ep_ex 3 7) 10
           [KOk [\<lparr>ee_events = 0x10, ee_ptr = 7\<rparr>]] = Inr (RC0, s2)" "ep_wf s2"
     "ep_live s2 = take (nat NN_POLLER_MAX_EVENTS) [\<lparr>ee_events = 0x10, ee_ptr = 7\<rparr>]" by blast
  have w32: "(0x10 :: 32 word) AND EPOLLIN = 0" "(0x10 :: 32 word) AND EPOLLOUT = 0"
    by (simp_all add: EPOLLIN_def EPOLLOUT_def)
  have "ep_pending s2 = [(NN_POLLER_ERR, 7)]"
    using ep_pend1_err[of "\<lparr>ee_events = 0x10, ee_ptr = 7\<rparr>"] w32
    by (simp add: ep_pending_def s2(3) NN_POLLER_MAX_EVENTS_def)
  then have e: "delivered nn_poller_event_epoll 1 s2 = [(NN_POLLER_ERR, 7)]"
    by (simp add: ep_delivered[OF s2(2)])
  define p1 where "p1 = pl_ex\<lparr>pl_size := 1,
     pl_pollset := \<lparr>pf_fd = 3, pf_events = 0, pf_revents = 0\<rparr> #
                   replicate 15 \<lparr>pf_fd = 0, pf_events = 0, pf_revents = 0\<rparr>,
     pl_hndls := \<lparr>hi_hndl = Some 7, hi_prev = 0, hi_next = 0\<rparr> #
                 replicate 15 \<lparr>hi_hndl = None, hi_prev = 0, hi_next = 0\<rparr>\<rparr>"
  have r15: "replicate 16 x = x # replicate 15 x" for x :: 'a
    by (simp add: numeral_eq_Suc)
  have fu: "(\<lambda>h::hptr. 0::int)(7 := 0) = (\<lambda>h. 0)" by auto
  have a: "nn_poller_add_poll pl_ex 3 7 None None = Inr p1"
    by (simp add: nn_poller_add_poll_def pl_ex_def Let_def inb_def p1_def r15 fu)
  define p2 where "p2 = p1\<lparr>pl_index := 0, pl_klog := [Poll 1 10],
     pl_pollset := \<lparr>pf_fd = 3, pf_events = 0, pf_revents = 0x10\<rparr> #
                   replicate 15 \<lparr>pf_fd = 0, pf_events = 0, pf_revents = 0\<rparr>\<rparr>"
  have c: "pl_compact p1 = Inr p1" by (rule pl_compact_idle) (simp add: p1_def pl_ex_def)
  have w: "nn_poller_wait_poll False p1 10 [KOk [0x10]] = Inr (RC0, p2)"
    by (simp add: nn_poller_wait_poll_def c Let_def)
       (simp add: p1_def p2_def pl_ex_def poll_write_def)
  have wf: "pl_wf p2" by (simp add: pl_wf_def p2_def p1_def pl_ex_def)
  have w16: "(0x10 :: 16 word) AND POLLIN = 0" "(0x10 :: 16 word) AND POLLOUT = 0"
    by (simp_all add: POLLIN_def POLLOUT_def)
  have "pl_pending p2 = [(NN_POLLER_ERR, Some 7)]"
    using pl_pend1_err[of "\<lparr>pf_fd = 3, pf_events = 0, pf_revents = 0x10\<rparr>"
        "\<lparr>hi_hndl = Some 7, hi_prev = 0, hi_next = 0\<rparr>"] w16
    by (simp add: pl_pending_def pl_slot_def p2_def p1_def pl_ex_def)
  then have p: "delivered nn_poller_event_poll 1 p2 = [(NN_POLLER_ERR, Some 7)]"
    by (simp add: pl_delivered[OF wf])
  from s2(1) e a w p show ?thesis by simp
qed

end
